(* ===== verification/Prelude.thy ===== *)
theory Prelude
  imports Main "HOL-Library.Word"
begin

text \<open>
  Shared material of the development: the machine integer types, the result type of fallible
  code with its sequencing operator, unsigned 64-bit subtraction on natural numbers, conversion to \<open>int\<close>, overwriting
  a stretch of a list, and flat views of lists of equally long blocks.
\<close>

unbundle bit_operations_syntax

type_synonym u8 = "8 word"
type_synonym u16 = "16 word"
type_synonym u32 = "32 word"
type_synonym u64 = "64 word"

named_theorems result_simps \<open>rewriting of sequenced results\<close>
named_theorems block_simps \<open>flat views of block lists\<close>

section \<open>Results of fallible code\<close>

text \<open>
  Every throw, failed assertion (\<open>ASSERT\<close> of \<open>util/macro.h\<close>) and undefined access of the source
  is a value of \<open>error\<close>, so that each is a branch of the model.
\<close>

datatype error =
    Out_Of_Range        \<comment> \<open>std::out_of_range\<close>
  | Invalid_Argument    \<comment> \<open>std::invalid_argument\<close>
  | Logic_Error         \<comment> \<open>std::logic_error\<close>
  | Assertion_Failed    \<comment> \<open>ASSERT and ASSERT2\<close>
  | Null_Deref          \<comment> \<open>a null pointer is dereferenced\<close>
  | Out_Of_Bounds       \<comment> \<open>an access outside an array, a vector or a container\<close>
  | Div_By_Zero         \<comment> \<open>an integer remainder by zero\<close>
  | Undefined_Shift     \<comment> \<open>a shift by at least the width of the type\<close>
  | Undefined_Unlock    \<comment> \<open>a lock released by a thread that does not hold it\<close>
  | Yaml_Error          \<comment> \<open>an exception of the YAML library\<close>

type_synonym 'a result = "error + 'a"

fun rbind :: "'a result \<Rightarrow> ('a \<Rightarrow> 'b result) \<Rightarrow> 'b result" where
  "rbind (Inl e) f = Inl e"
| "rbind (Inr x) f = f x"

definition guard :: "bool \<Rightarrow> error \<Rightarrow> unit result" where
  "guard b e = (if b then Inr () else Inl e)"

lemma rbind_cong [fundef_cong]:
  "m = m' \<Longrightarrow> (\<And>x. m' = Inr x \<Longrightarrow> f x = g x) \<Longrightarrow> rbind m f = rbind m' g"
  by (cases m') auto

lemma rbind_eq_Inr [result_simps]:
  "rbind m f = Inr y \<longleftrightarrow> (\<exists>x. m = Inr x \<and> f x = Inr y)"
  by (cases m) auto

lemma rbind_eq_Inl [result_simps]:
  "rbind m f = Inl e \<longleftrightarrow> m = Inl e \<or> (\<exists>x. m = Inr x \<and> f x = Inl e)"
  by (cases m) auto

lemma rbind_assoc [result_simps]:
  "rbind (rbind m f) g = rbind m (\<lambda>x. rbind (f x) g)"
  by (cases m) auto

lemma guard_simps [simp]:
  "guard True e = Inr ()"
  "guard False e = Inl e"
  "guard b e = Inr u \<longleftrightarrow> b"
  "guard b e = Inl e' \<longleftrightarrow> \<not> b \<and> e' = e"
  by (auto simp: guard_def)

lemma rbind_guard [simp]:
  "rbind (guard b e) f = (if b then f () else Inl e)"
  by (auto simp: guard_def)

section \<open>Unsigned 64-bit subtraction\<close>

text \<open>
  Sizes and positions (\<open>size_t\<close>) are natural numbers; a difference wraps modulo \<open>2 ^ 64\<close> as it
  does in the source. Sums stay below \<open>2 ^ 64\<close> because every one of them is bounded by the
  number of bytes the process has allocated.
\<close>

definition sub64 :: "nat \<Rightarrow> nat \<Rightarrow> nat" where
  "sub64 a b = (if b \<le> a then a - b else 2 ^ 64 - (b - a))"

lemma sub64_le [simp]: "b \<le> a \<Longrightarrow> sub64 a b = a - b"
  by (simp add: sub64_def)

section \<open>Conversion to int\<close>

text \<open>The conversion of an integer to the 32-bit signed \<open>int\<close>.\<close>

definition c_int :: "int \<Rightarrow> int" where
  "c_int v = sint (of_int v :: u32)"

lemma c_int_small: "- (2 ^ 31) \<le> v \<Longrightarrow> v < 2 ^ 31 \<Longrightarrow> c_int v = v"
  by (simp add: c_int_def int_word_sint)

section \<open>Overwriting a stretch of a list\<close>

definition overwrite :: "nat \<Rightarrow> 'a list \<Rightarrow> 'a list \<Rightarrow> 'a list" where
  "overwrite p xs ys = take p ys @ xs @ drop (p + length xs) ys"

lemma length_overwrite [simp]:
  "p + length xs \<le> length ys \<Longrightarrow> length (overwrite p xs ys) = length ys"
  by (simp add: overwrite_def)

lemma overwrite_Nil [simp]: "overwrite p [] ys = ys"
  by (simp add: overwrite_def)

lemma overwrite_overwrite:
  "p + length xs \<le> length ys \<Longrightarrow>
   overwrite (p + length xs) zs (overwrite p xs ys) = overwrite p (xs @ zs) ys"
  by (simp add: overwrite_def ac_simps)

lemma take_drop_overwrite:
  "p \<le> length ys \<Longrightarrow> take (length xs) (drop p (overwrite p xs ys)) = xs"
  by (simp add: overwrite_def)

lemma overwrite_append_left:
  "p + length xs \<le> length ys \<Longrightarrow> overwrite p xs (ys @ zs) = overwrite p xs ys @ zs"
  by (simp add: overwrite_def)

lemma overwrite_append_right:
  "p = length ys + q \<Longrightarrow> overwrite p xs (ys @ zs) = ys @ overwrite q xs zs"
  by (simp add: overwrite_def)

lemma take_overwrite:
  assumes "p \<le> n" "n \<le> length ys" "p + length xs \<le> length ys"
  shows "take (max n (p + length xs)) (overwrite p xs ys) = overwrite p xs (take n ys)"
  using assms by (auto simp: overwrite_def take_drop max_def min_def)

lemma take_drop_split:
  "m \<le> n \<Longrightarrow> take m (drop p xs) @ take (n - m) (drop (p + m) xs) = take n (drop p xs)"
  using take_add [of m "n - m" "drop p xs"] by (simp add: add.commute)

section \<open>Lists of equally long blocks\<close>

definition blocks_ok :: "nat \<Rightarrow> 'a list list \<Rightarrow> bool" where
  "blocks_ok k bs \<longleftrightarrow> (\<forall>b \<in> set bs. length b = k)"

lemma blocks_ok_simps [simp]:
  "blocks_ok k []"
  "blocks_ok k (b # bs) \<longleftrightarrow> length b = k \<and> blocks_ok k bs"
  "blocks_ok k (bs @ cs) \<longleftrightarrow> blocks_ok k bs \<and> blocks_ok k cs"
  by (auto simp: blocks_ok_def)

lemma blocks_ok_nth: "blocks_ok k bs \<Longrightarrow> i < length bs \<Longrightarrow> length (bs ! i) = k"
  by (simp add: blocks_ok_def)

lemma blocks_ok_update: "blocks_ok k bs \<Longrightarrow> length b = k \<Longrightarrow> blocks_ok k (bs[i := b])"
  unfolding blocks_ok_def using set_update_subset_insert by fastforce

lemma length_concat_blocks [block_simps]:
  "blocks_ok k bs \<Longrightarrow> length (concat bs) = length bs * k"
  by (induction bs) (auto simp: blocks_ok_def)

lemma blocks_ok_take: "blocks_ok k bs \<Longrightarrow> blocks_ok k (take i bs)"
  by (auto simp: blocks_ok_def dest: in_set_takeD)

lemma concat_split_nth:
  "i < length bs \<Longrightarrow> concat bs = concat (take i bs) @ bs ! i @ concat (drop (Suc i) bs)"
  by (metis concat.simps(2) concat_append id_take_nth_drop)

lemma length_concat_take [block_simps]:
  "blocks_ok k bs \<Longrightarrow> i \<le> length bs \<Longrightarrow> length (concat (take i bs)) = i * k"
  using length_concat_blocks [OF blocks_ok_take, of k bs i] by simp

text \<open>Overwriting inside one block is overwriting the flat list at that block's offset.\<close>

lemma concat_update_block:
  assumes ok: "blocks_ok k bs" and i: "i < length bs" and fit: "off + length xs \<le> k"
  shows "concat (bs[i := overwrite off xs (bs ! i)]) = overwrite (i * k + off) xs (concat bs)"
proof -
  let ?pre = "concat (take i bs)" and ?post = "concat (drop (Suc i) bs)"
  have len: "length ?pre = i * k" and leni: "length (bs ! i) = k"
    using ok i by (simp_all add: length_concat_take blocks_ok_nth)
  have "concat (bs[i := overwrite off xs (bs ! i)]) = ?pre @ overwrite off xs (bs ! i) @ ?post"
    using i by (simp add: upd_conv_take_nth_drop)
  also have "\<dots> = overwrite (i * k + off) xs (?pre @ bs ! i @ ?post)"
    using len leni fit by (simp add: overwrite_append_right overwrite_append_left)
  finally show ?thesis using concat_split_nth [OF i] by simp
qed

text \<open>Reading inside one block is reading the flat list at that block's offset.\<close>

lemma take_drop_block:
  assumes ok: "blocks_ok k bs" and i: "i < length bs" and fit: "off + n \<le> k"
  shows "take n (drop (i * k + off) (concat bs)) = take n (drop off (bs ! i))"
proof -
  have len: "length (concat (take i bs)) = i * k" and leni: "length (bs ! i) = k"
    using ok i by (simp_all add: length_concat_take blocks_ok_nth)
  show ?thesis using concat_split_nth [OF i] len leni fit by (simp add: take_append)
qed

end
