(* ===== verification/Endian.thy ===== *)
theory Endian
  imports Prelude
begin

text \<open>
  Byte orders and byte swapping (\<open>util/endian_conv.h\<close>). An integer of the source is a word; what
  \<open>memcpy\<close> sees of it is the list of its bytes in the host's order, which on the platform of the
  project (x86\_64) is little endian: \<open>to_mem\<close> and \<open>of_mem\<close> are that reading and its inverse.
\<close>

datatype endian = SYLAR_LITTLE_ENDIAN | SYLAR_BIG_ENDIAN

definition SYLAR_BYTE_ORDER :: endian where
  "SYLAR_BYTE_ORDER = SYLAR_LITTLE_ENDIAN"

definition to_mem :: "'a::len word \<Rightarrow> u8 list" where
  "to_mem w = map (\<lambda>i. ucast (drop_bit (8 * i) w)) [0..<LENGTH('a) div 8]"

definition of_mem :: "u8 list \<Rightarrow> 'a::len word" where
  "of_mem bs = foldr (\<lambda>b acc. ucast b OR push_bit 8 acc) bs 0"

text \<open>\<open>bswap_64\<close>, \<open>bswap_32\<close> and \<open>bswap_16\<close>: the bytes of the value in reverse order.\<close>

definition byteswap :: "'a::len word \<Rightarrow> 'a word" where
  "byteswap w = of_mem (rev (to_mem w))"

definition ByteswapOnLittleEndian :: "'a::len word \<Rightarrow> 'a word" where
  "ByteswapOnLittleEndian t =
     (if SYLAR_BYTE_ORDER = SYLAR_BIG_ENDIAN then t else byteswap t)"

definition ByteswapOnBigEndian :: "'a::len word \<Rightarrow> 'a word" where
  "ByteswapOnBigEndian t =
     (if SYLAR_BYTE_ORDER = SYLAR_BIG_ENDIAN then byteswap t else t)"

section \<open>Bytes of a word\<close>

lemma length_to_mem [simp]: "length (to_mem (w :: 'a::len word)) = LENGTH('a) div 8"
  by (simp add: to_mem_def)

lemma of_mem_simps [simp]:
  "of_mem [] = 0"
  "of_mem (b # bs) = ucast b OR push_bit 8 (of_mem bs)"
  by (simp_all add: of_mem_def)

lemma bit_of_mem:
  "bit (of_mem bs :: 'a::len word) n \<longleftrightarrow>
     n < LENGTH('a) \<and> n div 8 < length bs \<and> bit (bs ! (n div 8)) (n mod 8)"
proof (induction bs arbitrary: n)
  case Nil
  then show ?case by simp
next
  case (Cons b bs)
  show ?case
  proof (cases "n < 8")
    case True
    then show ?thesis by (simp add: bit_simps)
  next
    case False
    then obtain m where m: "n = m + 8" by (metis add.commute le_Suc_ex not_le)
    moreover have "(m + 8) div 8 = Suc (m div 8)" by simp
    ultimately show ?thesis by (auto simp: bit_simps Cons.IH dest: bit_imp_le_length)
  qed
qed

lemma bit_to_mem:
  "i < LENGTH('a) div 8 \<Longrightarrow> j < 8 \<Longrightarrow> bit (to_mem (w :: 'a::len word) ! i) j \<longleftrightarrow> bit w (8 * i + j)"
  by (simp add: to_mem_def bit_simps)

lemma of_mem_to_mem [simp]:
  assumes "8 dvd LENGTH('a)"
  shows "of_mem (to_mem w) = (w :: 'a::len word)"
proof (rule bit_word_eqI)
  fix n assume n: "n < LENGTH('a)"
  with assms have "n div 8 < LENGTH('a) div 8" by (auto elim: dvdE)
  with n show "bit (of_mem (to_mem w) :: 'a word) n = bit w n"
    by (simp add: bit_of_mem bit_to_mem)
qed

lemma to_mem_of_mem [simp]:
  assumes "8 * length bs = LENGTH('a)"
  shows "to_mem (of_mem bs :: 'a::len word) = bs"
proof (rule nth_equalityI)
  show len: "length (to_mem (of_mem bs :: 'a word)) = length bs" using assms by simp
  fix i assume i: "i < length (to_mem (of_mem bs :: 'a word))"
  show "to_mem (of_mem bs :: 'a word) ! i = bs ! i"
  proof (rule bit_word_eqI)
    fix j assume "j < LENGTH(8)"
    with i len assms show "bit (to_mem (of_mem bs :: 'a word) ! i) j = bit (bs ! i) j"
      by (simp add: bit_to_mem bit_of_mem)
  qed
qed

section \<open>Byte swapping\<close>

lemma to_mem_byteswap:
  "8 dvd LENGTH('a) \<Longrightarrow> to_mem (byteswap (w :: 'a::len word)) = rev (to_mem w)"
  by (simp add: byteswap_def)

lemma byteswap_byteswap:
  "8 dvd LENGTH('a) \<Longrightarrow> byteswap (byteswap w) = (w :: 'a::len word)"
  by (subst byteswap_def) (simp add: to_mem_byteswap)

lemma byteswap_of_mem:
  "8 * length bs = LENGTH('a) \<Longrightarrow> byteswap (of_mem bs :: 'a::len word) = of_mem (rev bs)"
  by (simp add: byteswap_def)

text \<open>
  On the host the two conditional swaps are the swap and the identity; the swap is its own
  inverse, which is what every port and address accessor relies on.
\<close>

lemma ByteswapOnLittleEndian_eq: "ByteswapOnLittleEndian w = byteswap w"
  by (simp add: ByteswapOnLittleEndian_def SYLAR_BYTE_ORDER_def)

lemma ByteswapOnBigEndian_eq: "ByteswapOnBigEndian w = w"
  by (simp add: ByteswapOnBigEndian_def SYLAR_BYTE_ORDER_def)

lemma ByteswapOnLittleEndian_inverse [simp]:
  "8 dvd LENGTH('a) \<Longrightarrow>
   ByteswapOnLittleEndian (ByteswapOnLittleEndian w) = (w :: 'a::len word)"
  by (simp add: ByteswapOnLittleEndian_eq byteswap_byteswap)

end
