(* ===== verification/Byte_Array.thy ===== *)
theory Byte_Array
  imports Endian
begin

text \<open>
  The growable byte buffer of \<open>util/bytearray.h\<close> and \<open>util/bytearray.cc\<close>: memory blocks chained by
  pointers, a cursor, and the capacity bookkeeping. The chain from \<open>root_\<close> is the list \<open>ba_nodes\<close>;
  a \<open>Node*\<close> is an index into it, and the null pointer at the end of the chain is the index one
  past the last block. A freshly allocated block has indeterminate contents: \<open>ba_fresh\<close>, an
  arbitrary function of the byte's position in the buffer, is what the allocator left there, and
  every theorem holds for all of them.

  After the operations come the invariant, the abstraction to a flat byte string with a cursor,
  and the refinement lemmas.
\<close>

section \<open>Data\<close>

record node =
  node_ptr :: "u8 list"
  node_size :: nat

record byte_array =
  ba_base_size :: nat
  ba_position :: nat
  ba_capacity :: nat
  ba_size :: nat
  ba_endian :: endian
  ba_nodes :: "node list"
  ba_cur :: nat
  ba_fresh :: "nat \<Rightarrow> u8"

definition Node :: "(nat \<Rightarrow> u8) \<Rightarrow> nat \<Rightarrow> nat \<Rightarrow> node" where
  "Node fresh at s = \<lparr>node_ptr = map fresh [at..<at + s], node_size = s\<rparr>"

definition ByteArray :: "(nat \<Rightarrow> u8) \<Rightarrow> nat \<Rightarrow> byte_array" where
  "ByteArray fresh base_size =
     \<lparr>ba_base_size = base_size, ba_position = 0, ba_capacity = base_size, ba_size = 0,
      ba_endian = SYLAR_BIG_ENDIAN, ba_nodes = [Node fresh 0 base_size], ba_cur = 0,
      ba_fresh = fresh\<rparr>"

definition IsLittleEndian :: "byte_array \<Rightarrow> bool" where
  "IsLittleEndian ba \<longleftrightarrow> ba_endian ba = SYLAR_LITTLE_ENDIAN"

definition SetIsLittleEndian :: "byte_array \<Rightarrow> bool \<Rightarrow> byte_array" where
  "SetIsLittleEndian ba val =
     (if val then ba\<lparr>ba_endian := SYLAR_LITTLE_ENDIAN\<rparr> else ba\<lparr>ba_endian := SYLAR_BIG_ENDIAN\<rparr>)"

definition GetReadSize :: "byte_array \<Rightarrow> nat" where
  "GetReadSize ba = sub64 (ba_size ba) (ba_position ba)"

definition GetCapacity :: "byte_array \<Rightarrow> nat" where
  "GetCapacity ba = sub64 (ba_capacity ba) (ba_position ba)"

section \<open>Memory accesses\<close>

definition deref :: "node list \<Rightarrow> nat \<Rightarrow> node result" where
  "deref ns i = (if i < length ns then Inr (ns ! i) else Inl Null_Deref)"

text \<open>\<open>memcpy\<close> into a block at an offset, and out of a block.\<close>

definition memcpy_in :: "u8 list \<Rightarrow> nat \<Rightarrow> u8 list \<Rightarrow> u8 list result" where
  "memcpy_in p off xs =
     (if off + length xs \<le> length p then Inr (overwrite off xs p) else Inl Out_Of_Bounds)"

definition memcpy_out :: "u8 list \<Rightarrow> nat \<Rightarrow> nat \<Rightarrow> u8 list result" where
  "memcpy_out p off n = (if off + n \<le> length p then Inr (take n (drop off p)) else Inl Out_Of_Bounds)"

section \<open>Capacity\<close>

definition Clear :: "byte_array \<Rightarrow> byte_array" where
  "Clear ba = ba\<lparr>ba_position := 0, ba_size := 0, ba_capacity := ba_base_size ba,
                 ba_nodes := take 1 (ba_nodes ba), ba_cur := 0\<rparr>"

text \<open>\<open>ceil(1.0 * size / ba_base_size)\<close>, which is exact for sizes below \<open>2 ^ 53\<close>.\<close>

definition ceil_div :: "nat \<Rightarrow> nat \<Rightarrow> nat" where
  "ceil_div n k = (n + k - 1) div k"

fun append_nodes :: "nat \<Rightarrow> byte_array \<Rightarrow> byte_array" where
  "append_nodes 0 ba = ba"
| "append_nodes (Suc count) ba =
     append_nodes count
       (ba\<lparr>ba_nodes := ba_nodes ba @ [Node (ba_fresh ba) (ba_capacity ba) (ba_base_size ba)],
           ba_capacity := ba_capacity ba + ba_base_size ba\<rparr>)"

definition AddCapacity :: "byte_array \<Rightarrow> nat \<Rightarrow> byte_array result" where
  "AddCapacity ba sz =
     (if sz = 0 then Inr ba
      else let old_cap = GetCapacity ba in
        if old_cap \<ge> sz then Inr ba
        else if ba_base_size ba = 0 then Inl Div_By_Zero
        else let first = length (ba_nodes ba);
                 ba' = append_nodes (ceil_div (sz - old_cap) (ba_base_size ba)) ba
             in Inr (if old_cap = 0 then ba'\<lparr>ba_cur := first\<rparr> else ba'))"

section \<open>Writing and reading at the cursor\<close>

function write_loop ::
  "u8 list \<Rightarrow> byte_array \<Rightarrow> nat \<Rightarrow> nat \<Rightarrow> nat \<Rightarrow> nat \<Rightarrow> byte_array result" where
  "write_loop buf ba npos ncap bpos sz =
     (if sz = 0 then Inr ba
      else rbind (deref (ba_nodes ba) (ba_cur ba)) (\<lambda>n.
        if ncap \<ge> sz then
          rbind (memcpy_in (node_ptr n) npos (take sz (drop bpos buf))) (\<lambda>p.
          Inr (ba\<lparr>ba_nodes := (ba_nodes ba)[ba_cur ba := n\<lparr>node_ptr := p\<rparr>],
                  ba_cur := (if node_size n = npos + sz then Suc (ba_cur ba) else ba_cur ba),
                  ba_position := ba_position ba + sz\<rparr>))
        else
          rbind (memcpy_in (node_ptr n) npos (take ncap (drop bpos buf))) (\<lambda>p.
          let ba' = ba\<lparr>ba_nodes := (ba_nodes ba)[ba_cur ba := n\<lparr>node_ptr := p\<rparr>],
                       ba_position := ba_position ba + ncap, ba_cur := Suc (ba_cur ba)\<rparr> in
          rbind (deref (ba_nodes ba') (ba_cur ba')) (\<lambda>n'.
          write_loop buf ba' 0 (node_size n') (bpos + ncap) (sz - ncap)))))"
  by pat_completeness auto
termination
  by (relation "measure (\<lambda>(buf, ba, npos, ncap, bpos, sz). length (ba_nodes ba) - ba_cur ba)")
    (auto simp: deref_def split: if_splits)

definition ba_write :: "byte_array \<Rightarrow> u8 list \<Rightarrow> byte_array result" where
  "ba_write ba buf =
     (if length buf = 0 then Inr ba
      else rbind (AddCapacity ba (length buf)) (\<lambda>ba.
        if ba_base_size ba = 0 then Inl Div_By_Zero
        else let npos = ba_position ba mod ba_base_size ba in
          rbind (deref (ba_nodes ba) (ba_cur ba)) (\<lambda>n.
          rbind (write_loop buf ba npos (sub64 (node_size n) npos) 0 (length buf)) (\<lambda>ba.
          Inr (if ba_position ba > ba_size ba then ba\<lparr>ba_size := ba_position ba\<rparr> else ba)))))"

function read_loop ::
  "u8 list \<Rightarrow> byte_array \<Rightarrow> nat \<Rightarrow> nat \<Rightarrow> nat \<Rightarrow> (u8 list \<times> byte_array) result" where
  "read_loop out ba npos ncap sz =
     (if sz = 0 then Inr (out, ba)
      else rbind (deref (ba_nodes ba) (ba_cur ba)) (\<lambda>n.
        if ncap \<ge> sz then
          rbind (memcpy_out (node_ptr n) npos sz) (\<lambda>xs.
          Inr (out @ xs,
               ba\<lparr>ba_cur := (if node_size n = npos + sz then Suc (ba_cur ba) else ba_cur ba),
                  ba_position := ba_position ba + sz\<rparr>))
        else
          rbind (memcpy_out (node_ptr n) npos ncap) (\<lambda>xs.
          let ba' = ba\<lparr>ba_position := ba_position ba + ncap, ba_cur := Suc (ba_cur ba)\<rparr> in
          rbind (deref (ba_nodes ba') (ba_cur ba')) (\<lambda>n'.
          read_loop (out @ xs) ba' 0 (node_size n') (sz - ncap)))))"
  by pat_completeness auto
termination
  by (relation "measure (\<lambda>(out, ba, npos, ncap, sz). length (ba_nodes ba) - ba_cur ba)")
    (auto simp: deref_def split: if_splits)

definition ba_read :: "byte_array \<Rightarrow> nat \<Rightarrow> (u8 list \<times> byte_array) result" where
  "ba_read ba sz =
     (if sz > GetReadSize ba then Inl Out_Of_Range
      else if ba_base_size ba = 0 then Inl Div_By_Zero
      else let npos = ba_position ba mod ba_base_size ba in
        rbind (deref (ba_nodes ba) (ba_cur ba)) (\<lambda>n.
        read_loop [] ba npos (sub64 (node_size n) npos) sz))"

text \<open>
  The reading overload with an explicit position. It works on a copy of the cursor node, and the
  copy starts from \<open>ba_cur\<close>, not from the block of the given position.
\<close>

function read_at_loop ::
  "node list \<Rightarrow> u8 list \<Rightarrow> nat \<Rightarrow> nat \<Rightarrow> nat \<Rightarrow> nat \<Rightarrow> u8 list result" where
  "read_at_loop ns out cur npos ncap sz =
     (if sz = 0 then Inr out
      else rbind (deref ns cur) (\<lambda>n.
        if ncap \<ge> sz then
          rbind (memcpy_out (node_ptr n) npos sz) (\<lambda>xs. Inr (out @ xs))
        else
          rbind (memcpy_out (node_ptr n) npos ncap) (\<lambda>xs.
          rbind (deref ns (Suc cur)) (\<lambda>n'.
          read_at_loop ns (out @ xs) (Suc cur) 0 (node_size n') (sz - ncap)))))"
  by pat_completeness auto
termination
  by (relation "measure (\<lambda>(ns, out, cur, npos, ncap, sz). length ns - cur)")
    (auto simp: deref_def split: if_splits)

definition ba_read_at :: "byte_array \<Rightarrow> nat \<Rightarrow> nat \<Rightarrow> u8 list result" where
  "ba_read_at ba sz position =
     (if sz > sub64 (ba_size ba) position then Inl Out_Of_Range
      else if ba_base_size ba = 0 then Inl Div_By_Zero
      else let npos = position mod ba_base_size ba in
        rbind (deref (ba_nodes ba) (ba_cur ba)) (\<lambda>n.
        read_at_loop (ba_nodes ba) [] (ba_cur ba) npos (sub64 (node_size n) npos) sz))"

section \<open>Moving the cursor\<close>

function set_position_loop :: "node list \<Rightarrow> nat \<Rightarrow> nat \<Rightarrow> nat result" where
  "set_position_loop ns v cur =
     rbind (deref ns cur) (\<lambda>n.
     if v > node_size n then set_position_loop ns (v - node_size n) (Suc cur)
     else Inr (if v = node_size n then Suc cur else cur))"
  by pat_completeness auto
termination
  by (relation "measure (\<lambda>(ns, v, cur). length ns - cur)")
    (auto simp: deref_def split: if_splits)

definition SetPosition :: "byte_array \<Rightarrow> nat \<Rightarrow> byte_array result" where
  "SetPosition ba v =
     (if v > ba_capacity ba then Inl Out_Of_Range
      else let ba' = ba\<lparr>ba_position := v, ba_size := (if v > ba_size ba then v else ba_size ba)\<rparr> in
        rbind (set_position_loop (ba_nodes ba') v 0) (\<lambda>c. Inr (ba'\<lparr>ba_cur := c\<rparr>)))"

declare write_loop.simps [simp del] read_loop.simps [simp del]
  read_at_loop.simps [simp del] set_position_loop.simps [simp del]

section \<open>The invariant and the abstraction\<close>

definition nodes_ok :: "nat \<Rightarrow> node list \<Rightarrow> bool" where
  "nodes_ok k ns \<longleftrightarrow> (\<forall>n \<in> set ns. node_size n = k \<and> length (node_ptr n) = k)"

definition ba_mem :: "byte_array \<Rightarrow> u8 list" where
  "ba_mem ba = concat (map node_ptr (ba_nodes ba))"

text \<open>
  What every operation keeps: equal blocks that make up the capacity, a cursor inside the data,
  data inside the capacity, and \<open>cur_\<close> the block of the cursor (null exactly when the cursor is at
  the end of the last block).
\<close>

definition ba_ok :: "byte_array \<Rightarrow> bool" where
  "ba_ok ba \<longleftrightarrow>
     0 < ba_base_size ba \<and> ba_nodes ba \<noteq> [] \<and> nodes_ok (ba_base_size ba) (ba_nodes ba) \<and>
     ba_capacity ba = length (ba_nodes ba) * ba_base_size ba \<and>
     ba_position ba \<le> ba_size ba \<and> ba_size ba \<le> ba_capacity ba \<and>
     ba_cur ba = ba_position ba div ba_base_size ba"

text \<open>The abstract buffer: a byte string and a cursor.\<close>

record byte_string =
  bs_data :: "u8 list"
  bs_pos :: nat

definition contents :: "byte_array \<Rightarrow> u8 list" where
  "contents ba = take (ba_size ba) (ba_mem ba)"

definition ba_abs :: "byte_array \<Rightarrow> byte_string" where
  "ba_abs ba = \<lparr>bs_data = contents ba, bs_pos = ba_position ba\<rparr>"

definition bs_write :: "byte_string \<Rightarrow> u8 list \<Rightarrow> byte_string" where
  "bs_write s xs = \<lparr>bs_data = overwrite (bs_pos s) xs (bs_data s), bs_pos = bs_pos s + length xs\<rparr>"

definition bs_read :: "byte_string \<Rightarrow> nat \<Rightarrow> (u8 list \<times> byte_string) result" where
  "bs_read s n =
     (if bs_pos s + n \<le> length (bs_data s)
      then Inr (take n (drop (bs_pos s) (bs_data s)), s\<lparr>bs_pos := bs_pos s + n\<rparr>)
      else Inl Out_Of_Range)"

section \<open>Block lists\<close>

lemma nodes_ok_blocks: "nodes_ok k ns \<Longrightarrow> blocks_ok k (map node_ptr ns)"
  by (auto simp: nodes_ok_def blocks_ok_def)

lemma nodes_ok_nth:
  "nodes_ok k ns \<Longrightarrow> i < length ns \<Longrightarrow> node_size (ns ! i) = k \<and> length (node_ptr (ns ! i)) = k"
  by (simp add: nodes_ok_def)

lemma nodes_ok_append [simp]: "nodes_ok k (ns @ ms) \<longleftrightarrow> nodes_ok k ns \<and> nodes_ok k ms"
  by (auto simp: nodes_ok_def)

lemma nodes_ok_update:
  "nodes_ok k ns \<Longrightarrow> i < length ns \<Longrightarrow> length p = k \<Longrightarrow>
   nodes_ok k (ns[i := (ns ! i)\<lparr>node_ptr := p\<rparr>])"
  by (auto simp: nodes_ok_def dest!: set_update_subset_insert [THEN subsetD])

lemma deref_Inr [simp]: "i < length ns \<Longrightarrow> deref ns i = Inr (ns ! i)"
  by (simp add: deref_def)

lemma length_mem: "nodes_ok k ns \<Longrightarrow> length (concat (map node_ptr ns)) = length ns * k"
  using length_concat_blocks [OF nodes_ok_blocks] by fastforce

lemma length_ba_mem: "ba_ok ba \<Longrightarrow> length (ba_mem ba) = ba_capacity ba"
  by (simp add: ba_mem_def ba_ok_def length_mem [of "ba_base_size ba"])

text \<open>One copy into a block, seen in the flat memory.\<close>

lemma memcpy_in_block:
  assumes "nodes_ok k ns" "i < length ns" "off + length xs \<le> k"
  shows "\<exists>p. memcpy_in (node_ptr (ns ! i)) off xs = Inr p \<and>
     nodes_ok k (ns[i := (ns ! i)\<lparr>node_ptr := p\<rparr>]) \<and>
     concat (map node_ptr (ns[i := (ns ! i)\<lparr>node_ptr := p\<rparr>])) =
       overwrite (i * k + off) xs (concat (map node_ptr ns))"
proof -
  let ?p = "overwrite off xs (node_ptr (ns ! i))"
  have len: "length (node_ptr (ns ! i)) = k" using assms nodes_ok_nth by blast
  have "concat (map node_ptr (ns[i := (ns ! i)\<lparr>node_ptr := ?p\<rparr>])) =
      concat ((map node_ptr ns)[i := overwrite off xs (map node_ptr ns ! i)])"
    using assms(2) by (simp add: map_update)
  also have "\<dots> = overwrite (i * k + off) xs (concat (map node_ptr ns))"
    by (rule concat_update_block) (use assms nodes_ok_blocks in auto)
  finally show ?thesis
    using assms len by (auto simp: memcpy_in_def intro!: nodes_ok_update)
qed

lemma memcpy_out_block:
  assumes "nodes_ok k ns" "i < length ns" "off + n \<le> k"
  shows "memcpy_out (node_ptr (ns ! i)) off n =
     Inr (take n (drop (i * k + off) (concat (map node_ptr ns))))"
proof -
  have "take n (drop (i * k + off) (concat (map node_ptr ns))) =
      take n (drop off (map node_ptr ns ! i))"
    by (rule take_drop_block) (use assms nodes_ok_blocks in auto)
  then show ?thesis using assms by (simp add: memcpy_out_def nodes_ok_nth)
qed

text \<open>The block index after advancing inside a block or to its end.\<close>

lemma div_advance:
  fixes k :: nat
  assumes "npos + n \<le> k" "npos < k"
  shows "(c * k + npos + n) div k = (if k = npos + n then Suc c else c)"
proof (cases "k = npos + n")
  case True
  then have "c * k + npos + n = Suc c * k" by simp
  with True assms show ?thesis by (metis div_mult_self_is_m less_nat_zero_code neq0_conv)
next
  case False
  with assms have "npos + n < k" by simp
  then have "(c * k + (npos + n)) div k = c" by simp
  with False show ?thesis by (simp add: add.assoc)
qed

section \<open>Capacity\<close>

lemma nodes_ok_Node [simp]: "nodes_ok k [Node f a k]"
  by (simp add: nodes_ok_def Node_def)

lemma append_nodes_fields [simp]:
  "ba_base_size (append_nodes c ba) = ba_base_size ba"
  "ba_position (append_nodes c ba) = ba_position ba"
  "ba_size (append_nodes c ba) = ba_size ba"
  "ba_endian (append_nodes c ba) = ba_endian ba"
  "ba_cur (append_nodes c ba) = ba_cur ba"
  "ba_fresh (append_nodes c ba) = ba_fresh ba"
  "ba_capacity (append_nodes c ba) = ba_capacity ba + c * ba_base_size ba"
  by (induction c arbitrary: ba) simp_all

lemma append_nodes_nodes:
  "nodes_ok (ba_base_size ba) (ba_nodes ba) \<Longrightarrow>
   \<exists>ms. ba_nodes (append_nodes c ba) = ba_nodes ba @ ms \<and> length ms = c \<and>
        nodes_ok (ba_base_size ba) ms"
proof (induction c arbitrary: ba)
  case 0
  then show ?case by (simp add: nodes_ok_def)
next
  case (Suc c)
  let ?ba = "ba\<lparr>ba_nodes := ba_nodes ba @ [Node (ba_fresh ba) (ba_capacity ba) (ba_base_size ba)],
                ba_capacity := ba_capacity ba + ba_base_size ba\<rparr>"
  have "nodes_ok (ba_base_size ?ba) (ba_nodes ?ba)" using Suc.prems by simp
  from Suc.IH [OF this] show ?case by (auto simp: nodes_ok_def Node_def)
qed

lemma ceil_div_bounds: "0 < k \<Longrightarrow> n \<le> ceil_div n k * k"
proof -
  assume "0 < k"
  then have "(n + k - 1) mod k < k" by simp
  then have "n + k - 1 < (n + k - 1) div k * k + k"
    using div_mult_mod_eq [of "n + k - 1" k] by linarith
  with \<open>0 < k\<close> show ?thesis unfolding ceil_div_def by linarith
qed

text \<open>
  Growing keeps the invariant, the cursor and the contents, and makes room for the bytes asked
  for at the cursor.
\<close>

lemma AddCapacity_ok:
  assumes ok: "ba_ok ba"
  shows "\<exists>ba'. AddCapacity ba n = Inr ba' \<and> ba_ok ba' \<and> ba_abs ba' = ba_abs ba \<and>
     ba_endian ba' = ba_endian ba \<and> ba_base_size ba' = ba_base_size ba \<and>
     ba_size ba' = ba_size ba \<and> ba_position ba + n \<le> ba_capacity ba'"
proof (cases "n = 0 \<or> n \<le> GetCapacity ba")
  case True
  with ok show ?thesis by (auto simp: AddCapacity_def GetCapacity_def ba_ok_def)
next
  case False
  let ?k = "ba_base_size ba" and ?old = "GetCapacity ba"
  define c where "c = ceil_div (n - ?old) ?k"
  let ?a = "append_nodes c ba"
  have old: "?old = ba_capacity ba - ba_position ba"
    using ok by (simp add: GetCapacity_def ba_ok_def)
  obtain ms where ms: "ba_nodes ?a = ba_nodes ba @ ms" "length ms = c" "nodes_ok ?k ms"
    using append_nodes_nodes ok unfolding ba_ok_def by blast
  have bound: "n - ?old \<le> c * ?k"
    using ok by (simp add: ceil_div_bounds ba_ok_def c_def)
  have at_end: "?old = 0 \<Longrightarrow> length (ba_nodes ba) = ba_position ba div ?k"
  proof -
    assume "?old = 0"
    with ok old have "ba_position ba = length (ba_nodes ba) * ?k" by (simp add: ba_ok_def)
    with ok show ?thesis by (simp add: ba_ok_def)
  qed
  let ?b = "if ?old = 0 then ?a\<lparr>ba_cur := length (ba_nodes ba)\<rparr> else ?a"
  have "AddCapacity ba n = Inr ?b"
    using False ok by (auto simp: AddCapacity_def Let_def ba_ok_def c_def)
  moreover have "ba_ok ?b"
    using ok ms at_end unfolding ba_ok_def by (auto simp: add_mult_distrib)
  moreover have "ba_abs ?b = ba_abs ba"
  proof -
    have "ba_size ba \<le> length (ba_mem ba)"
      using ok by (simp add: length_ba_mem) (simp add: ba_ok_def)
    then show ?thesis using ms by (simp add: ba_abs_def contents_def ba_mem_def)
  qed
  moreover have "ba_position ba + n \<le> ba_capacity ?b"
    using bound old ok by (auto simp: ba_ok_def)
  ultimately show ?thesis by (intro exI [of _ ?b]) auto
qed

section \<open>Writing\<close>

text \<open>What a stretch of writing does: the bytes are in memory from an address on, and the cursor is behind them.\<close>

definition wrote :: "nat \<Rightarrow> nat \<Rightarrow> u8 list \<Rightarrow> byte_array \<Rightarrow> byte_array \<Rightarrow> bool" where
  "wrote k a bs ba ba' \<longleftrightarrow> (\<exists>ns. nodes_ok k ns \<and> length ns = length (ba_nodes ba) \<and>
     concat (map node_ptr ns) = overwrite a bs (ba_mem ba) \<and>
     ba' = ba\<lparr>ba_nodes := ns, ba_cur := (a + length bs) div k, ba_position := ba_position ba + length bs\<rparr>)"

lemma wrote_trans:
  assumes "wrote k a bs ba b" "wrote k (a + length bs) cs b c" "a + length bs \<le> length (ba_mem ba)"
  shows "wrote k a (bs @ cs) ba c"
proof -
  obtain ns where b: "length ns = length (ba_nodes ba)" "concat (map node_ptr ns) = overwrite a bs (ba_mem ba)"
      "b = ba\<lparr>ba_nodes := ns, ba_cur := (a + length bs) div k, ba_position := ba_position ba + length bs\<rparr>"
    using assms(1) unfolding wrote_def by blast
  then have "ba_mem b = overwrite a bs (ba_mem ba)" by (simp add: ba_mem_def)
  with assms(2,3) b(1,3) overwrite_overwrite [of a bs] show ?thesis
    unfolding wrote_def by (auto simp: add.assoc)
qed

lemma write_block:
  assumes "nodes_ok k (ba_nodes ba)" "ba_cur ba < length (ba_nodes ba)" "npos + length bs \<le> k"
  shows "\<exists>p. memcpy_in (node_ptr (ba_nodes ba ! ba_cur ba)) npos bs = Inr p \<and>
    wrote k (ba_cur ba * k + npos) bs ba (ba\<lparr>ba_nodes := (ba_nodes ba)[ba_cur ba := (ba_nodes ba ! ba_cur ba)\<lparr>node_ptr := p\<rparr>],
      ba_cur := (ba_cur ba * k + npos + length bs) div k, ba_position := ba_position ba + length bs\<rparr>)"
  using memcpy_in_block [OF assms] unfolding wrote_def ba_mem_def by (fastforce simp: length_list_update)

lemma wrote_nodes:
  "wrote k a bs ba b \<Longrightarrow> nodes_ok k (ba_nodes b) \<and> length (ba_nodes b) = length (ba_nodes ba)"
  by (auto simp: wrote_def)

lemma next_block:
  fixes k :: nat
  assumes "i * k + npos + sz \<le> n * k" "k - npos < sz" "npos < k"
  shows "Suc i < n"
proof -
  have "Suc i * k < n * k" using assms by simp
  then show ?thesis using mult_less_cancel2 by blast
qed

lemma write_loop_ok:
  assumes "nodes_ok k (ba_nodes ba)" "ba_cur ba < length (ba_nodes ba)" "npos < k"
    and "0 < sz" "bpos + sz \<le> length buf"
    and "ba_cur ba * k + npos + sz \<le> length (ba_nodes ba) * k" "ncap = k - npos"
  shows "\<exists>b. write_loop buf ba npos ncap bpos sz = Inr b \<and> wrote k (ba_cur ba * k + npos) (take sz (drop bpos buf)) ba b"
  using assms
proof (induction buf ba npos ncap bpos sz rule: write_loop.induct)
  case (1 buf ba npos ncap bpos sz)
  note prems = "1.prems"
  let ?ns = "ba_nodes ba" and ?i = "ba_cur ba" and ?bs = "take (min sz ncap) (drop bpos buf)"
  have nsz: "node_size (?ns ! ?i) = k" using prems nodes_ok_nth by blast
  have bs: "length ?bs = min sz ncap" "npos + length ?bs \<le> k" using prems by simp_all
  obtain p where p: "memcpy_in (node_ptr (?ns ! ?i)) npos ?bs = Inr p"
      "wrote k (?i * k + npos) ?bs ba (ba\<lparr>ba_nodes := ?ns[?i := (?ns ! ?i)\<lparr>node_ptr := p\<rparr>],
         ba_cur := (?i * k + npos + length ?bs) div k, ba_position := ba_position ba + length ?bs\<rparr>)"
    using write_block [OF prems(1,2) bs(2)] by blast
  have cur: "(?i * k + npos + length ?bs) div k = (if k = npos + length ?bs then Suc ?i else ?i)"
    by (rule div_advance) (use prems bs in auto)
  show ?case
  proof (cases "sz \<le> ncap")
    case True
    with p prems nsz bs show ?thesis unfolding cur by (subst write_loop.simps) (simp add: min_absorb1)
  next
    case False
    let ?b = "ba\<lparr>ba_nodes := ?ns[?i := (?ns ! ?i)\<lparr>node_ptr := p\<rparr>], ba_position := ba_position ba + ncap, ba_cur := Suc ?i\<rparr>"
    have n: "min sz ncap = ncap" "length ?bs = ncap" using False bs by simp_all
    have w: "wrote k (?i * k + npos) ?bs ba ?b"
      by (rule back_subst [where P = "wrote k (?i * k + npos) ?bs ba", OF p(2)], rule byte_array.equality) (use cur n prems in auto)
    have next_: "Suc ?i < length ?ns" by (rule next_block [of _ k npos sz]) (use prems False in auto)
    then have "node_size (ba_nodes ?b ! Suc ?i) = k" using nodes_ok_nth [of k "ba_nodes ?b" "Suc ?i"] wrote_nodes [OF w] by simp
    moreover from this have "\<exists>c. write_loop buf ?b 0 (node_size (ba_nodes ?b ! Suc ?i)) (bpos + ncap) (sz - ncap) = Inr c \<and>
        wrote k (ba_cur ?b * k + 0) (take (sz - ncap) (drop (bpos + ncap) buf)) ?b c"
      by (intro "1.IH" [of "?ns ! ?i" p ?b]) (use False prems p(1) n next_ wrote_nodes [OF w] in auto)
    moreover have "ba_cur ?b * k + 0 = ?i * k + npos + length ?bs" using n prems by simp
    ultimately obtain c where c: "write_loop buf ?b 0 k (bpos + ncap) (sz - ncap) = Inr c"
        "wrote k (?i * k + npos + length ?bs) (take (sz - ncap) (drop (bpos + ncap) buf)) ?b c" by metis
    have "write_loop buf ba npos ncap bpos sz = Inr c"
      using False p(1) n prems next_ c(1) \<open>node_size (ba_nodes ?b ! Suc ?i) = k\<close> by (subst write_loop.simps) simp
    moreover have "take sz (drop bpos buf) = ?bs @ take (sz - ncap) (drop (bpos + ncap) buf)"
      using False n take_drop_split [of ncap sz bpos buf] by simp
    moreover have "?i * k + npos + length ?bs \<le> length (ba_mem ba)"
      using prems n False by (simp add: ba_mem_def length_mem [of k])
    ultimately show ?thesis using wrote_trans [OF w c(2)] by simp
  qed
qed

lemma ba_ok_cursor:
  assumes "ba_ok ba"
  shows "ba_cur ba * ba_base_size ba + ba_position ba mod ba_base_size ba = ba_position ba"
    and "ba_cur ba < length (ba_nodes ba) \<longleftrightarrow> ba_position ba < ba_capacity ba"
    and "ba_position ba mod ba_base_size ba < ba_base_size ba"
  using assms by (auto simp: ba_ok_def div_less_iff_less_mult)

text \<open>Writing at the cursor implements overwriting (and extending) the byte string there.\<close>

lemma wrote_abs:
  assumes "ba_ok ba" "wrote (ba_base_size ba) (ba_position ba) bs ba b" "ba_position ba + length bs \<le> ba_capacity ba"
  defines "c \<equiv> b\<lparr>ba_size := max (ba_size ba) (ba_position ba + length bs)\<rparr>"
  shows "ba_ok c \<and> ba_abs c = bs_write (ba_abs ba) bs"
proof -
  obtain ns where ns: "nodes_ok (ba_base_size ba) ns" "length ns = length (ba_nodes ba)"
      "concat (map node_ptr ns) = overwrite (ba_position ba) bs (ba_mem ba)"
      "b = ba\<lparr>ba_nodes := ns, ba_cur := (ba_position ba + length bs) div ba_base_size ba, ba_position := ba_position ba + length bs\<rparr>"
    using assms(2) unfolding wrote_def by blast
  have "take (max (ba_size ba) (ba_position ba + length bs)) (overwrite (ba_position ba) bs (ba_mem ba)) =
      overwrite (ba_position ba) bs (take (ba_size ba) (ba_mem ba))"
    using assms(1,3) length_ba_mem [OF assms(1)] unfolding ba_ok_def by (intro take_overwrite) auto
  with ns assms(1,3) show ?thesis
    by (auto simp: c_def ba_ok_def ba_abs_def bs_write_def contents_def ba_mem_def)
qed

lemma ba_write_ok:
  assumes ok: "ba_ok ba"
  shows "\<exists>ba'. ba_write ba buf = Inr ba' \<and> ba_ok ba' \<and> ba_abs ba' = bs_write (ba_abs ba) buf \<and>
     ba_endian ba' = ba_endian ba \<and> ba_base_size ba' = ba_base_size ba"
proof (cases "buf = []")
  case True
  with ok show ?thesis by (simp add: ba_write_def bs_write_def ba_abs_def)
next
  case False
  let ?n = "length buf" and ?k = "ba_base_size ba"
  from AddCapacity_ok [OF ok, of ?n] obtain b where
    b: "AddCapacity ba ?n = Inr b" "ba_ok b" "ba_abs b = ba_abs ba" "ba_endian b = ba_endian ba"
      "ba_base_size b = ?k" "ba_size b = ba_size ba" "ba_position ba + ?n \<le> ba_capacity b"
    by blast
  have k: "0 < ?k" using ok by (simp add: ba_ok_def)
  have pos: "ba_position b = ba_position ba" using b(3) by (simp add: ba_abs_def)
  have cur: "ba_cur b < length (ba_nodes b)"
    using ba_ok_cursor(2) [OF b(2)] b(7) pos False by (cases buf) auto
  have nsz: "node_size (ba_nodes b ! ba_cur b) = ?k"
    using b(2,5) cur nodes_ok_nth unfolding ba_ok_def by metis
  have addr: "ba_cur b * ?k + ba_position b mod ?k = ba_position b"
    using ba_ok_cursor(1) [OF b(2)] b(5) by simp
  have "\<exists>c. write_loop buf b (ba_position b mod ?k) (?k - ba_position b mod ?k) 0 ?n = Inr c \<and>
      wrote ?k (ba_cur b * ?k + ba_position b mod ?k) (take ?n (drop 0 buf)) b c"
    by (rule write_loop_ok) (use b cur False addr pos k in \<open>auto simp: ba_ok_def\<close>)
  then obtain c where c: "write_loop buf b (ba_position b mod ?k) (?k - ba_position b mod ?k) 0 ?n = Inr c"
      "wrote ?k (ba_position b) buf b c" unfolding addr by auto
  let ?c = "c\<lparr>ba_size := max (ba_size b) (ba_position b + ?n)\<rparr>"
  have fields: "ba_size c = ba_size b" "ba_position c = ba_position b + ?n" "ba_endian c = ba_endian b" "ba_base_size c = ?k"
    using c(2) b(5) by (auto simp: wrote_def)
  then have "ba_write ba buf = Inr ?c"
    using False b(1,5) cur nsz c(1) k by (auto simp: ba_write_def Let_def max_def intro!: byte_array.equality)
  then show ?thesis
    using wrote_abs [OF b(2), of buf c] b c(2) fields pos by auto
qed

section \<open>Reading\<close>

lemma read_loop_ok:
  assumes "0 < k" "nodes_ok k (ba_nodes ba)" "ba_cur ba < length (ba_nodes ba)" "npos < k"
    and "0 < sz" "ba_cur ba * k + npos + sz \<le> length (ba_nodes ba) * k" "ncap = k - npos"
  shows "read_loop out ba npos ncap sz =
     Inr (out @ take sz (drop (ba_cur ba * k + npos) (ba_mem ba)),
          ba\<lparr>ba_cur := (ba_cur ba * k + npos + sz) div k, ba_position := ba_position ba + sz\<rparr>)"
  using assms
proof (induction out ba npos ncap sz rule: read_loop.induct)
  case (1 out ba npos ncap sz)
  note prems = "1.prems"
  let ?ns = "ba_nodes ba" and ?i = "ba_cur ba" and ?n = "min sz ncap"
  have nsz: "node_size (?ns ! ?i) = k" using prems nodes_ok_nth by blast
  have out: "memcpy_out (node_ptr (?ns ! ?i)) npos ?n =
      Inr (take ?n (drop (?i * k + npos) (ba_mem ba)))"
    unfolding ba_mem_def by (rule memcpy_out_block) (use prems in auto)
  show ?case
  proof (cases "sz \<le> ncap")
    case True
    have "(?i * k + npos + sz) div k = (if k = npos + sz then Suc ?i else ?i)"
      by (rule div_advance) (use True prems in auto)
    then show ?thesis
      using True out prems nsz by (subst read_loop.simps) (auto simp: min_absorb1)
  next
    case False
    let ?b = "ba\<lparr>ba_position := ba_position ba + ncap, ba_cur := Suc ?i\<rparr>"
    let ?xs = "take ncap (drop (?i * k + npos) (ba_mem ba))"
    have next_: "Suc ?i < length ?ns" by (rule next_block [of _ k npos sz]) (use prems False in auto)
    have nsz': "node_size (ba_nodes ?b ! Suc ?i) = k"
      using prems next_ nodes_ok_nth [of k "ba_nodes ?b" "Suc ?i"] by simp
    have e1: "ba_cur ?b * k + 0 + (sz - ncap) = ?i * k + npos + sz" using prems False by simp
    have e2: "ba_cur ?b * k + 0 = ?i * k + npos + ncap" using prems by simp
    have e3: "ba_position ?b + (sz - ncap) = ba_position ba + sz" using False by simp
    have "read_loop out ba npos ncap sz = read_loop (out @ ?xs) ?b 0 k (sz - ncap)"
      using False out prems next_ nsz' by (subst read_loop.simps) (simp add: min_absorb2)
    also have "\<dots> = Inr ((out @ ?xs) @ take (sz - ncap) (drop (ba_cur ?b * k + 0) (ba_mem ?b)),
        ?b\<lparr>ba_cur := (ba_cur ?b * k + 0 + (sz - ncap)) div k,
           ba_position := ba_position ?b + (sz - ncap)\<rparr>)"
      using "1.IH" [of "?ns ! ?i" ?xs ?b "ba_nodes ?b ! Suc ?i"] False out prems next_ nsz'
      by (simp add: min_absorb2)
    also have "ba_mem ?b = ba_mem ba" by (simp add: ba_mem_def)
    also have "(out @ ?xs) @ take (sz - ncap) (drop (ba_cur ?b * k + 0) (ba_mem ba)) =
        out @ take sz (drop (?i * k + npos) (ba_mem ba))"
      unfolding e2 using False take_drop_split [of ncap sz "?i * k + npos" "ba_mem ba"] by simp
    finally show ?thesis unfolding e1 e3 by simp
  qed
qed

lemma take_drop_contents:
  "p + n \<le> ba_size ba \<Longrightarrow> take n (drop p (ba_mem ba)) = take n (drop p (contents ba))"
  by (simp add: contents_def take_drop min_def)

text \<open>Reading at the cursor, on every branch.\<close>

lemma ba_read_ok:
  assumes ok: "ba_ok ba" and len: "ba_position ba + n \<le> ba_size ba"
    and cur: "0 < n \<or> ba_position ba < ba_capacity ba"
  shows "ba_read ba n =
     Inr (take n (drop (ba_position ba) (contents ba)),
          ba\<lparr>ba_cur := (ba_position ba + n) div ba_base_size ba, ba_position := ba_position ba + n\<rparr>)"
proof -
  let ?k = "ba_base_size ba" and ?p = "ba_position ba"
  have c: "ba_cur ba < length (ba_nodes ba)"
    using ba_ok_cursor(2) [OF ok] cur len ok by (auto simp: ba_ok_def)
  have nsz: "node_size (ba_nodes ba ! ba_cur ba) = ?k"
    using ok c nodes_ok_nth unfolding ba_ok_def by metis
  have unfold: "ba_read ba n = read_loop [] ba (?p mod ?k) (?k - ?p mod ?k) n"
    using ok len c nsz ba_ok_cursor(3) [OF ok]
    by (auto simp: ba_read_def GetReadSize_def ba_ok_def Let_def)
  show ?thesis
  proof (cases "n = 0")
    case True
    with ok unfold show ?thesis
      by (subst (asm) read_loop.simps) (auto simp: ba_ok_def intro!: byte_array.equality)
  next
    case False
    have "read_loop [] ba (?p mod ?k) (?k - ?p mod ?k) n =
       Inr ([] @ take n (drop (ba_cur ba * ?k + ?p mod ?k) (ba_mem ba)),
            ba\<lparr>ba_cur := (ba_cur ba * ?k + ?p mod ?k + n) div ?k, ba_position := ?p + n\<rparr>)"
      by (rule read_loop_ok) (use ok len c False ba_ok_cursor [OF ok] in \<open>auto simp: ba_ok_def\<close>)
    then show ?thesis
      unfolding unfold ba_ok_cursor(1) [OF ok] using take_drop_contents [OF len] by simp
  qed
qed

lemma ba_read_short:
  "ba_ok ba \<Longrightarrow> ba_size ba < ba_position ba + n \<Longrightarrow> ba_read ba n = Inl Out_Of_Range"
  by (auto simp: ba_read_def GetReadSize_def ba_ok_def)

lemma ba_read_null:
  "ba_ok ba \<Longrightarrow> ba_position ba = ba_capacity ba \<Longrightarrow> ba_read ba 0 = Inl Null_Deref"
  by (auto simp: ba_read_def ba_ok_def deref_def)

lemma ba_read_keeps_ok:
  "ba_ok ba \<Longrightarrow> ba_position ba + n \<le> ba_size ba \<Longrightarrow>
   ba_ok (ba\<lparr>ba_cur := (ba_position ba + n) div ba_base_size ba, ba_position := ba_position ba + n\<rparr>)"
  by (auto simp: ba_ok_def)

lemma read_at_loop_ok:
  assumes "0 < k" "nodes_ok k ns" "cur < length ns" "npos < k" "0 < sz"
    and "cur * k + npos + sz \<le> length ns * k" "ncap = k - npos"
  shows "read_at_loop ns out cur npos ncap sz =
     Inr (out @ take sz (drop (cur * k + npos) (concat (map node_ptr ns))))"
  using assms
proof (induction ns out cur npos ncap sz rule: read_at_loop.induct)
  case (1 ns out cur npos ncap sz)
  note prems = "1.prems"
  let ?mem = "concat (map node_ptr ns)" and ?n = "min sz ncap"
  have out: "memcpy_out (node_ptr (ns ! cur)) npos ?n = Inr (take ?n (drop (cur * k + npos) ?mem))"
    by (rule memcpy_out_block) (use prems in auto)
  show ?case
  proof (cases "sz \<le> ncap")
    case True
    then show ?thesis using out prems by (subst read_at_loop.simps) (auto simp: min_absorb1)
  next
    case False
    let ?xs = "take ncap (drop (cur * k + npos) ?mem)"
    have next_: "Suc cur < length ns" by (rule next_block [of _ k npos sz]) (use prems False in auto)
    have nsz: "node_size (ns ! Suc cur) = k" using prems next_ nodes_ok_nth by blast
    have e: "Suc cur * k + 0 = cur * k + npos + ncap" using prems by simp
    have "read_at_loop ns out cur npos ncap sz = read_at_loop ns (out @ ?xs) (Suc cur) 0 k (sz - ncap)"
      using False out prems next_ nsz by (subst read_at_loop.simps) (simp add: min_absorb2)
    also have "\<dots> = Inr ((out @ ?xs) @ take (sz - ncap) (drop (Suc cur * k + 0) ?mem))"
      using "1.IH" [of "ns ! cur" ?xs "ns ! Suc cur"] False out prems next_ nsz
      by (simp add: min_absorb2)
    finally show ?thesis
      unfolding e using False take_drop_split [of ncap sz "cur * k + npos" ?mem] by simp
  qed
qed

text \<open>
  The overload with an explicit position reads from the block of the \<^emph>\<open>cursor\<close>, at the given
  position's offset inside a block. It is right when the given position lies in the cursor's block.
\<close>

lemma ba_read_at_actual:
  assumes ok: "ba_ok ba" and len: "p + n \<le> ba_size ba" and c: "ba_position ba < ba_capacity ba"
    and fit: "ba_cur ba * ba_base_size ba + p mod ba_base_size ba + n \<le> ba_capacity ba"
  shows "ba_read_at ba n p =
     Inr (take n (drop (ba_cur ba * ba_base_size ba + p mod ba_base_size ba) (ba_mem ba)))"
proof -
  let ?k = "ba_base_size ba"
  have k: "0 < ?k" and c': "ba_cur ba < length (ba_nodes ba)"
    using ok c ba_ok_cursor(2) by (auto simp: ba_ok_def)
  have nsz: "node_size (ba_nodes ba ! ba_cur ba) = ?k"
    using ok c' nodes_ok_nth unfolding ba_ok_def by metis
  have unfold: "ba_read_at ba n p = read_at_loop (ba_nodes ba) [] (ba_cur ba) (p mod ?k) (?k - p mod ?k) n"
    using len c' nsz k mod_less_divisor [OF k, of p] by (auto simp: ba_read_at_def Let_def)
  show ?thesis
  proof (cases "n = 0")
    case True
    with unfold show ?thesis by (simp add: read_at_loop.simps)
  next
    case False
    then show ?thesis
      unfolding unfold ba_mem_def
      by (subst read_at_loop_ok [where k = ?k]) (use ok c' k fit in \<open>auto simp: ba_ok_def\<close>)
  qed
qed

lemma ba_read_at_ok:
  assumes ok: "ba_ok ba" and len: "p + n \<le> ba_size ba" and c: "ba_position ba < ba_capacity ba"
    and block: "p div ba_base_size ba = ba_cur ba"
  shows "ba_read_at ba n p = Inr (take n (drop p (contents ba)))"
proof -
  have addr: "ba_cur ba * ba_base_size ba + p mod ba_base_size ba = p"
    using block div_mult_mod_eq by metis
  show ?thesis
    using ba_read_at_actual [OF ok len c] ok len take_drop_contents [OF len]
    unfolding addr by (simp add: ba_ok_def)
qed

section \<open>Moving the cursor\<close>

lemma set_position_loop_ok:
  assumes "0 < k" "nodes_ok k ns" "cur < length ns" "v \<le> (length ns - cur) * k"
  shows "set_position_loop ns v cur = Inr (cur + v div k)"
  using assms
proof (induction ns v cur rule: set_position_loop.induct)
  case (1 ns v cur)
  have nsz: "node_size (ns ! cur) = k" using "1.prems" nodes_ok_nth by blast
  show ?case
  proof (cases "v > k")
    case True
    have "k < (length ns - cur) * k" using True "1.prems" by linarith
    then have next_: "Suc cur < length ns" by (cases "length ns - cur = 1") auto
    moreover have "v - k \<le> (length ns - Suc cur) * k"
      using "1.prems" True by (simp add: diff_mult_distrib)
    ultimately have "set_position_loop ns (v - k) (Suc cur) = Inr (Suc cur + (v - k) div k)"
      using "1.IH" [of "ns ! cur"] "1.prems" True nsz by simp
    with True nsz "1.prems" show ?thesis
      by (subst set_position_loop.simps) (simp add: le_div_geq)
  next
    case False
    with nsz "1.prems" show ?thesis
      by (subst set_position_loop.simps) auto
  qed
qed

lemma SetPosition_ok:
  assumes ok: "ba_ok ba" and v: "v \<le> ba_capacity ba"
  shows "SetPosition ba v =
     Inr (ba\<lparr>ba_position := v, ba_size := max v (ba_size ba), ba_cur := v div ba_base_size ba\<rparr>)"
proof -
  have "set_position_loop (ba_nodes ba) v 0 = Inr (0 + v div ba_base_size ba)"
    by (rule set_position_loop_ok) (use ok v in \<open>auto simp: ba_ok_def\<close>)
  with v show ?thesis by (auto simp: SetPosition_def Let_def max_def)
qed

lemma SetPosition_keeps_ok: "ba_ok ba \<Longrightarrow> SetPosition ba v = Inr ba' \<Longrightarrow> ba_ok ba'"
  by (cases "v \<le> ba_capacity ba") (auto simp: SetPosition_ok, auto simp: SetPosition_def ba_ok_def)

lemma ByteArray_ok: "0 < k \<Longrightarrow> ba_ok (ByteArray f k)"
  by (simp add: ba_ok_def ByteArray_def)

lemma Clear_ok: "ba_ok ba \<Longrightarrow> ba_ok (Clear ba)"
  by (auto simp: ba_ok_def Clear_def nodes_ok_def neq_Nil_conv)

section \<open>The interface the serialisers rely on\<close>

text \<open>
  What a client of the buffer may assume: writing, reading and seeking act on the abstract byte
  string, and leave the byte order (\<open>mode\<close>) alone.
\<close>

locale byte_store =
  fixes wr :: "'s \<Rightarrow> u8 list \<Rightarrow> 's result"
    and rd :: "'s \<Rightarrow> nat \<Rightarrow> (u8 list \<times> 's) result"
    and seek :: "'s \<Rightarrow> nat \<Rightarrow> 's result"
    and view :: "'s \<Rightarrow> byte_string"
    and inv :: "'s \<Rightarrow> bool"
    and mode :: "'s \<Rightarrow> 'm"
  assumes wr: "inv s \<Longrightarrow> \<exists>s'. wr s xs = Inr s' \<and> inv s' \<and> mode s' = mode s \<and> view s' = bs_write (view s) xs"
    and rd: "inv s \<Longrightarrow> 0 < n \<Longrightarrow> bs_read (view s) n = Inr (xs, t) \<Longrightarrow>
       \<exists>s'. rd s n = Inr (xs, s') \<and> inv s' \<and> mode s' = mode s \<and> view s' = t"
    and rd_short: "inv s \<Longrightarrow> bs_read (view s) n = Inl e \<Longrightarrow> rd s n = Inl e"
    and seek: "inv s \<Longrightarrow> v \<le> length (bs_data (view s)) \<Longrightarrow>
       \<exists>s'. seek s v = Inr s' \<and> inv s' \<and> mode s' = mode s \<and> view s' = (view s)\<lparr>bs_pos := v\<rparr>"
    and pos_in_data: "inv s \<Longrightarrow> bs_pos (view s) \<le> length (bs_data (view s))"
begin

lemma rd_prefix:
  assumes "inv s" "drop (bs_pos (view s)) (bs_data (view s)) = xs @ rest" "xs \<noteq> []"
  shows "\<exists>s'. rd s (length xs) = Inr (xs, s') \<and> inv s' \<and> mode s' = mode s \<and>
     view s' = (view s)\<lparr>bs_pos := bs_pos (view s) + length xs\<rparr>"
proof -
  have "length (bs_data (view s)) - bs_pos (view s) = length xs + length rest"
    using arg_cong [OF assms(2), of length] by simp
  then have "bs_read (view s) (length xs) =
      Inr (xs, (view s)\<lparr>bs_pos := bs_pos (view s) + length xs\<rparr>)"
    using assms(2) pos_in_data [OF assms(1)] by (auto simp: bs_read_def)
  with rd [OF assms(1)] assms(3) show ?thesis by blast
qed

lemma wr_then_rd:
  assumes "inv s" "xs \<noteq> []"
  shows "\<exists>s1 s2 s3. wr s xs = Inr s1 \<and> seek s1 (bs_pos (view s)) = Inr s2 \<and>
     rd s2 (length xs) = Inr (xs, s3) \<and> view s3 = view s1"
proof -
  obtain s1 where s1: "wr s xs = Inr s1" "inv s1" "view s1 = bs_write (view s) xs"
    using wr [OF assms(1)] by blast
  have "bs_pos (view s) \<le> length (bs_data (view s1))"
    using s1(3) pos_in_data [OF assms(1)] by (simp add: bs_write_def overwrite_def)
  then obtain s2 where s2: "seek s1 (bs_pos (view s)) = Inr s2" "inv s2"
      "view s2 = (view s1)\<lparr>bs_pos := bs_pos (view s)\<rparr>"
    using seek [OF s1(2)] by blast
  have "drop (bs_pos (view s2)) (bs_data (view s2)) =
      xs @ drop (bs_pos (view s) + length xs) (bs_data (view s))"
    using s1(3) s2(3) pos_in_data [OF assms(1)] by (simp add: bs_write_def overwrite_def)
  from rd_prefix [OF s2(2) this assms(2)] obtain s3 where
    "rd s2 (length xs) = Inr (xs, s3)" "view s3 = (view s2)\<lparr>bs_pos := bs_pos (view s2) + length xs\<rparr>"
    by blast
  with s1 s2 show ?thesis by (auto simp: bs_write_def)
qed

end

lemma length_contents: "ba_ok ba \<Longrightarrow> length (contents ba) = ba_size ba"
  by (simp add: contents_def length_ba_mem) (simp add: ba_ok_def)

lemma ba_abs_simps [simp]:
  "bs_data (ba_abs ba) = contents ba" "bs_pos (ba_abs ba) = ba_position ba"
  by (simp_all add: ba_abs_def)

lemma contents_cursor [simp]:
  "contents (ba\<lparr>ba_cur := c, ba_position := p\<rparr>) = contents ba"
  by (simp add: contents_def ba_mem_def)

interpretation ba: byte_store ba_write ba_read SetPosition ba_abs ba_ok ba_endian
proof unfold_locales
  fix s xs assume "ba_ok s"
  then show "\<exists>s'. ba_write s xs = Inr s' \<and> ba_ok s' \<and> ba_endian s' = ba_endian s \<and>
      ba_abs s' = bs_write (ba_abs s) xs"
    using ba_write_ok by blast
next
  fix s n xs t assume s: "ba_ok s" "0 < (n::nat)" "bs_read (ba_abs s) n = Inr (xs, t)"
  then have len: "ba_position s + n \<le> ba_size s"
    by (auto simp: bs_read_def length_contents split: if_splits)
  from s ba_read_ok [OF s(1) len] ba_read_keeps_ok [OF s(1) len]
  show "\<exists>s'. ba_read s n = Inr (xs, s') \<and> ba_ok s' \<and> ba_endian s' = ba_endian s \<and> ba_abs s' = t"
    by (auto simp: bs_read_def ba_abs_def split: if_splits)
next
  fix s n e assume s: "ba_ok s" "bs_read (ba_abs s) n = Inl e"
  then show "ba_read s n = Inl e"
    using ba_read_short [OF s(1)] by (auto simp: bs_read_def length_contents split: if_splits)
next
  fix s v assume s: "ba_ok s" "v \<le> length (bs_data (ba_abs s))"
  then have v: "v \<le> ba_size s" "v \<le> ba_capacity s" by (auto simp: length_contents ba_ok_def)
  then have "max v (ba_size s) = ba_size s"
    and "ba_ok (s\<lparr>ba_position := v, ba_cur := v div ba_base_size s\<rparr>)"
    using s(1) by (auto simp: ba_ok_def)
  with s(1) v show "\<exists>s'. SetPosition s v = Inr s' \<and> ba_ok s' \<and> ba_endian s' = ba_endian s \<and>
      ba_abs s' = (ba_abs s)\<lparr>bs_pos := v\<rparr>"
    by (auto simp: SetPosition_ok ba_abs_def contents_def ba_mem_def)
next
  fix s assume "ba_ok s"
  then show "bs_pos (ba_abs s) \<le> length (bs_data (ba_abs s))"
    by (simp add: length_contents) (simp add: ba_ok_def)
qed

section \<open>Reachable buffers\<close>

text \<open>Everything a program can do with a buffer it has constructed, one call at a time.\<close>

inductive ba_reachable :: "nat \<Rightarrow> (nat \<Rightarrow> u8) \<Rightarrow> byte_array \<Rightarrow> bool"
  for base_size :: nat and fresh :: "nat \<Rightarrow> u8" where
  construct: "ba_reachable base_size fresh (ByteArray fresh base_size)"
| write_step: "ba_reachable base_size fresh ba \<Longrightarrow> ba_write ba xs = Inr ba' \<Longrightarrow> ba_reachable base_size fresh ba'"
| read_step: "ba_reachable base_size fresh ba \<Longrightarrow> ba_read ba n = Inr (xs, ba') \<Longrightarrow> ba_reachable base_size fresh ba'"
| seek_step: "ba_reachable base_size fresh ba \<Longrightarrow> SetPosition ba v = Inr ba' \<Longrightarrow> ba_reachable base_size fresh ba'"
| clear_step: "ba_reachable base_size fresh ba \<Longrightarrow> ba_reachable base_size fresh (Clear ba)"
| endian_step: "ba_reachable base_size fresh ba \<Longrightarrow> ba_reachable base_size fresh (SetIsLittleEndian ba b)"

lemma ba_write_keeps_ok: "ba_ok ba \<Longrightarrow> ba_write ba xs = Inr ba' \<Longrightarrow> ba_ok ba'"
  using ba.wr [of ba xs] by auto

lemma ba_read_ok_keeps: "ba_ok ba \<Longrightarrow> ba_read ba n = Inr (xs, ba') \<Longrightarrow> ba_ok ba'"
proof -
  assume ok: "ba_ok ba" and r: "ba_read ba n = Inr (xs, ba')"
  have len: "ba_position ba + n \<le> ba_size ba" using ok r ba_read_short [of ba n] by (cases "ba_size ba < ba_position ba + n") auto
  moreover have "0 < n \<or> ba_position ba < ba_capacity ba"
    using ok r ba_read_null [of ba] by (cases "ba_position ba = ba_capacity ba"; cases "n = 0") (auto simp: ba_ok_def)
  ultimately show ?thesis using ba_read_ok [OF ok] ba_read_keeps_ok [OF ok len] r by auto
qed

section \<open>Properties\<close>

text \<open>
  (C1) Writing at the cursor refines overwriting a flat byte string: from every well-formed buffer
  \<open>write\<close> succeeds, growing the chain of blocks as needed, keeps the buffer well formed and the byte
  order unchanged, and the abstract contents become the old ones with the bytes written over them
  at the cursor, which advances by their number.
\<close>

theorem write_refines:
  assumes "ba_ok ba"
  shows "\<exists>ba'. ba_write ba xs = Inr ba' \<and> ba_ok ba' \<and> ba_endian ba' = ba_endian ba \<and>
     ba_abs ba' = bs_write (ba_abs ba) xs"
  using assms by (rule ba.wr)

theorem write_refines_witness:
  "\<exists>ba'. ba_write (ByteArray (\<lambda>_. 0) 2) [1, 2, 3] = Inr ba' \<and> ba_ok ba' \<and>
     ba_endian ba' = SYLAR_BIG_ENDIAN \<and> ba_abs ba' = \<lparr>bs_data = [1, 2, 3], bs_pos = 3\<rparr>"
proof -
  have ok: "ba_ok (ByteArray (\<lambda>_. 0) 2)" by (simp add: ByteArray_ok)
  have e: "bs_write (ba_abs (ByteArray (\<lambda>_. 0) 2)) [1, 2, 3] = \<lparr>bs_data = [1, 2, 3], bs_pos = 3\<rparr>"
    by (simp add: bs_write_def ba_abs_def contents_def ByteArray_def overwrite_def)
  show ?thesis
    using write_refines [OF ok, of "[1, 2, 3]"] unfolding e by (simp add: ByteArray_def)
qed

text \<open>
  (C2) Reading at the cursor on every branch: more bytes than are unread raise \<open>std::out_of_range\<close>;
  otherwise the next bytes of the contents are returned and only the cursor moves. The exception
  is a read of zero bytes when the cursor stands at the end of the last block, which dereferences
  the null \<open>cur_\<close>.
\<close>

theorem read_every_branch:
  assumes "ba_ok ba"
  shows "ba_read ba n =
    (if ba_size ba < ba_position ba + n then Inl Out_Of_Range
     else if n = 0 \<and> ba_position ba = ba_capacity ba then Inl Null_Deref
     else Inr (take n (drop (ba_position ba) (contents ba)),
       ba\<lparr>ba_cur := (ba_position ba + n) div ba_base_size ba, ba_position := ba_position ba + n\<rparr>))"
  using assms ba_read_short ba_read_null ba_read_ok [of ba n]
  by (auto simp: ba_ok_def)

theorem read_every_branch_witness:
  "ba_read (ByteArray (\<lambda>_. 0) 4) 1 = Inl Out_Of_Range"
  by (subst read_every_branch) (simp_all add: ByteArray_ok, simp add: ByteArray_def)

text \<open>
  \<open>SetPosition\<close> on every branch: a position beyond the capacity raises \<open>std::out_of_range\<close>; any
  other is taken, the size is raised to it if smaller, and \<open>cur_\<close> is the block the position lies in
  (the null pointer exactly at the capacity).
\<close>

theorem SetPosition_every_branch:
  assumes "ba_ok ba"
  shows "SetPosition ba v =
    (if ba_capacity ba < v then Inl Out_Of_Range
     else Inr (ba\<lparr>ba_position := v, ba_size := max v (ba_size ba), ba_cur := v div ba_base_size ba\<rparr>))"
  using assms SetPosition_ok by (auto simp: SetPosition_def)

theorem SetPosition_every_branch_witness:
  "SetPosition (ByteArray (\<lambda>_. 0) 4) 5 = Inl Out_Of_Range"
  by (subst SetPosition_every_branch) (simp_all add: ByteArray_ok, simp add: ByteArray_def)

text \<open>
  (C34) Every buffer a program reaches from the constructor by \<open>write\<close>, \<open>read\<close>, \<open>SetPosition\<close>,
  \<open>Clear\<close> and \<open>SetIsLittleEndian\<close> is well formed: blocks of the base size, a capacity that is their total,
  a cursor within the size and \<open>cur_\<close> at the cursor's block; and the next \<open>write\<close> succeeds.
\<close>

theorem reachable_ok:
  assumes "ba_reachable base_size fresh ba" "0 < base_size"
  shows "ba_ok ba \<and> length (contents ba) = ba_size ba \<and> ba_position ba \<le> ba_size ba \<and>
    (\<exists>ba'. ba_write ba xs = Inr ba')"
proof -
  have "ba_ok ba"
    using assms
  proof induction
    case (endian_step ba b)
    then show ?case by (auto simp: SetIsLittleEndian_def ba_ok_def)
  qed (auto intro: ByteArray_ok Clear_ok SetPosition_keeps_ok ba_write_keeps_ok ba_read_ok_keeps)
  then show ?thesis
    using ba.wr [of ba xs] by (auto simp: length_contents) (simp add: ba_ok_def)
qed

theorem reachable_ok_witness:
  "ba_ok (Clear (ByteArray (\<lambda>_. 0) 4)) \<and> (\<exists>ba'. ba_write (Clear (ByteArray (\<lambda>_. 0) 4)) [7] = Inr ba')"
  using reachable_ok [OF clear_step [OF construct], of 4 "\<lambda>_. 0" "[7]"] by simp

text \<open>
  The overload of \<open>read\<close> with an explicit position does not move the cursor and is right when the
  position lies in the block of the cursor: it returns the bytes of the contents from there.
  In general it starts in the cursor's block, so that its result is that of the position with the
  same offset in that block.
\<close>

theorem read_at_position:
  assumes "ba_ok ba" "p + n \<le> ba_size ba" "ba_position ba < ba_capacity ba"
    "ba_cur ba * ba_base_size ba + p mod ba_base_size ba + n \<le> ba_capacity ba"
  shows "ba_read_at ba n p =
      Inr (take n (drop (ba_cur ba * ba_base_size ba + p mod ba_base_size ba) (ba_mem ba))) \<and>
    (p div ba_base_size ba = ba_cur ba \<longrightarrow> ba_read_at ba n p = Inr (take n (drop p (contents ba))))"
  using ba_read_at_actual [OF assms] ba_read_at_ok [OF assms(1-3)] by simp

definition five_bytes :: byte_array where
  "five_bytes = (ByteArray (\<lambda>_. 0) 2)\<lparr>ba_size := 5, ba_capacity := 6, ba_position := 4, ba_cur := 2,
     ba_nodes := [\<lparr>node_ptr = [1, 2], node_size = 2\<rparr>, \<lparr>node_ptr = [3, 4], node_size = 2\<rparr>,
                  \<lparr>node_ptr = [5, 0], node_size = 2\<rparr>]\<rparr>"

theorem read_at_position_witness:
  "ba_read_at five_bytes 1 0 = Inr [5] \<and> take 1 (drop 0 (contents five_bytes)) = [1] \<and>
   ba_read_at five_bytes 1 4 = Inr (take 1 (drop 4 (contents five_bytes)))"
proof -
  have ok: "ba_ok five_bytes" by (simp add: five_bytes_def ba_ok_def ByteArray_def nodes_ok_def)
  have "ba_read_at five_bytes 1 0 = Inr [5]"
    using read_at_position [OF ok, of 0 1] by (simp add: five_bytes_def ByteArray_def ba_mem_def)
  moreover have "ba_read_at five_bytes 1 4 = Inr (take 1 (drop 4 (contents five_bytes)))"
    using read_at_position [OF ok, of 4 1]
    by (simp add: five_bytes_def ByteArray_def ba_mem_def contents_def)
  ultimately show ?thesis by (simp add: five_bytes_def ByteArray_def contents_def ba_mem_def)
qed

end
