(* ===== verification/Byte_Codec.thy ===== *)
theory Byte_Codec
  imports Byte_Array
begin

text \<open>
  The serialisers of \<open>util/bytearray.cc\<close>: integers of fixed length in the chosen byte order,
  variable-length integers (base-128 with continuation bits), zigzag coding of signed values,
  floating-point values by their bit patterns, and strings with a length prefix. Signed and
  unsigned integers of a width are the same words; a \<open>float\<close> or \<open>double\<close> is its bit pattern, which
  is all that \<open>memcpy\<close> moves. \<open>std::string\<close> is the list of its bytes; running out of memory in
  \<open>resize\<close> is not modelled.
\<close>

section \<open>Fixed length\<close>

definition write_fixed :: "byte_array \<Rightarrow> 'a::len word \<Rightarrow> byte_array result" where
  "write_fixed ba v =
     (let v' = (if ba_endian ba \<noteq> SYLAR_BYTE_ORDER then byteswap v else v)
      in ba_write ba (to_mem v'))"

definition WriteFint8 :: "byte_array \<Rightarrow> u8 \<Rightarrow> byte_array result" where
  "WriteFint8 ba v = ba_write ba (to_mem v)"

definition WriteFuint8 :: "byte_array \<Rightarrow> u8 \<Rightarrow> byte_array result" where
  "WriteFuint8 ba v = ba_write ba (to_mem v)"

definition WriteFint16 :: "byte_array \<Rightarrow> u16 \<Rightarrow> byte_array result" where
  "WriteFint16 ba v = write_fixed ba v"

definition WriteFuint16 :: "byte_array \<Rightarrow> u16 \<Rightarrow> byte_array result" where
  "WriteFuint16 ba v = write_fixed ba v"

definition WriteFint32 :: "byte_array \<Rightarrow> u32 \<Rightarrow> byte_array result" where
  "WriteFint32 ba v = write_fixed ba v"

definition WriteFuint32 :: "byte_array \<Rightarrow> u32 \<Rightarrow> byte_array result" where
  "WriteFuint32 ba v = write_fixed ba v"

definition WriteFint64 :: "byte_array \<Rightarrow> u64 \<Rightarrow> byte_array result" where
  "WriteFint64 ba v = write_fixed ba v"

definition WriteFuint64 :: "byte_array \<Rightarrow> u64 \<Rightarrow> byte_array result" where
  "WriteFuint64 ba v = write_fixed ba v"

text \<open>The body the macro \<open>XX(type)\<close> expands to.\<close>

definition read_fixed :: "byte_array \<Rightarrow> ('a::len word \<times> byte_array) result" where
  "read_fixed ba =
     rbind (ba_read ba (LENGTH('a) div 8)) (\<lambda>(bs, ba').
     let v = of_mem bs in
     Inr (if ba_endian ba' = SYLAR_BYTE_ORDER then v else byteswap v, ba'))"

definition ReadFint8 :: "byte_array \<Rightarrow> (u8 \<times> byte_array) result" where
  "ReadFint8 ba = rbind (ba_read ba 1) (\<lambda>(bs, ba'). Inr (of_mem bs, ba'))"

definition ReadFuint8 :: "byte_array \<Rightarrow> (u8 \<times> byte_array) result" where
  "ReadFuint8 ba = rbind (ba_read ba 1) (\<lambda>(bs, ba'). Inr (of_mem bs, ba'))"

definition ReadFint16 :: "byte_array \<Rightarrow> (u16 \<times> byte_array) result" where
  "ReadFint16 ba = read_fixed ba"

definition ReadFuint16 :: "byte_array \<Rightarrow> (u16 \<times> byte_array) result" where
  "ReadFuint16 ba = read_fixed ba"

definition ReadFint32 :: "byte_array \<Rightarrow> (u32 \<times> byte_array) result" where
  "ReadFint32 ba = read_fixed ba"

definition ReadFuint32 :: "byte_array \<Rightarrow> (u32 \<times> byte_array) result" where
  "ReadFuint32 ba = read_fixed ba"

definition ReadFint64 :: "byte_array \<Rightarrow> (u64 \<times> byte_array) result" where
  "ReadFint64 ba = read_fixed ba"

definition ReadFuint64 :: "byte_array \<Rightarrow> (u64 \<times> byte_array) result" where
  "ReadFuint64 ba = read_fixed ba"

section \<open>Zigzag\<close>

text \<open>
  Negation and doubling of the signed argument are taken with wrap-around (two's complement), as
  the compiler's generated code computes them.
\<close>

definition EncodeZigzag32 :: "u32 \<Rightarrow> u32" where
  "EncodeZigzag32 v = (if sint v < 0 then (- v) * 2 - 1 else v * 2)"

definition EncodeZigzag64 :: "u64 \<Rightarrow> u64" where
  "EncodeZigzag64 v = (if sint v < 0 then (- v) * 2 - 1 else v * 2)"

definition DecodeZigzag32 :: "u32 \<Rightarrow> u32" where
  "DecodeZigzag32 v = drop_bit 1 v XOR (- (v AND 1))"

definition DecodeZigzag64 :: "u64 \<Rightarrow> u64" where
  "DecodeZigzag64 v = drop_bit 1 v XOR (- (v AND 1))"

section \<open>Variable length\<close>

text \<open>
  The loop filling the local array \<open>tmp\<close>, whose length is \<open>cap\<close> (5 or 10): a store beyond it is an
  error of the model.
\<close>

function varint_fill :: "nat \<Rightarrow> u8 list \<Rightarrow> 'a::len word \<Rightarrow> u8 list result" where
  "varint_fill cap tmp value =
     (if length tmp < cap
      then (if value \<ge> 0x80
            then varint_fill cap (tmp @ [ucast ((value AND 0x7F) OR 0x80)]) (drop_bit 7 value)
            else Inr (tmp @ [ucast value]))
      else Inl Out_Of_Bounds)"
  by pat_completeness auto
termination
  by (relation "measure (\<lambda>(cap, tmp, value). cap - length tmp)") auto

definition WriteUint32 :: "byte_array \<Rightarrow> u32 \<Rightarrow> byte_array result" where
  "WriteUint32 ba value = rbind (varint_fill 5 [] value) (\<lambda>tmp. ba_write ba tmp)"

definition WriteInt32 :: "byte_array \<Rightarrow> u32 \<Rightarrow> byte_array result" where
  "WriteInt32 ba value = WriteUint32 ba (EncodeZigzag32 value)"

definition WriteUint64 :: "byte_array \<Rightarrow> u64 \<Rightarrow> byte_array result" where
  "WriteUint64 ba value = rbind (varint_fill 10 [] value) (\<lambda>tmp. ba_write ba tmp)"

definition WriteInt64 :: "byte_array \<Rightarrow> u64 \<Rightarrow> byte_array result" where
  "WriteInt64 ba value = WriteUint64 ba (EncodeZigzag64 value)"

function read_varint :: "nat \<Rightarrow> nat \<Rightarrow> 'a::len word \<Rightarrow> byte_array \<Rightarrow> ('a word \<times> byte_array) result" where
  "read_varint bits i result ba =
     (if i < bits
      then rbind (ReadFuint8 ba) (\<lambda>(b, ba').
        if b < 0x80 then Inr (result OR push_bit i (ucast b), ba')
        else read_varint bits (i + 7) (result OR push_bit i (ucast (b AND 0x7f))) ba')
      else Inr (result, ba))"
  by pat_completeness auto
termination
  by (relation "measure (\<lambda>(bits, i, result, ba). bits - i)") auto

definition ReadUint32 :: "byte_array \<Rightarrow> (u32 \<times> byte_array) result" where
  "ReadUint32 ba = read_varint 32 0 0 ba"

definition ReadInt32 :: "byte_array \<Rightarrow> (u32 \<times> byte_array) result" where
  "ReadInt32 ba = rbind (ReadUint32 ba) (\<lambda>(v, ba'). Inr (DecodeZigzag32 v, ba'))"

definition ReadUint64 :: "byte_array \<Rightarrow> (u64 \<times> byte_array) result" where
  "ReadUint64 ba = read_varint 64 0 0 ba"

definition ReadInt64 :: "byte_array \<Rightarrow> (u64 \<times> byte_array) result" where
  "ReadInt64 ba = rbind (ReadUint64 ba) (\<lambda>(v, ba'). Inr (DecodeZigzag64 v, ba'))"

section \<open>Floating point and strings\<close>

definition WriteFloat :: "byte_array \<Rightarrow> u32 \<Rightarrow> byte_array result" where
  "WriteFloat ba bits = WriteFuint32 ba bits"

definition WriteDouble :: "byte_array \<Rightarrow> u64 \<Rightarrow> byte_array result" where
  "WriteDouble ba bits = WriteFuint64 ba bits"

definition ReadFloat :: "byte_array \<Rightarrow> (u32 \<times> byte_array) result" where
  "ReadFloat ba = ReadFuint32 ba"

definition ReadDouble :: "byte_array \<Rightarrow> (u64 \<times> byte_array) result" where
  "ReadDouble ba = ReadFuint64 ba"

definition WriteStringF16 :: "byte_array \<Rightarrow> u8 list \<Rightarrow> byte_array result" where
  "WriteStringF16 ba s = rbind (WriteFuint16 ba (of_nat (length s))) (\<lambda>ba. ba_write ba s)"

definition WriteStringF32 :: "byte_array \<Rightarrow> u8 list \<Rightarrow> byte_array result" where
  "WriteStringF32 ba s = rbind (WriteFuint32 ba (of_nat (length s))) (\<lambda>ba. ba_write ba s)"

definition WriteStringF64 :: "byte_array \<Rightarrow> u8 list \<Rightarrow> byte_array result" where
  "WriteStringF64 ba s = rbind (WriteFuint64 ba (of_nat (length s))) (\<lambda>ba. ba_write ba s)"

definition WriteStringVint :: "byte_array \<Rightarrow> u8 list \<Rightarrow> byte_array result" where
  "WriteStringVint ba s = rbind (WriteUint64 ba (of_nat (length s))) (\<lambda>ba. ba_write ba s)"

definition WriteStringWithoutLength :: "byte_array \<Rightarrow> u8 list \<Rightarrow> byte_array result" where
  "WriteStringWithoutLength ba s = ba_write ba s"

definition ReadStringF16 :: "byte_array \<Rightarrow> (u8 list \<times> byte_array) result" where
  "ReadStringF16 ba = rbind (ReadFuint16 ba) (\<lambda>(len, ba). ba_read ba (unat len))"

definition ReadStringF32 :: "byte_array \<Rightarrow> (u8 list \<times> byte_array) result" where
  "ReadStringF32 ba = rbind (ReadFuint32 ba) (\<lambda>(len, ba). ba_read ba (unat len))"

definition ReadStringF64 :: "byte_array \<Rightarrow> (u8 list \<times> byte_array) result" where
  "ReadStringF64 ba = rbind (ReadFuint64 ba) (\<lambda>(len, ba). ba_read ba (unat len))"

definition ReadStringVint :: "byte_array \<Rightarrow> (u8 list \<times> byte_array) result" where
  "ReadStringVint ba = rbind (ReadUint64 ba) (\<lambda>(len, ba). ba_read ba (unat len))"

declare varint_fill.simps [simp del] read_varint.simps [simp del]

section \<open>Zigzag is a bijection\<close>

lemma sint_neg_iff: "sint (v :: 'a::len word) < 0 \<longleftrightarrow> bit v (LENGTH('a) - 1)"
  by transfer (auto simp: signed_take_bit_negative_iff)

lemma zz_enc: "(if sint v < 0 then (- v) * 2 - 1 else v * 2) =
   (if bit v (LENGTH('a) - 1) then NOT (push_bit 1 v) else push_bit 1 (v :: 'a::len word))"
  by (simp add: sint_neg_iff push_bit_double not_eq_complement)

lemma even_word: "(w :: 'a::len word) AND 1 = (if bit w 0 then 1 else 0)"
  by (simp add: and_one_eq mod_2_eq_odd bit_0)

lemma zz_dec: "drop_bit 1 w XOR (- (w AND 1)) = (if bit w 0 then NOT (drop_bit 1 w) else drop_bit 1 (w :: 'a::len word))"
  by (simp add: even_word)

lemma bit_mult2: "bit (v * 2) n \<longleftrightarrow> 0 < n \<and> n < LENGTH('a) \<and> bit v (n - 1)" for v :: "'a::len word"
  using bit_push_bit_iff [of 1 v n] by (auto simp: bit_simps push_bit_double Suc_le_eq)

lemma zz_rt: "drop_bit 1 e XOR (- (e AND 1)) = v"
  if "e = (if sint v < 0 then (- v) * 2 - 1 else v * 2)" for v :: "'a::len word"
  unfolding zz_dec that zz_enc
proof (rule bit_word_eqI)
  fix n assume n: "n < LENGTH('a)"
  let ?w = "if bit v (LENGTH('a) - 1) then NOT (push_bit 1 v) else push_bit 1 v"
  from n consider "n = LENGTH('a) - 1" | "Suc n < LENGTH('a)" by linarith
  then show "bit (if bit ?w 0 then NOT (drop_bit 1 ?w) else drop_bit 1 ?w) n = bit v n"
    using n by cases (auto simp: bit_simps bit_mult2)
qed

lemma zz_rt2: "(if sint v < 0 then (- v) * 2 - 1 else v * 2) = w"
  if "v = drop_bit 1 w XOR (- (w AND 1))" for v :: "'a::len word"
  unfolding zz_dec that zz_enc
proof (rule bit_word_eqI)
  fix n assume n: "n < LENGTH('a)"
  let ?v = "if bit w 0 then NOT (drop_bit 1 w) else drop_bit 1 w"
  show "bit (if bit ?v (LENGTH('a) - 1) then NOT (push_bit 1 ?v) else push_bit 1 ?v) n = bit w n"
    using n by (cases n) (auto simp: bit_simps bit_mult2)
qed

lemma zigzag_inverse [simp]:
  "DecodeZigzag32 (EncodeZigzag32 a) = a" "DecodeZigzag64 (EncodeZigzag64 b) = b"
  "EncodeZigzag32 (DecodeZigzag32 a) = a" "EncodeZigzag64 (DecodeZigzag64 b) = b"
  unfolding EncodeZigzag32_def DecodeZigzag32_def EncodeZigzag64_def DecodeZigzag64_def
  by (rule zz_rt zz_rt2, rule refl)+

section \<open>Base-128 digits\<close>

text \<open>\<open>venc n\<close> is the reference encoding of a number: seven bits per byte, least significant first, with
  the high bit set on every byte but the last.\<close>

lemma mask7: "(0x7F :: 'a::len word) = mask 7" and bit7: "(0x80 :: 'a::len word) = push_bit 7 1"
  by (simp_all add: mask_eq_exp_minus_1 push_bit_eq_mult)

lemma nat_bits7: "(n::nat) mod 128 = take_bit 7 n" "n div 128 = drop_bit 7 n"
  by (simp_all add: take_bit_eq_mod drop_bit_eq_div)

fun venc :: "nat \<Rightarrow> u8 list" where
  "venc n = (if n < 128 then [of_nat n] else (of_nat (n mod 128) OR 0x80) # venc (n div 128))"
declare venc.simps [simp del]

lemma length_venc: "n < 2 ^ (7 * c) \<Longrightarrow> 0 < c \<Longrightarrow> length (venc n) \<le> c"
proof (induction n arbitrary: c rule: venc.induct)
  case (1 n)
  show ?case
  proof (cases "n < 128")
    case True then show ?thesis using 1 by (simp add: venc.simps)
  next
    case False
    then obtain d where d: "c = Suc d" "0 < d" using 1(2,3) by (cases c; cases "c - 1") auto
    then have "n div 128 < 2 ^ (7 * d)" using 1(2) by (simp add: power_add less_mult_imp_div_less mult.commute)
    with 1 False d show ?thesis by (subst venc.simps) simp
  qed
qed

lemma varint_fill_venc:
  assumes "8 \<le> LENGTH('a)" "length tmp + length (venc (unat v)) \<le> cap"
  shows "varint_fill cap tmp (v :: 'a::len word) = Inr (tmp @ venc (unat v))"
  using assms(2)
proof (induction cap tmp v rule: varint_fill.induct)
  case (1 cap tmp v)
  have L: "2 ^ 8 \<le> (2::nat) ^ LENGTH('a)" using assms(1) by (rule power_increasing) simp
  have c: "unat (0x80 :: 'a word) = 128" using L by (simp add: unat_numeral take_bit_eq_mod)
  have ge: "v \<ge> 0x80 \<longleftrightarrow> \<not> unat v < 128" using c by (simp add: word_le_nat_alt not_less)
  show ?case
  proof (cases "unat v < 128")
    case True
    then show ?thesis using "1.prems" ge by (subst varint_fill.simps) (auto simp: venc.simps)
  next
    case False
    have e: "ucast ((v AND 0x7F) OR 0x80) = (of_nat (unat v mod 128) OR 0x80 :: u8)"
      unfolding mask7 bit7 nat_bits7 using assms(1)
      by (auto intro!: bit_word_eqI simp: bit_simps)
    have d: "unat (drop_bit 7 v) = unat v div 128" by (simp only: unat_drop_bit_eq nat_bits7)
    show ?thesis using "1.IH" "1.prems" False ge e d venc.simps[of "unat v"]
      by (subst varint_fill.simps) auto
  qed
qed

abbreviation unread :: "byte_array \<Rightarrow> u8 list" where
  "unread ba \<equiv> drop (ba_position ba) (contents ba)"

lemma of_mem_u8 [simp]: "(of_mem [b] :: u8) = b" by simp
lemma to_mem_u8 [simp]: "to_mem (b :: u8) = [b]" by (simp add: to_mem_def)

lemma ReadFuint8_ok:
  assumes "ba_ok ba" "unread ba = b # rest"
  shows "\<exists>ba'. ReadFuint8 ba = Inr (b, ba') \<and> ba_ok ba' \<and> ba_endian ba' = ba_endian ba \<and>
     ba_abs ba' = (ba_abs ba)\<lparr>bs_pos := ba_position ba + 1\<rparr>"
  using ba.rd_prefix [of ba "[b]" rest] assms by (auto simp: ReadFuint8_def)

lemma strip_high: "(of_nat (n mod 128) OR 0x80 :: u8) AND 0x7f = of_nat (n mod 128)"
proof (rule bit_word_eqI)
  fix i assume "i < LENGTH(8)"
  have "\<And>j. bit (0x80::u8) j \<longleftrightarrow> j = 7" by (simp only: bit7 bit_simps) auto
  then show "bit ((of_nat (n mod 128) OR 0x80 :: u8) AND 0x7f) i = bit (of_nat (n mod 128) :: u8) i"
    unfolding mask7 nat_bits7 by (auto simp: bit_simps)
qed

lemma ucast_small: "n < 256 \<Longrightarrow> ucast (of_nat n :: u8) = (of_nat n :: 'a::len word)"
proof -
  assume "n < 256"
  then have "unat (of_nat n :: u8) = n" by (simp add: unat_of_nat)
  then show ?thesis by (metis of_nat_unat)
qed

lemma varint_combine:
  "(r OR push_bit i (of_nat (n mod 128))) OR push_bit (i + 7) (of_nat (n div 128)) =
   r OR push_bit i (of_nat n :: 'a::len word)"
proof (rule bit_word_eqI)
  fix m assume m: "m < LENGTH('a)"
  show "bit ((r OR push_bit i (of_nat (n mod 128))) OR push_bit (i + 7) (of_nat (n div 128))) m =
        bit (r OR push_bit i (of_nat n :: 'a word)) m"
    using m unfolding nat_bits7
    by (cases "i + 7 \<le> m") (auto simp: bit_simps)
qed


lemma div_bound: "n < 2 ^ m \<Longrightarrow> \<not> n < 128 \<Longrightarrow> 7 < m \<and> n div 128 < 2 ^ (m - 7)" for n :: nat
proof -
  assume n: "n < 2 ^ m" and big: "\<not> n < 128"
  have "m > 7"
  proof (rule ccontr)
    assume "\<not> m > 7"
    then have "(2::nat) ^ m \<le> 2 ^ 7" by (intro power_increasing) auto
    with n big show False by simp
  qed
  moreover from this have "2 ^ m = (2::nat) ^ (m - 7) * 128"
    using power_add [of "2::nat" "m - 7" 7] by simp
  ultimately show ?thesis using n by (simp add: less_mult_imp_div_less)
qed

lemma read_varint_ok:
  assumes "ba_ok ba" "unread ba = venc n @ rest" "n < 2 ^ (bits - i)" "i < bits"
  shows "\<exists>ba'. read_varint bits i r ba = Inr (r OR push_bit i (of_nat n :: 'a::len word), ba') \<and>
     ba_ok ba' \<and> ba_endian ba' = ba_endian ba \<and>
     ba_abs ba' = (ba_abs ba)\<lparr>bs_pos := ba_position ba + length (venc n)\<rparr>"
  using assms
proof (induction n arbitrary: i r ba rule: venc.induct)
  case (1 n)
  show ?case
  proof (cases "n < 128")
    case True
    then have "unread ba = of_nat n # rest" using "1.prems" by (simp add: venc.simps)
    moreover have "(of_nat n :: u8) < 0x80" using True by (simp add: word_less_nat_alt unat_of_nat)
    moreover have "ucast (of_nat n :: u8) = (of_nat n :: 'a word)" using True by (simp add: ucast_small)
    ultimately show ?thesis
      using ReadFuint8_ok [OF "1.prems"(1)] True "1.prems"(4)
      by (subst read_varint.simps) (fastforce simp: venc.simps)
  next
    case False
    define b :: u8 where "b = of_nat (n mod 128) OR 0x80"
    have ge: "\<not> b < 0x80" using le_word_or1 [of "0x80"] by (simp add: b_def not_less)
    have low: "ucast (b AND 0x7f) = (of_nat (n mod 128) :: 'a word)"
      by (simp add: b_def strip_high ucast_small)
    have ur: "unread ba = b # (venc (n div 128) @ rest)"
      using "1.prems"(2) False by (simp add: venc.simps [of n] b_def)
    from ReadFuint8_ok [OF "1.prems"(1) ur] obtain b1 where
      b1: "ReadFuint8 ba = Inr (b, b1)" "ba_ok b1" "ba_endian b1 = ba_endian ba"
        "ba_abs b1 = (ba_abs ba)\<lparr>bs_pos := ba_position ba + 1\<rparr>" by blast
    have f: "contents b1 = contents ba" "ba_position b1 = ba_position ba + 1"
      using b1(4) by (simp_all add: ba_abs_def)
    have "unread b1 = venc (n div 128) @ rest"
      using ur f by (metis drop_Suc_Cons drop_drop drop0 plus_1_eq_Suc One_nat_def add.commute)
    moreover have "i + 7 < bits" "n div 128 < 2 ^ (bits - (i + 7))"
      using div_bound [OF "1.prems"(3) False] "1.prems"(4) by (linarith, simp)
    ultimately obtain b2 where b2:
      "read_varint bits (i + 7) (r OR push_bit i (of_nat (n mod 128))) b1 =
         Inr ((r OR push_bit i (of_nat (n mod 128))) OR push_bit (i + 7) (of_nat (n div 128) :: 'a word), b2)"
      "ba_ok b2" "ba_endian b2 = ba_endian b1"
      "ba_abs b2 = (ba_abs b1)\<lparr>bs_pos := ba_position b1 + length (venc (n div 128))\<rparr>"
      using "1.IH" [OF False b1(2)] by blast
    then show ?thesis
      using b1 f ge low "1.prems"(4) False unfolding varint_combine
      by (subst read_varint.simps) (auto simp: venc.simps [of n])
  qed
qed

section \<open>The interface of a serialiser\<close>

text \<open>
  A serialiser over a byte store writes each acceptable value as its encoding at the cursor and, given
  the kind of a value whose encoding starts at the cursor, reads that value back. The client lemma is
  about whole sequences of values.
\<close>

lemma bs_write_append: "bs_pos b \<le> length (bs_data b) \<Longrightarrow> bs_write (bs_write b xs) ys = bs_write b (xs @ ys)"
  by (simp add: bs_write_def overwrite_def ac_simps)

fun put_all :: "('s \<Rightarrow> 'v \<Rightarrow> 's result) \<Rightarrow> 's \<Rightarrow> 'v list \<Rightarrow> 's result" where
  "put_all put s [] = Inr s"
| "put_all put s (v # vs) = rbind (put s v) (\<lambda>s'. put_all put s' vs)"

fun get_all :: "('k \<Rightarrow> 's \<Rightarrow> ('v \<times> 's) result) \<Rightarrow> 's \<Rightarrow> 'k list \<Rightarrow> ('v list \<times> 's) result" where
  "get_all get s [] = Inr ([], s)"
| "get_all get s (k # ks) =
     rbind (get k s) (\<lambda>(v, s'). rbind (get_all get s' ks) (\<lambda>(vs, s''). Inr (v # vs, s'')))"

locale codec = byte_store wr rd seek view inv mode
  for wr :: "'s \<Rightarrow> u8 list \<Rightarrow> 's result"
    and rd :: "'s \<Rightarrow> nat \<Rightarrow> (u8 list \<times> 's) result"
    and seek :: "'s \<Rightarrow> nat \<Rightarrow> 's result"
    and view :: "'s \<Rightarrow> byte_string"
    and inv :: "'s \<Rightarrow> bool"
    and mode :: "'s \<Rightarrow> 'm" +
  fixes put :: "'s \<Rightarrow> 'v \<Rightarrow> 's result"
    and get :: "'k \<Rightarrow> 's \<Rightarrow> ('v \<times> 's) result"
    and kind :: "'v \<Rightarrow> 'k"
    and enc :: "'m \<Rightarrow> 'v \<Rightarrow> u8 list"
    and ok :: "'v \<Rightarrow> bool"
  assumes put: "inv s \<Longrightarrow> ok v \<Longrightarrow>
      \<exists>s'. put s v = Inr s' \<and> inv s' \<and> mode s' = mode s \<and> view s' = bs_write (view s) (enc (mode s) v)"
    and get: "inv s \<Longrightarrow> ok v \<Longrightarrow>
      drop (bs_pos (view s)) (bs_data (view s)) = enc (mode s) v @ rest \<Longrightarrow>
      \<exists>s'. get (kind v) s = Inr (v, s') \<and> inv s' \<and> mode s' = mode s \<and>
        view s' = (view s)\<lparr>bs_pos := bs_pos (view s) + length (enc (mode s) v)\<rparr>"
begin

lemma put_all_ok:
  "inv s \<Longrightarrow> \<forall>v \<in> set vs. ok v \<Longrightarrow>
   \<exists>s'. put_all put s vs = Inr s' \<and> inv s' \<and> mode s' = mode s \<and>
      view s' = bs_write (view s) (concat (map (enc (mode s)) vs))"
proof (induction vs arbitrary: s)
  case Nil
  then show ?case by (simp add: bs_write_def)
next
  case (Cons v vs)
  then obtain s1 where s1: "put s v = Inr s1" "inv s1" "mode s1 = mode s"
      "view s1 = bs_write (view s) (enc (mode s) v)"
    using put by force
  with Cons.IH [OF s1(2)] Cons.prems pos_in_data show ?case
    by (fastforce simp: bs_write_append)
qed

lemma get_all_ok:
  "inv s \<Longrightarrow> \<forall>v \<in> set vs. ok v \<Longrightarrow>
   drop (bs_pos (view s)) (bs_data (view s)) = concat (map (enc (mode s)) vs) @ rest \<Longrightarrow>
   \<exists>s'. get_all get s (map kind vs) = Inr (vs, s') \<and> inv s' \<and> mode s' = mode s \<and>
      view s' = (view s)\<lparr>bs_pos := bs_pos (view s) + length (concat (map (enc (mode s)) vs))\<rparr>"
proof (induction vs arbitrary: s)
  case Nil
  then show ?case by simp
next
  case (Cons v vs)
  from Cons.prems obtain s1 where s1: "get (kind v) s = Inr (v, s1)" "inv s1" "mode s1 = mode s"
      "view s1 = (view s)\<lparr>bs_pos := bs_pos (view s) + length (enc (mode s) v)\<rparr>"
    using get [of s v "concat (map (enc (mode s)) vs) @ rest"] by auto
  have "drop (bs_pos (view s1)) (bs_data (view s1)) =
      drop (length (enc (mode s) v)) (drop (bs_pos (view s)) (bs_data (view s)))"
    using s1(4) by (simp add: add.commute)
  with Cons.IH [OF s1(2)] Cons.prems s1 show ?case
    by (fastforce simp: add.assoc)
qed

text \<open>Values written one after the other are read back, from where the first one was written.\<close>

lemma put_all_get_all:
  assumes "inv s" "\<forall>v \<in> set vs. ok v"
  shows "\<exists>s1 s2 s3. put_all put s vs = Inr s1 \<and> seek s1 (bs_pos (view s)) = Inr s2 \<and>
     get_all get s2 (map kind vs) = Inr (vs, s3) \<and> inv s3 \<and> view s3 = view s1"
proof -
  let ?xs = "concat (map (enc (mode s)) vs)"
  obtain s1 where s1: "put_all put s vs = Inr s1" "inv s1" "mode s1 = mode s" "view s1 = bs_write (view s) ?xs"
    using put_all_ok [OF assms] by blast
  have p: "bs_pos (view s) \<le> length (bs_data (view s1))"
    using s1(4) pos_in_data [OF assms(1)] by (simp add: bs_write_def overwrite_def)
  obtain s2 where s2: "seek s1 (bs_pos (view s)) = Inr s2" "inv s2" "mode s2 = mode s1"
      "view s2 = (view s1)\<lparr>bs_pos := bs_pos (view s)\<rparr>"
    using seek [OF s1(2) p] by blast
  have "drop (bs_pos (view s2)) (bs_data (view s2)) =
      concat (map (enc (mode s2)) vs) @ drop (bs_pos (view s) + length ?xs) (bs_data (view s))"
    using s1 s2 pos_in_data [OF assms(1)] by (simp add: bs_write_def overwrite_def)
  from get_all_ok [OF s2(2) assms(2) this] s1 s2 show ?thesis
    by (fastforce simp: bs_write_def)
qed

end

section \<open>What each writer writes and each reader reads\<close>

definition wrote :: "byte_array \<Rightarrow> u8 list \<Rightarrow> byte_array result \<Rightarrow> bool" where
  "wrote ba xs r \<longleftrightarrow> (\<exists>ba'. r = Inr ba' \<and> ba_ok ba' \<and> ba_endian ba' = ba_endian ba \<and>
     ba_abs ba' = bs_write (ba_abs ba) xs)"

definition got :: "byte_array \<Rightarrow> 'v \<Rightarrow> nat \<Rightarrow> ('v \<times> byte_array) result \<Rightarrow> bool" where
  "got ba v n r \<longleftrightarrow> (\<exists>ba'. r = Inr (v, ba') \<and> ba_ok ba' \<and> ba_endian ba' = ba_endian ba \<and>
     ba_abs ba' = (ba_abs ba)\<lparr>bs_pos := ba_position ba + n\<rparr>)"

definition fixed_bytes :: "endian \<Rightarrow> 'a::len word \<Rightarrow> u8 list" where
  "fixed_bytes m v = (if m = SYLAR_BYTE_ORDER then to_mem v else rev (to_mem v))"

lemma wrote_ba_write: "ba_ok ba \<Longrightarrow> wrote ba xs (ba_write ba xs)"
  unfolding wrote_def by (rule ba.wr)

lemma wrote_bind:
  assumes "ba_ok ba" "wrote ba xs r" "\<And>b. ba_ok b \<Longrightarrow> ba_endian b = ba_endian ba \<Longrightarrow> wrote b ys (f b)"
  shows "wrote ba (xs @ ys) (rbind r f)"
proof -
  from assms(2) obtain b where b: "r = Inr b" "ba_ok b" "ba_endian b = ba_endian ba"
    "ba_abs b = bs_write (ba_abs ba) xs" unfolding wrote_def by blast
  with assms(3) [OF b(2,3)] ba.pos_in_data [OF assms(1)] show ?thesis
    by (auto simp: wrote_def bs_write_append)
qed

lemma got_ba_read:
  assumes "ba_ok ba" "unread ba = xs @ rest" "xs \<noteq> []"
  shows "got ba xs (length xs) (ba_read ba (length xs))"
  using ba.rd_prefix [of ba xs rest] assms by (simp add: got_def)

lemma got_bind:
  assumes "got ba v n r" "unread ba = xs @ rest" "length xs = n"
    "\<And>b. ba_ok b \<Longrightarrow> ba_endian b = ba_endian ba \<Longrightarrow> unread b = rest \<Longrightarrow> got b w m (f (v, b))"
  shows "got ba w (n + m) (rbind r f)"
proof -
  from assms(1) obtain b where b: "r = Inr (v, b)" "ba_ok b" "ba_endian b = ba_endian ba"
    "ba_abs b = (ba_abs ba)\<lparr>bs_pos := ba_position ba + n\<rparr>" unfolding got_def by blast
  have c: "contents b = contents ba" "ba_position b = ba_position ba + n"
    using b(4) by (simp_all add: ba_abs_def)
  have "unread b = drop n (unread ba)" using c by (simp add: add.commute)
  then have "unread b = rest" using assms(2,3) by simp
  from assms(4) [OF b(2,3) this] b c show ?thesis by (auto simp: got_def add.assoc)
qed

lemma got_return: "got ba v n r \<Longrightarrow> got ba (f v) n (rbind r (\<lambda>(v, b). Inr (f v, b)))"
  by (auto simp: got_def)

lemma wrote_fixed:
  "ba_ok ba \<Longrightarrow> 8 dvd LENGTH('a) \<Longrightarrow> wrote ba (fixed_bytes (ba_endian ba) v) (write_fixed ba (v :: 'a::len word))"
  by (auto simp: write_fixed_def Let_def fixed_bytes_def to_mem_byteswap intro: wrote_ba_write)

lemma length_fixed_bytes [simp]: "length (fixed_bytes m (v :: 'a::len word)) = LENGTH('a) div 8"
  by (simp add: fixed_bytes_def)

lemma got_fixed:
  assumes "ba_ok ba" "8 dvd LENGTH('a)" "unread ba = fixed_bytes (ba_endian ba) (v :: 'a::len word) @ rest"
  shows "got ba v (LENGTH('a) div 8) (read_fixed ba)"
proof -
  let ?xs = "fixed_bytes (ba_endian ba) v"
  have ne: "?xs \<noteq> []" 
    using assms(2) len_gt_0 [where 'a = 'a] by (auto simp flip: length_0_conv elim!: dvdE simp del: len_gt_0)
  have "length ?xs * 8 = LENGTH('a)" using assms(2) by simp
  then show ?thesis
  using got_ba_read [OF assms(1,3) ne] assms(2)
  by (auto simp: got_def read_fixed_def fixed_bytes_def byteswap_of_mem split: if_splits)
qed

lemma wrote_u8: "ba_ok ba \<Longrightarrow> wrote ba [v] (WriteFint8 ba v)" "ba_ok ba \<Longrightarrow> wrote ba [v] (WriteFuint8 ba v)"
  by (simp_all add: WriteFint8_def WriteFuint8_def wrote_ba_write)

lemma got_u8:
  assumes "ba_ok ba" "unread ba = v # rest"
  shows "got ba v (Suc 0) (ReadFint8 ba)" "got ba v (Suc 0) (ReadFuint8 ba)"
  using got_ba_read [of ba "[v]" rest] assms by (auto simp: got_def ReadFint8_def ReadFuint8_def)

lemma wrote_varint:
  assumes "ba_ok ba" "8 \<le> LENGTH('a)" "LENGTH('a) \<le> 7 * cap" 
  shows "wrote ba (venc (unat (v :: 'a::len word))) (rbind (varint_fill cap [] v) (\<lambda>tmp. ba_write ba tmp))"
proof -
  have "unat v < 2 ^ LENGTH('a)" by simp
  also have "\<dots> \<le> 2 ^ (7 * cap)" using assms(3) by (intro power_increasing) auto
  finally have "length (venc (unat v)) \<le> cap" using assms(2,3) by (intro length_venc) auto
  then have "varint_fill cap [] v = Inr (venc (unat v))" using assms(2) by (simp add: varint_fill_venc)
  then show ?thesis using wrote_ba_write [OF assms(1)] by simp
qed

lemma got_varint:
  assumes "ba_ok ba" "unread ba = venc (unat v) @ rest"
  shows "got ba v (length (venc (unat v))) (read_varint LENGTH('a) 0 0 ba :: ('a::len word \<times> _) result)"
  using read_varint_ok [OF assms, of "LENGTH('a)" 0 "0 :: 'a word"] by (auto simp: got_def)

section \<open>Values of every kind\<close>

datatype kind =
    KFint8 | KFuint8 | KFint16 | KFuint16 | KFint32 | KFuint32
  | KFint64 | KFuint64 | KInt32 | KUint32 | KInt64 | KUint64
  | KFloat | KDouble | KStringF16 | KStringF32 | KStringF64 | KStringVint

datatype item =
    VFint8 u8 | VFuint8 u8 | VFint16 u16 | VFuint16 u16
  | VFint32 u32 | VFuint32 u32 | VFint64 u64 | VFuint64 u64
  | VInt32 u32 | VUint32 u32 | VInt64 u64 | VUint64 u64
  | VFloat u32 | VDouble u64 | VStringF16 "u8 list" | VStringF32 "u8 list"
  | VStringF64 "u8 list" | VStringVint "u8 list"

fun kind_of :: "item \<Rightarrow> kind" where
  "kind_of (VFint8 _) = KFint8"
| "kind_of (VFuint8 _) = KFuint8"
| "kind_of (VFint16 _) = KFint16"
| "kind_of (VFuint16 _) = KFuint16"
| "kind_of (VFint32 _) = KFint32"
| "kind_of (VFuint32 _) = KFuint32"
| "kind_of (VFint64 _) = KFint64"
| "kind_of (VFuint64 _) = KFuint64"
| "kind_of (VInt32 _) = KInt32"
| "kind_of (VUint32 _) = KUint32"
| "kind_of (VInt64 _) = KInt64"
| "kind_of (VUint64 _) = KUint64"
| "kind_of (VFloat _) = KFloat"
| "kind_of (VDouble _) = KDouble"
| "kind_of (VStringF16 _) = KStringF16"
| "kind_of (VStringF32 _) = KStringF32"
| "kind_of (VStringF64 _) = KStringF64"
| "kind_of (VStringVint _) = KStringVint"

fun put_item :: "byte_array \<Rightarrow> item \<Rightarrow> byte_array result" where
  "put_item ba (VFint8 v) = WriteFint8 ba v"
| "put_item ba (VFuint8 v) = WriteFuint8 ba v"
| "put_item ba (VFint16 v) = WriteFint16 ba v"
| "put_item ba (VFuint16 v) = WriteFuint16 ba v"
| "put_item ba (VFint32 v) = WriteFint32 ba v"
| "put_item ba (VFuint32 v) = WriteFuint32 ba v"
| "put_item ba (VFint64 v) = WriteFint64 ba v"
| "put_item ba (VFuint64 v) = WriteFuint64 ba v"
| "put_item ba (VInt32 v) = WriteInt32 ba v"
| "put_item ba (VUint32 v) = WriteUint32 ba v"
| "put_item ba (VInt64 v) = WriteInt64 ba v"
| "put_item ba (VUint64 v) = WriteUint64 ba v"
| "put_item ba (VFloat v) = WriteFloat ba v"
| "put_item ba (VDouble v) = WriteDouble ba v"
| "put_item ba (VStringF16 v) = WriteStringF16 ba v"
| "put_item ba (VStringF32 v) = WriteStringF32 ba v"
| "put_item ba (VStringF64 v) = WriteStringF64 ba v"
| "put_item ba (VStringVint v) = WriteStringVint ba v"

fun get_item :: "kind \<Rightarrow> byte_array \<Rightarrow> (item \<times> byte_array) result" where
  "get_item KFint8 ba = rbind (ReadFint8 ba) (\<lambda>(v, ba'). Inr (VFint8 v, ba'))"
| "get_item KFuint8 ba = rbind (ReadFuint8 ba) (\<lambda>(v, ba'). Inr (VFuint8 v, ba'))"
| "get_item KFint16 ba = rbind (ReadFint16 ba) (\<lambda>(v, ba'). Inr (VFint16 v, ba'))"
| "get_item KFuint16 ba = rbind (ReadFuint16 ba) (\<lambda>(v, ba'). Inr (VFuint16 v, ba'))"
| "get_item KFint32 ba = rbind (ReadFint32 ba) (\<lambda>(v, ba'). Inr (VFint32 v, ba'))"
| "get_item KFuint32 ba = rbind (ReadFuint32 ba) (\<lambda>(v, ba'). Inr (VFuint32 v, ba'))"
| "get_item KFint64 ba = rbind (ReadFint64 ba) (\<lambda>(v, ba'). Inr (VFint64 v, ba'))"
| "get_item KFuint64 ba = rbind (ReadFuint64 ba) (\<lambda>(v, ba'). Inr (VFuint64 v, ba'))"
| "get_item KInt32 ba = rbind (ReadInt32 ba) (\<lambda>(v, ba'). Inr (VInt32 v, ba'))"
| "get_item KUint32 ba = rbind (ReadUint32 ba) (\<lambda>(v, ba'). Inr (VUint32 v, ba'))"
| "get_item KInt64 ba = rbind (ReadInt64 ba) (\<lambda>(v, ba'). Inr (VInt64 v, ba'))"
| "get_item KUint64 ba = rbind (ReadUint64 ba) (\<lambda>(v, ba'). Inr (VUint64 v, ba'))"
| "get_item KFloat ba = rbind (ReadFloat ba) (\<lambda>(v, ba'). Inr (VFloat v, ba'))"
| "get_item KDouble ba = rbind (ReadDouble ba) (\<lambda>(v, ba'). Inr (VDouble v, ba'))"
| "get_item KStringF16 ba = rbind (ReadStringF16 ba) (\<lambda>(v, ba'). Inr (VStringF16 v, ba'))"
| "get_item KStringF32 ba = rbind (ReadStringF32 ba) (\<lambda>(v, ba'). Inr (VStringF32 v, ba'))"
| "get_item KStringF64 ba = rbind (ReadStringF64 ba) (\<lambda>(v, ba'). Inr (VStringF64 v, ba'))"
| "get_item KStringVint ba = rbind (ReadStringVint ba) (\<lambda>(v, ba'). Inr (VStringVint v, ba'))"

fun encoding :: "endian \<Rightarrow> item \<Rightarrow> u8 list" where
  "encoding m (VFint8 v) = [v]"
| "encoding m (VFuint8 v) = [v]"
| "encoding m (VFint16 v) = fixed_bytes m v"
| "encoding m (VFuint16 v) = fixed_bytes m v"
| "encoding m (VFint32 v) = fixed_bytes m v"
| "encoding m (VFuint32 v) = fixed_bytes m v"
| "encoding m (VFint64 v) = fixed_bytes m v"
| "encoding m (VFuint64 v) = fixed_bytes m v"
| "encoding m (VInt32 v) = venc (unat (EncodeZigzag32 v))"
| "encoding m (VUint32 v) = venc (unat v)"
| "encoding m (VInt64 v) = venc (unat (EncodeZigzag64 v))"
| "encoding m (VUint64 v) = venc (unat v)"
| "encoding m (VFloat v) = fixed_bytes m v"
| "encoding m (VDouble v) = fixed_bytes m v"
| "encoding m (VStringF16 s) = fixed_bytes m (of_nat (length s) :: u16) @ s"
| "encoding m (VStringF32 s) = fixed_bytes m (of_nat (length s) :: u32) @ s"
| "encoding m (VStringF64 s) = fixed_bytes m (of_nat (length s) :: u64) @ s"
| "encoding m (VStringVint s) = venc (length s) @ s"

fun item_ok :: "item \<Rightarrow> bool" where
  "item_ok (VStringF16 s) \<longleftrightarrow> s \<noteq> [] \<and> length s < 2 ^ 16"
| "item_ok (VStringF32 s) \<longleftrightarrow> s \<noteq> [] \<and> length s < 2 ^ 32"
| "item_ok (VStringF64 s) \<longleftrightarrow> s \<noteq> [] \<and> length s < 2 ^ 64"
| "item_ok (VStringVint s) \<longleftrightarrow> s \<noteq> [] \<and> length s < 2 ^ 64"
| "item_ok _ \<longleftrightarrow> True"

lemmas write_defs = WriteFint16_def WriteFuint16_def WriteFint32_def WriteFuint32_def
  WriteFint64_def WriteFuint64_def WriteFloat_def WriteDouble_def

lemmas read_defs = ReadFint16_def ReadFuint16_def ReadFint32_def ReadFuint32_def
  ReadFint64_def ReadFuint64_def ReadFloat_def ReadDouble_def

lemma wrote_varint32: "ba_ok ba \<Longrightarrow> wrote ba (venc (unat v)) (WriteUint32 ba v)"
  unfolding WriteUint32_def by (rule wrote_varint) auto

lemma wrote_varint64: "ba_ok ba \<Longrightarrow> wrote ba (venc (unat v)) (WriteUint64 ba v)"
  unfolding WriteUint64_def by (rule wrote_varint) auto

lemma wrote_string: "ba_ok ba \<Longrightarrow> wrote ba xs r \<Longrightarrow> wrote ba (xs @ s) (rbind r (\<lambda>b. ba_write b s))"
  by (rule wrote_bind) (auto intro: wrote_ba_write)

lemma put_item_wrote:
  assumes "ba_ok ba" "item_ok v"
  shows "wrote ba (encoding (ba_endian ba) v) (put_item ba v)"
proof (cases v)
  case (VStringVint s)
  then have "unat (of_nat (length s) :: u64) = length s" using assms(2) by (simp add: unat_of_nat)
  then have "wrote ba (venc (length s)) (WriteUint64 ba (of_nat (length s)))"
    using wrote_varint64 [OF assms(1), of "of_nat (length s)"] by simp
  from wrote_string [OF assms(1) this] VStringVint show ?thesis
    by (simp add: WriteStringVint_def)
qed (use assms in \<open>auto simp: write_defs WriteInt32_def WriteInt64_def WriteStringF16_def
      WriteStringF32_def WriteStringF64_def
    intro!: wrote_u8 wrote_fixed wrote_string wrote_varint32 wrote_varint64\<close>)

lemma got_varint32: "ba_ok ba \<Longrightarrow> unread ba = venc (unat v) @ rest \<Longrightarrow>
   got ba v (length (venc (unat v))) (ReadUint32 ba)"
  unfolding ReadUint32_def using got_varint [where 'a = 32, of ba v rest] by simp

lemma got_varint64: "ba_ok ba \<Longrightarrow> unread ba = venc (unat v) @ rest \<Longrightarrow>
   got ba v (length (venc (unat v))) (ReadUint64 ba)"
  unfolding ReadUint64_def using got_varint [where 'a = 64, of ba v rest] by simp

lemma got_string:
  assumes "got ba len (length xs) r" "unread ba = (xs @ s) @ rest" "s \<noteq> []" "unat len = length s"
  shows "got ba s (length (xs @ s)) (rbind r (\<lambda>(len, b). ba_read b (unat len)))"
proof -
  have "got ba s (length xs + length s) (rbind r (\<lambda>(len, b). ba_read b (unat len)))"
  proof (rule got_bind [OF assms(1)])
    show "unread ba = xs @ (s @ rest)" using assms(2) by simp
    show "got b s (length s) (case (len, b) of (len, b) \<Rightarrow> ba_read b (unat len))"
      if "ba_ok b" "ba_endian b = ba_endian ba" "unread b = s @ rest" for b
      using got_ba_read [OF that(1,3) assms(3)] assms(4) by simp
  qed simp
  then show ?thesis by simp
qed

lemma got_string_fixed:
  assumes "ba_ok ba" "8 dvd LENGTH('a)" "s \<noteq> []" "length s < 2 ^ LENGTH('a)"
    "unread ba = (fixed_bytes (ba_endian ba) (of_nat (length s) :: 'a::len word) @ s) @ rest"
  shows "got ba s (LENGTH('a) div 8 + length s)
    (rbind (read_fixed ba) (\<lambda>(len :: 'a word, b). ba_read b (unat len)))"
proof -
  have "unat (of_nat (length s) :: 'a word) = length s" using assms(4) by (simp add: unat_of_nat)
  moreover have "got ba (of_nat (length s) :: 'a word) (LENGTH('a) div 8) (read_fixed ba)"
    by (rule got_fixed) (use assms in auto)
  ultimately show ?thesis
    using got_string [of ba "of_nat (length s) :: 'a word" "fixed_bytes (ba_endian ba) (of_nat (length s) :: 'a word)" "read_fixed ba" s rest] assms by simp
qed



lemma got_string_vint:
  assumes "ba_ok ba" "s \<noteq> []" "length s < 2 ^ 64" "unread ba = (venc (length s) @ s) @ rest"
  shows "got ba s (length (venc (length s)) + length s) (ReadStringVint ba)"
proof -
  let ?len = "of_nat (length s) :: u64"
  have len: "unat ?len = length s" using assms(3) by (simp add: unat_of_nat)
  have "got ba ?len (length (venc (length s))) (ReadUint64 ba)"
    using got_varint64 [of ba ?len "s @ rest"] assms(1,4) len by simp
  from got_string [OF this assms(4,2) len] show ?thesis by (simp add: ReadStringVint_def)
qed

lemmas got_item = got_return [where f = "V :: 'v \<Rightarrow> item" for V]

lemma get_item_got:
  assumes "ba_ok ba" "item_ok v" "unread ba = encoding (ba_endian ba) v @ rest"
  shows "got ba v (length (encoding (ba_endian ba) v)) (get_item (kind_of v) ba)"
proof (cases v)
  case (VInt32 x)
  have "got ba (EncodeZigzag32 x) (length (venc (unat (EncodeZigzag32 x)))) (ReadUint32 ba)"
    by (rule got_varint32) (use assms VInt32 in auto)
  from got_return [OF got_return [OF this, of DecodeZigzag32], of VInt32] VInt32 show ?thesis
    by (simp add: ReadInt32_def)
next
  case (VInt64 x)
  have "got ba (EncodeZigzag64 x) (length (venc (unat (EncodeZigzag64 x)))) (ReadUint64 ba)"
    by (rule got_varint64) (use assms VInt64 in auto)
  from got_return [OF got_return [OF this, of DecodeZigzag64], of VInt64] VInt64 show ?thesis
    by (simp add: ReadInt64_def)
next
  case (VStringF16 s)
  from got_item [OF got_string_fixed [where 'a = 16, of ba s rest]] VStringF16 assms show ?thesis
    by (simp add: ReadStringF16_def read_defs)
next
  case (VStringF32 s)
  from got_item [OF got_string_fixed [where 'a = 32, of ba s rest]] VStringF32 assms show ?thesis
    by (simp add: ReadStringF32_def read_defs)
next
  case (VStringF64 s)
  from got_item [OF got_string_fixed [where 'a = 64, of ba s rest]] VStringF64 assms show ?thesis
    by (simp add: ReadStringF64_def read_defs)
next
  case (VStringVint s)
  from got_item [OF got_string_vint [of ba s rest]] VStringVint assms show ?thesis by simp
qed (use assms in \<open>auto simp: read_defs intro!: got_item got_u8 got_varint32 got_varint64
   dest: got_fixed [rotated 2]\<close>)

interpretation item: codec ba_write ba_read SetPosition ba_abs ba_ok ba_endian put_item get_item
  kind_of encoding item_ok
proof unfold_locales
  fix s v assume "ba_ok s" "item_ok v"
  from put_item_wrote [OF this]
  show "\<exists>s'. put_item s v = Inr s' \<and> ba_ok s' \<and> ba_endian s' = ba_endian s \<and>
      ba_abs s' = bs_write (ba_abs s) (encoding (ba_endian s) v)"
    by (simp add: wrote_def)
next
  fix s v rest
  assume "ba_ok s" "item_ok v" "drop (bs_pos (ba_abs s)) (bs_data (ba_abs s)) = encoding (ba_endian s) v @ rest"
  then show "\<exists>s'. get_item (kind_of v) s = Inr (v, s') \<and> ba_ok s' \<and> ba_endian s' = ba_endian s \<and>
      ba_abs s' = (ba_abs s)\<lparr>bs_pos := bs_pos (ba_abs s) + length (encoding (ba_endian s) v)\<rparr>"
    using get_item_got [of s v rest] by (simp add: got_def)
qed

lemma zz_unat: "uint (if sint v < 0 then (- v) * 2 - 1 else v * 2) =
  (if sint v < 0 then - 2 * sint v - 1 else 2 * sint (v :: 'a::len word))"
proof -
  let ?n = "if sint v < 0 then - 2 * sint v - 1 else 2 * sint v"
  have e: "(if sint v < 0 then (- v) * 2 - 1 else v * 2) = (of_int ?n :: 'a word)"
    by simp
  have b: "- (2 ^ (LENGTH('a) - 1)) \<le> sint v" "sint v < 2 ^ (LENGTH('a) - 1)"
    by (simp_all add: sint_greater_eq sint_less)
  have p: "2 * 2 ^ (LENGTH('a) - 1) = (2 :: int) ^ LENGTH('a)"
    by (metis len_gt_0 power_minus_mult mult.commute)
  have "0 \<le> ?n \<and> ?n < 2 ^ LENGTH('a)"
    using b p by auto
  then show ?thesis unfolding e by (simp add: uint_word_of_int take_bit_eq_mod)
qed

section \<open>Properties\<close>

lemma ByteArray_position: "ba_position (ByteArray f k) = 0"
  by (simp add: ByteArray_def)



text \<open>
  (C36) Variable-length integers never overrun the local array: \<open>WriteUint32\<close> needs at most 5 bytes and
  \<open>WriteUint64\<close> at most 10, and what they write is the base-128 encoding of the value.
\<close>

theorem varint_written:
  assumes "ba_ok ba"
  shows "\<exists>b4 b8. WriteUint32 ba v = Inr b4 \<and> ba_abs b4 = bs_write (ba_abs ba) (venc (unat v)) \<and>
     length (venc (unat v)) \<le> 5 \<and>
     WriteUint64 ba w = Inr b8 \<and> ba_abs b8 = bs_write (ba_abs ba) (venc (unat w)) \<and>
     length (venc (unat w)) \<le> 10"
proof -
  have "unat v < 2 ^ LENGTH(32)" "unat w < 2 ^ LENGTH(64)" by (rule unsigned_less)+
  then have "length (venc (unat v)) \<le> 5" "length (venc (unat w)) \<le> 10"
    by (auto intro!: length_venc)
  then show ?thesis
    using wrote_varint32 [OF assms, of v] wrote_varint64 [OF assms, of w] by (auto simp: wrote_def)
qed

theorem varint_written_witness:
  "\<exists>b4. WriteUint32 (ByteArray (\<lambda>_. 0) 4) 0xFFFFFFFF = Inr b4 \<and> length (venc (unat (0xFFFFFFFF :: u32))) \<le> 5"
  using varint_written [of "ByteArray (\<lambda>_. 0) 4" "0xFFFFFFFF"] by (auto simp: ByteArray_ok)

text \<open>
  Zigzag coding maps the signed value \<open>n \<ge> 0\<close> to \<open>2 n\<close> and \<open>n < 0\<close> to \<open>- 2 n - 1\<close>, at both widths, and
  decoding is its inverse from both sides, the smallest value of the type included.
\<close>

theorem zigzag_bijective:
  "uint (EncodeZigzag32 v) = (if sint v < 0 then - 2 * sint v - 1 else 2 * sint v) \<and>
   uint (EncodeZigzag64 w) = (if sint w < 0 then - 2 * sint w - 1 else 2 * sint w) \<and>
   DecodeZigzag32 (EncodeZigzag32 v) = v \<and> EncodeZigzag32 (DecodeZigzag32 v) = v \<and>
   DecodeZigzag64 (EncodeZigzag64 w) = w \<and> EncodeZigzag64 (DecodeZigzag64 w) = w"
proof -
  have "uint (EncodeZigzag32 v) = (if sint v < 0 then - 2 * sint v - 1 else 2 * sint v)"
    unfolding EncodeZigzag32_def by (rule zz_unat)
  moreover have "uint (EncodeZigzag64 w) = (if sint w < 0 then - 2 * sint w - 1 else 2 * sint w)"
    unfolding EncodeZigzag64_def by (rule zz_unat)
  ultimately show ?thesis by simp
qed

text \<open>
  In the default (big endian) mode an integer of fixed length goes out in network order, most
  significant byte first.
\<close>

theorem network_order:
  assumes "ba_ok ba" "\<not> IsLittleEndian ba"
  shows "\<exists>b. WriteFuint32 ba v = Inr b \<and> ba_abs b = bs_write (ba_abs ba)
     [ucast (drop_bit 24 v), ucast (drop_bit 16 v), ucast (drop_bit 8 v), ucast v]"
  using wrote_fixed [OF assms(1), of v] assms(2)
  by (cases "ba_endian ba") (auto simp: wrote_def WriteFuint32_def fixed_bytes_def to_mem_def IsLittleEndian_def
    SYLAR_BYTE_ORDER_def upt_rec)

theorem network_order_witness:
  "\<exists>b. WriteFuint32 (ByteArray (\<lambda>_. 0) 8) 0x01020304 = Inr b \<and> ba_abs b = \<lparr>bs_data = [1, 2, 3, 4], bs_pos = 4\<rparr>"
  using network_order [of "ByteArray (\<lambda>_. 0) 8" "0x01020304"]
  by (auto simp: ByteArray_ok, auto simp: ByteArray_def IsLittleEndian_def ba_abs_def bs_write_def
    contents_def overwrite_def drop_bit_eq_div)

text \<open>
  An empty string whose length prefix ends exactly at the end of the last block cannot be read
  back: \<open>ReadStringF16\<close> reads zero bytes there and dereferences the null \<open>cur_\<close>.
\<close>

theorem empty_string_at_block_end:
  "case rbind (WriteStringF16 (ByteArray (\<lambda>_. 0) 2) [])
     (\<lambda>b1. rbind (SetPosition b1 0) ReadStringF16) of Inl e \<Rightarrow> e = Null_Deref | Inr _ \<Rightarrow> False"
  by code_simp

end
