(* ===== verification/Byte_Buffers.thy ===== *)
theory Byte_Buffers
  imports Byte_Codec
begin

text \<open>
  The views of a byte buffer that leave it (\<open>util/bytearray.cc\<close>): arrays of \<open>iovec\<close> for scatter and
  gather I/O, dumps to and from files, and textual forms. An \<open>iovec\<close> points into a block of the
  chain: it is the block's index, the offset in it and a length. A file is the list of its bytes,
  \<open>None\<close> where it cannot be opened.
\<close>

section \<open>Scatter and gather\<close>

record iovec =
  iov_node :: nat
  iov_off :: nat
  iov_len :: nat

function buffers_loop :: "node list \<Rightarrow> iovec list \<Rightarrow> nat \<Rightarrow> nat \<Rightarrow> nat \<Rightarrow> nat \<Rightarrow> iovec list result" where
  "buffers_loop ns bufs cur npos ncap len =
     (if len = 0 then Inr bufs
      else rbind (deref ns cur) (\<lambda>n.
        if ncap \<ge> len then Inr (bufs @ [\<lparr>iov_node = cur, iov_off = npos, iov_len = len\<rparr>])
        else rbind (deref ns (Suc cur)) (\<lambda>n'.
          buffers_loop ns (bufs @ [\<lparr>iov_node = cur, iov_off = npos, iov_len = ncap\<rparr>])
            (Suc cur) 0 (node_size n') (len - ncap))))"
  by pat_completeness auto
termination
  by (relation "measure (\<lambda>(ns, bufs, cur, npos, ncap, len). length ns - cur)")
    (auto simp: deref_def split: if_splits)

declare buffers_loop.simps [simp del]

definition GetReadBuffers :: "byte_array \<Rightarrow> iovec list \<Rightarrow> nat \<Rightarrow> (iovec list \<times> nat) result" where
  "GetReadBuffers ba buffers len =
     (let len = (if len > GetReadSize ba then GetReadSize ba else len) in
      if len = 0 then Inr (buffers, 0)
      else if ba_base_size ba = 0 then Inl Div_By_Zero
      else let npos = ba_position ba mod ba_base_size ba in
        rbind (deref (ba_nodes ba) (ba_cur ba)) (\<lambda>n.
        rbind (buffers_loop (ba_nodes ba) buffers (ba_cur ba) npos (sub64 (node_size n) npos) len) (\<lambda>bufs.
        Inr (bufs, len))))"

text \<open>The walk \<open>while (count > 0) cur = cur->next\<close>, null once it passes the last block.\<close>

fun walk :: "node list \<Rightarrow> nat \<Rightarrow> nat \<Rightarrow> nat result" where
  "walk ns cur 0 = Inr cur"
| "walk ns cur (Suc count) = rbind (deref ns cur) (\<lambda>_. walk ns (Suc cur) count)"

definition GetReadBuffers_at ::
  "byte_array \<Rightarrow> iovec list \<Rightarrow> nat \<Rightarrow> nat \<Rightarrow> (iovec list \<times> nat) result" where
  "GetReadBuffers_at ba buffers len position =
     (let len = (if len > GetReadSize ba then GetReadSize ba else len) in
      if len = 0 then Inr (buffers, 0)
      else if ba_base_size ba = 0 then Inl Div_By_Zero
      else let npos = position mod ba_base_size ba; count = position div ba_base_size ba in
        rbind (walk (ba_nodes ba) 0 count) (\<lambda>cur.
        rbind (deref (ba_nodes ba) cur) (\<lambda>n.
        rbind (buffers_loop (ba_nodes ba) buffers cur npos (sub64 (node_size n) npos) len) (\<lambda>bufs.
        Inr (bufs, len)))))"

definition GetWriteBuffers ::
  "byte_array \<Rightarrow> iovec list \<Rightarrow> nat \<Rightarrow> (iovec list \<times> nat \<times> byte_array) result" where
  "GetWriteBuffers ba buffers len =
     (if len = 0 then Inr (buffers, 0, ba)
      else rbind (AddCapacity ba len) (\<lambda>ba.
        if ba_base_size ba = 0 then Inl Div_By_Zero
        else let npos = ba_position ba mod ba_base_size ba in
          rbind (deref (ba_nodes ba) (ba_cur ba)) (\<lambda>n.
          rbind (buffers_loop (ba_nodes ba) buffers (ba_cur ba) npos (sub64 (node_size n) npos) len) (\<lambda>bufs.
          Inr (bufs, len, ba)))))"

text \<open>What \<open>writev\<close> and \<open>sendmsg\<close> read through the buffers, and what \<open>readv\<close> and \<open>recvmsg\<close> store.\<close>

fun gather :: "node list \<Rightarrow> iovec list \<Rightarrow> u8 list result" where
  "gather ns [] = Inr []"
| "gather ns (b # bs) =
     rbind (deref ns (iov_node b)) (\<lambda>n.
     rbind (memcpy_out (node_ptr n) (iov_off b) (iov_len b)) (\<lambda>xs.
     rbind (gather ns bs) (\<lambda>ys. Inr (xs @ ys))))"

fun scatter :: "node list \<Rightarrow> iovec list \<Rightarrow> u8 list \<Rightarrow> node list result" where
  "scatter ns [] xs = Inr ns"
| "scatter ns (b # bs) xs =
     rbind (deref ns (iov_node b)) (\<lambda>n.
     rbind (memcpy_in (node_ptr n) (iov_off b) (take (iov_len b) xs)) (\<lambda>p.
     scatter (ns[iov_node b := n\<lparr>node_ptr := p\<rparr>]) bs (drop (iov_len b) xs)))"

section \<open>Files\<close>

text \<open>
  \<open>ofs.write\<close> with a negative count writes nothing and sets the stream's bad bit, after which
  nothing more is written.
\<close>

function write_file_loop ::
  "node list \<Rightarrow> nat \<Rightarrow> nat \<Rightarrow> bool \<Rightarrow> u8 list \<Rightarrow> int \<Rightarrow> int \<Rightarrow> u8 list result" where
  "write_file_loop ns base cur good out pos read_size =
     (if read_size > 0 then
        (let diff = nat (pos mod int base);
             len = (if read_size > int base then int base else read_size) - int diff in
         rbind (deref ns cur) (\<lambda>n.
         rbind (if good \<and> 0 \<le> len then memcpy_out (node_ptr n) diff (nat len) else Inr []) (\<lambda>xs.
         write_file_loop ns base (Suc cur) (good \<and> 0 \<le> len) (out @ xs) (pos + len) (read_size - len))))
      else Inr out)"
  by pat_completeness auto
termination
  by (relation "measure (\<lambda>(ns, base, cur, good, out, pos, read_size). length ns - cur)")
    (auto simp: deref_def split: if_splits)

declare write_file_loop.simps [simp del]

definition WriteToFile :: "byte_array \<Rightarrow> bool \<Rightarrow> (bool \<times> u8 list) result" where
  "WriteToFile ba opened =
     (if \<not> opened then Inr (False, [])
      else if GetReadSize ba > 0 \<and> ba_base_size ba = 0 then Inl Div_By_Zero
      else rbind (write_file_loop (ba_nodes ba) (ba_base_size ba) (ba_cur ba) True []
             (int (ba_position ba)) (int (GetReadSize ba))) (\<lambda>out. Inr (True, out)))"

partial_function (option) read_file_loop :: "nat \<Rightarrow> u8 list \<Rightarrow> byte_array \<Rightarrow> byte_array result option" where
  "read_file_loop base rest ba =
     (case ba_write ba (take base rest) of
        Inl e \<Rightarrow> Some (Inl e)
      | Inr ba' \<Rightarrow> if length rest < base then Some (Inr ba') else read_file_loop base (drop base rest) ba')"

definition ReadFromFile :: "byte_array \<Rightarrow> u8 list option \<Rightarrow> (bool \<times> byte_array) result option" where
  "ReadFromFile ba file =
     (case file of None \<Rightarrow> Some (Inr (False, ba))
      | Some bytes \<Rightarrow> map_option (\<lambda>r. rbind r (\<lambda>ba'. Inr (True, ba'))) (read_file_loop (ba_base_size ba) bytes ba))"

section \<open>Text\<close>

definition ToString :: "byte_array \<Rightarrow> u8 list result" where
  "ToString ba =
     (if GetReadSize ba = 0 then Inr [] else ba_read_at ba (GetReadSize ba) (ba_position ba))"

definition hex_digit :: "nat \<Rightarrow> char" where
  "hex_digit d = ''0123456789abcdef'' ! (d mod 16)"

definition hex_line_break :: "nat \<Rightarrow> string" where
  "hex_line_break i = (if i > 0 \<and> i mod 32 = 0 then [CHR 0x0A] else [])"

definition hex_byte :: "u8 \<Rightarrow> string" where
  "hex_byte b = [hex_digit (unat b div 16), hex_digit (unat b), CHR '' '']"

definition ToHexString :: "byte_array \<Rightarrow> string result" where
  "ToHexString ba = rbind (ToString ba) (\<lambda>str.
     Inr (concat (map (\<lambda>i. hex_line_break i @ hex_byte (str ! i)) [0..<length str])))"

section \<open>The buffers cover the bytes asked for\<close>

text \<open>The buffers of a stretch of the flat memory, block by block.\<close>

fun covers :: "nat \<Rightarrow> nat \<Rightarrow> nat \<Rightarrow> nat \<Rightarrow> iovec list \<Rightarrow> bool" where
  "covers k m a n [] \<longleftrightarrow> n = 0"
| "covers k m a n (b # bs) \<longleftrightarrow>
     iov_node b * k + iov_off b = a \<and> iov_node b < m \<and> iov_off b + iov_len b \<le> k \<and> 0 < iov_len b \<and>
     iov_len b \<le> n \<and> covers k m (a + iov_len b) (n - iov_len b) bs"

lemma buffers_loop_covers:
  assumes "0 < k" "nodes_ok k ns" "cur < length ns" "npos < k" "0 < len" "ncap = k - npos"
    and "cur * k + npos + len \<le> length ns * k"
  shows "\<exists>bs. buffers_loop ns bufs cur npos ncap len = Inr (bufs @ bs) \<and>
     covers k (length ns) (cur * k + npos) len bs"
  using assms
proof (induction ns bufs cur npos ncap len rule: buffers_loop.induct)
  case (1 ns bufs cur npos ncap len)
  note prems = "1.prems"
  show ?case
  proof (cases "len \<le> ncap")
    case True
    with prems show ?thesis by (subst buffers_loop.simps) auto
  next
    case False
    have next_: "Suc cur < length ns" by (rule next_block [of _ k npos len]) (use prems False in auto)
    have nsz: "node_size (ns ! Suc cur) = k" using prems next_ nodes_ok_nth by blast
    have e: "Suc cur * k + 0 = cur * k + npos + ncap" using prems by simp
    have lt: "k < len + npos" using prems False by simp
    obtain bs where "buffers_loop ns (bufs @ [\<lparr>iov_node = cur, iov_off = npos, iov_len = ncap\<rparr>]) (Suc cur) 0
        k (len - ncap) = Inr ((bufs @ [\<lparr>iov_node = cur, iov_off = npos, iov_len = ncap\<rparr>]) @ bs)"
        "covers k (length ns) (cur * k + npos + ncap) (len - ncap) bs"
      using "1.IH" [of "ns ! cur" "ns ! Suc cur"] False prems next_ lt unfolding e [symmetric]
      by (auto simp: nsz)
    with False prems next_ nsz show ?thesis by (subst buffers_loop.simps) auto
  qed
qed

lemma gather_covers:
  "covers k (length ns) a n bs \<Longrightarrow> nodes_ok k ns \<Longrightarrow>
   gather ns bs = Inr (take n (drop a (concat (map node_ptr ns))))"
proof (induction bs arbitrary: a n)
  case (Cons b bs)
  from Cons.prems have "memcpy_out (node_ptr (ns ! iov_node b)) (iov_off b) (iov_len b) =
      Inr (take (iov_len b) (drop a (concat (map node_ptr ns))))"
    using memcpy_out_block [of k ns "iov_node b" "iov_off b" "iov_len b"] by simp
  moreover have "gather ns bs =
      Inr (take (n - iov_len b) (drop (a + iov_len b) (concat (map node_ptr ns))))"
    using Cons by simp
  ultimately show ?case
    using Cons.prems take_drop_split [of "iov_len b" n a "concat (map node_ptr ns)"] by simp
qed simp

lemma scatter_covers:
  "covers k (length ns) a n bs \<Longrightarrow> nodes_ok k ns \<Longrightarrow> length xs = n \<Longrightarrow>
   \<exists>ms. scatter ns bs xs = Inr ms \<and> nodes_ok k ms \<and> length ms = length ns \<and>
     concat (map node_ptr ms) = overwrite a xs (concat (map node_ptr ns))"
proof (induction bs arbitrary: a n xs ns)
  case (Cons b bs)
  let ?ys = "take (iov_len b) xs" and ?mem = "concat (map node_ptr ns)"
  have len: "length ?ys = iov_len b" using Cons.prems by simp
  from Cons.prems len obtain p where p: "memcpy_in (node_ptr (ns ! iov_node b)) (iov_off b) ?ys = Inr p"
      "nodes_ok k (ns[iov_node b := (ns ! iov_node b)\<lparr>node_ptr := p\<rparr>])"
      "concat (map node_ptr (ns[iov_node b := (ns ! iov_node b)\<lparr>node_ptr := p\<rparr>])) = overwrite a ?ys ?mem"
    using memcpy_in_block [of k ns "iov_node b" "iov_off b" ?ys] by auto
  let ?ns = "ns[iov_node b := (ns ! iov_node b)\<lparr>node_ptr := p\<rparr>]"
  have "Suc (iov_node b) * k \<le> length ns * k" using Cons.prems by (intro mult_le_mono1) simp
  then have fit: "a + length ?ys \<le> length ?mem"
    using Cons.prems len length_mem [of k ns] by simp
  from Cons.IH [of ?ns "a + iov_len b" "n - iov_len b" "drop (iov_len b) xs"] Cons.prems p
  obtain ms where "scatter ?ns bs (drop (iov_len b) xs) = Inr ms" "nodes_ok k ms" "length ms = length ns"
      "concat (map node_ptr ms) = overwrite (a + iov_len b) (drop (iov_len b) xs) (overwrite a ?ys ?mem)"
    by auto
  with p Cons.prems overwrite_overwrite [OF fit, of "drop (iov_len b) xs"] len show ?case by auto
qed simp

text \<open>The block of the cursor and the room in it, as the three callers compute them.\<close>

lemma buffers_at_cursor:
  assumes ok: "ba_ok ba" and n: "0 < n" "ba_position ba + n \<le> ba_capacity ba"
  shows "\<exists>bs. rbind (deref (ba_nodes ba) (ba_cur ba)) (\<lambda>nd.
      rbind (buffers_loop (ba_nodes ba) bufs (ba_cur ba) (ba_position ba mod ba_base_size ba)
        (sub64 (node_size nd) (ba_position ba mod ba_base_size ba)) n) f) = f (bufs @ bs) \<and>
    covers (ba_base_size ba) (length (ba_nodes ba)) (ba_position ba) n bs"
proof -
  let ?k = "ba_base_size ba" and ?p = "ba_position ba"
  have c: "ba_cur ba < length (ba_nodes ba)" using ba_ok_cursor(2) [OF ok] n by simp
  have k: "0 < ?k" "nodes_ok ?k (ba_nodes ba)" "ba_capacity ba = length (ba_nodes ba) * ?k"
    using ok by (auto simp: ba_ok_def)
  have nsz: "node_size (ba_nodes ba ! ba_cur ba) = ?k" using k c nodes_ok_nth by blast
  have e: "ba_cur ba * ?k + ?p mod ?k = ?p" using ba_ok_cursor(1) [OF ok] .
  have "?p mod ?k < ?k" using k by simp
  then show ?thesis
    using buffers_loop_covers [of ?k "ba_nodes ba" "ba_cur ba" "?p mod ?k" n "?k - ?p mod ?k" bufs]
      k c n nsz unfolding e by auto
qed

lemma GetReadBuffers_ok:
  assumes ok: "ba_ok ba"
  shows "\<exists>bs. GetReadBuffers ba bufs len = Inr (bufs @ bs, min len (GetReadSize ba)) \<and>
    gather (ba_nodes ba) bs = Inr (take len (unread ba))"
proof (cases "min len (GetReadSize ba) = 0")
  case True
  then show ?thesis using ok
    by (intro exI [of _ "[]"]) (auto simp: GetReadBuffers_def GetReadSize_def ba_ok_def length_contents min_def split: if_splits)
next
  case False
  define n where "n = min len (GetReadSize ba)"
  have sz: "GetReadSize ba = ba_size ba - ba_position ba" "ba_position ba \<le> ba_size ba"
      "ba_size ba \<le> ba_capacity ba" "ba_base_size ba \<noteq> 0" "nodes_ok (ba_base_size ba) (ba_nodes ba)"
    using ok by (auto simp: GetReadSize_def ba_ok_def)
  have fit: "ba_position ba + n \<le> ba_size ba" "ba_position ba + n \<le> ba_capacity ba" "0 < n"
    using sz False by (auto simp: n_def)
  have e: "(if GetReadSize ba < len then GetReadSize ba else len) = n" by (simp add: n_def)
  obtain bs where bs: "GetReadBuffers ba bufs len = Inr (bufs @ bs, n)"
      "covers (ba_base_size ba) (length (ba_nodes ba)) (ba_position ba) n bs"
    using buffers_at_cursor [OF ok fit(3,2), of bufs "\<lambda>b. Inr (b, n)"] sz(4) fit(3)
    unfolding GetReadBuffers_def e by (auto simp: Let_def)
  have "gather (ba_nodes ba) bs = Inr (take n (unread ba))"
    using gather_covers [OF bs(2) sz(5)] take_drop_contents [OF fit(1)] by (simp add: ba_mem_def)
  moreover have "take n (unread ba) = take len (unread ba)"
    using sz(1) length_contents [OF ok] by (auto simp: min_def n_def)
  ultimately show ?thesis using bs(1) by (auto simp: n_def)
qed

lemma ToString_ok: "ba_ok ba \<Longrightarrow> ToString ba = Inr (unread ba)"
proof (cases "GetReadSize ba = 0")
  case True
  assume "ba_ok ba"
  with True show ?thesis
    by (simp add: ToString_def GetReadSize_def length_contents) (simp add: ba_ok_def)
next
  case False
  assume ok: "ba_ok ba"
  then have sz: "ba_position ba \<le> ba_size ba" "ba_size ba \<le> ba_capacity ba" by (auto simp: ba_ok_def)
  have "ba_read_at ba (GetReadSize ba) (ba_position ba) = Inr (take (GetReadSize ba) (unread ba))"
    by (rule ba_read_at_ok [OF ok]) (use sz False ok in \<open>auto simp: GetReadSize_def ba_ok_def\<close>)
  with False sz show ?thesis by (simp add: ToString_def GetReadSize_def length_contents [OF ok])
qed

lemma write_file_loop_aligned:
  assumes "0 < k" "nodes_ok k ns" "int cur * int k = pos" "0 \<le> rs" "nat pos + nat rs \<le> length ns * k"
  shows "write_file_loop ns k cur True out pos rs =
    Inr (out @ take (nat rs) (drop (nat pos) (concat (map node_ptr ns))))"
  using assms
proof (induction "length ns - cur" arbitrary: cur out pos rs rule: less_induct)
  case less
  note prems = less.prems
  let ?mem = "concat (map node_ptr ns)"
  show ?case
  proof (cases "rs > 0")
    case True
    have p: "nat pos = cur * k" using prems(3) by (metis nat_int of_nat_mult)
    have "cur * k < length ns * k" using True prems(5) p by linarith
    then have c: "cur < length ns" by simp
    define len where "len = min rs (int k)"
    have len: "0 < len" "len \<le> int k" "len \<le> rs" using True prems(1) by (auto simp: len_def)
    have out: "memcpy_out (node_ptr (ns ! cur)) 0 (nat len) = Inr (take (nat len) (drop (cur * k) ?mem))"
      using memcpy_out_block [OF prems(2) c, of 0 "nat len"] len by simp
    have m: "pos mod int k = 0" using prems(3) by (metis mod_mult_self2_is_0 mult.commute)
    have step: "write_file_loop ns k cur True out pos rs =
        write_file_loop ns k (Suc cur) True (out @ take (nat len) (drop (nat pos) ?mem)) (pos + len) (rs - len)"
      using True c out len m p unfolding len_def min_def
      by (subst write_file_loop.simps) (auto simp: Let_def)
    show ?thesis
    proof (cases "rs - len = 0")
      case True
      then show ?thesis unfolding step by (simp add: write_file_loop.simps)
    next
      case False
      then have lk: "len = int k" using len by (auto simp: len_def min_def split: if_splits)
      have n: "nat (pos + len) = nat pos + k" "nat (rs - len) = nat rs - k" "k \<le> nat rs"
        using lk len prems(3,4) by (auto simp: nat_add_distrib)
      have "write_file_loop ns k (Suc cur) True (out @ take (nat len) (drop (nat pos) ?mem)) (pos + len) (rs - len) =
          Inr ((out @ take (nat len) (drop (nat pos) ?mem)) @ take (nat (rs - len)) (drop (nat (pos + len)) ?mem))"
        by (rule less.hyps) (use prems lk len c n in \<open>auto simp: algebra_simps intro: diff_less_mono2\<close>)
      then show ?thesis
        unfolding step using take_drop_split [OF n(3), of "nat pos" ?mem] n(1,2) lk by simp
    qed
  next
    case False
    with prems(4) show ?thesis by (subst write_file_loop.simps) simp
  qed
qed

lemma write_file_first:
  assumes "0 < k" "nodes_ok k ns" "cur < length ns" "d < k" "rs > int k"
    and "cur * k + d + nat rs \<le> length ns * k"
  shows "write_file_loop ns k cur True out (int (cur * k + d)) rs =
    Inr (out @ take (nat rs) (drop (cur * k + d) (concat (map node_ptr ns))))"
proof -
  let ?mem = "concat (map node_ptr ns)"
  define e where "e = k - d"
  have e: "int k - int d = int e" "e \<le> nat rs" "cur * k + d + e = Suc cur * k"
    using assms(4,5) by (auto simp: e_def)
  have r: "nat rs - e = nat (rs - int e)" using e(2) by auto
  have out: "memcpy_out (node_ptr (ns ! cur)) d e = Inr (take e (drop (cur * k + d) ?mem))"
    using memcpy_out_block [OF assms(2,3), of d e] assms(4) by (simp add: e_def)
  have m: "nat (int (cur * k + d) mod int k) = d"
    using assms(4) by (simp flip: of_nat_mod)
  have step: "write_file_loop ns k cur True out (int (cur * k + d)) rs =
      write_file_loop ns k (Suc cur) True (out @ take e (drop (cur * k + d) ?mem))
        (int (cur * k + d) + int e) (rs - int e)"
    using assms(3,4,5) out
    by (subst write_file_loop.simps) (simp add: Let_def m e(1) del: of_nat_add of_nat_mult)
  have p: "int (cur * k + d) + int e = int (Suc cur) * int k" using e(3) by (metis of_nat_add of_nat_mult)
  have n: "nat (int (Suc cur) * int k) = cur * k + d + e" using e(3) by (metis nat_int of_nat_mult)
  have "write_file_loop ns k (Suc cur) True (out @ take e (drop (cur * k + d) ?mem))
      (int (Suc cur) * int k) (rs - int e) =
    Inr ((out @ take e (drop (cur * k + d) ?mem)) @
      take (nat (rs - int e)) (drop (nat (int (Suc cur) * int k)) ?mem))"
    by (rule write_file_loop_aligned) (use assms r n e in auto)
  then show ?thesis
    unfolding step p n r [symmetric] using take_drop_split [OF e(2), of "cur * k + d" ?mem] by simp
qed

lemma read_file_loop_ok:
  assumes "0 < base" "ba_ok ba"
  shows "\<exists>ba'. read_file_loop base rest ba = Some (Inr ba') \<and> ba_ok ba' \<and> ba_abs ba' = bs_write (ba_abs ba) rest"
  using assms
proof (induction "length rest" arbitrary: rest ba rule: less_induct)
  case less
  obtain b1 where b1: "ba_write ba (take base rest) = Inr b1" "ba_ok b1"
      "ba_abs b1 = bs_write (ba_abs ba) (take base rest)"
    using ba.wr [OF less.prems(2)] by blast
  show ?case
  proof (cases "length rest < base")
    case True
    with b1 show ?thesis by (subst read_file_loop.simps) simp
  next
    case False
    with less.prems have "length (drop base rest) < length rest" by simp
    from less.hyps [OF this less.prems(1) b1(2)] b1 False ba.pos_in_data [OF less.prems(2)]
    show ?thesis by (subst read_file_loop.simps) (auto simp: bs_write_append)
  qed
qed

section \<open>Properties\<close>

text \<open>
  The buffers \<open>GetReadBuffers\<close> hands out are exactly the unread bytes, up to the length asked for: the
  call returns that many bytes, appends to the vector, and gathering through the new buffers (what
  \<open>writev\<close> sends) yields the bytes \<open>read\<close> would return.
\<close>

theorem read_buffers_gather:
  assumes "ba_ok ba"
  shows "\<exists>bs. GetReadBuffers ba bufs len = Inr (bufs @ bs, min len (GetReadSize ba)) \<and>
    gather (ba_nodes ba) bs = Inr (take len (unread ba))"
  using GetReadBuffers_ok [OF assms] .

theorem read_buffers_gather_witness:
  "\<exists>bs. GetReadBuffers five_bytes [] 9 = Inr (bs, 1) \<and> gather (ba_nodes five_bytes) bs = Inr [5]"
proof -
  have ok: "ba_ok five_bytes" by (simp add: five_bytes_def ba_ok_def ByteArray_def nodes_ok_def)
  have "min 9 (GetReadSize five_bytes) = 1" "take 9 (unread five_bytes) = [5]"
    by (simp_all add: five_bytes_def ByteArray_def GetReadSize_def contents_def ba_mem_def)
  with read_buffers_gather [OF ok, of "[]" 9] show ?thesis by auto
qed

text \<open>
  (C38) Receiving through \<open>GetWriteBuffers\<close> equals writing: the buffers have room for the length asked for,
  storing that many bytes through them (what \<open>readv\<close> does) and then moving the position past them
  leaves the abstract buffer that \<open>write\<close> of those bytes leaves.
\<close>

theorem write_buffers_scatter:
  assumes "ba_ok ba" "length xs = len" "0 < len"
  shows "\<exists>bs ba1 ns ba2. GetWriteBuffers ba bufs len = Inr (bufs @ bs, len, ba1) \<and>
    scatter (ba_nodes ba1) bs xs = Inr ns \<and>
    SetPosition (ba1\<lparr>ba_nodes := ns\<rparr>) (ba_position ba + len) = Inr ba2 \<and>
    ba_ok ba2 \<and> ba_abs ba2 = bs_write (ba_abs ba) xs"
proof -
  obtain a where a: "AddCapacity ba len = Inr a" "ba_ok a" "ba_abs a = ba_abs ba" "ba_size a = ba_size ba"
      "ba_position ba + len \<le> ba_capacity a"
    using AddCapacity_ok [OF assms(1), of len] by blast
  let ?k = "ba_base_size a"
  have pos: "ba_position a = ba_position ba" "contents a = contents ba" using a(3) by (simp_all add: ba_abs_def)
  have k: "0 < ?k" "nodes_ok ?k (ba_nodes a)" "ba_capacity a = length (ba_nodes a) * ?k"
      "ba_position a \<le> ba_size a" "ba_size a \<le> ba_capacity a" "ba_nodes a \<noteq> []"
    using a(2) by (auto simp: ba_ok_def)
  obtain bs where bs: "GetWriteBuffers ba bufs len = Inr (bufs @ bs, len, a)"
      "covers ?k (length (ba_nodes a)) (ba_position a) len bs"
    using buffers_at_cursor [OF a(2) assms(3), of bufs "\<lambda>b. Inr (b, len, a)"] a(1,5) k(1) assms(3) pos
    by (auto simp: GetWriteBuffers_def Let_def)
  obtain ns where ns: "scatter (ba_nodes a) bs xs = Inr ns" "nodes_ok ?k ns" "length ns = length (ba_nodes a)"
      "concat (map node_ptr ns) = overwrite (ba_position a) xs (ba_mem a)"
    using scatter_covers [OF bs(2) k(2) assms(2)] by (auto simp: ba_mem_def)
  let ?b = "a\<lparr>ba_nodes := ns\<rparr>"
  have okb: "ba_ok ?b" using a(2) ns by (auto simp: ba_ok_def)
  let ?v = "ba_position ba + len"
  let ?c = "?b\<lparr>ba_position := ?v, ba_size := max ?v (ba_size a), ba_cur := ?v div ?k\<rparr>"
  have seek: "SetPosition ?b ?v = Inr ?c" using SetPosition_ok [OF okb, of ?v] a(5) by simp
  have "contents ?c = take (max (ba_size a) (ba_position a + length xs)) (overwrite (ba_position a) xs (ba_mem a))"
    using ns(4) pos assms(2) by (simp add: contents_def ba_mem_def max.commute)
  also have "\<dots> = overwrite (ba_position a) xs (contents a)"
    unfolding contents_def using k(4,5) a(5) assms(2) pos length_ba_mem [OF a(2)]
    by (intro take_overwrite) simp_all
  finally have "ba_abs ?c = bs_write (ba_abs ba) xs"
    using pos assms(2) by (simp add: ba_abs_def bs_write_def)
  with bs(1) ns(1) seek SetPosition_keeps_ok [OF okb seek] show ?thesis by blast
qed

theorem write_buffers_scatter_witness:
  "\<exists>bs ba1 ns ba2. GetWriteBuffers (ByteArray (\<lambda>_. 0) 2) [] 3 = Inr (bs, 3, ba1) \<and>
    scatter (ba_nodes ba1) bs [7, 8, 9] = Inr ns \<and> SetPosition (ba1\<lparr>ba_nodes := ns\<rparr>) 3 = Inr ba2 \<and>
    ba_abs ba2 = \<lparr>bs_data = [7, 8, 9], bs_pos = 3\<rparr>"
proof -
  have e: "bs_write (ba_abs (ByteArray (\<lambda>_. 0) 2)) [7, 8, 9] = \<lparr>bs_data = [7, 8, 9], bs_pos = 3\<rparr>"
    "ba_position (ByteArray (\<lambda>_. 0) 2) = 0"
    by (simp_all add: bs_write_def ba_abs_def contents_def ByteArray_def overwrite_def)
  show ?thesis
    using write_buffers_scatter [of "ByteArray (\<lambda>_. 0) 2" "[7, 8, 9]" 3 "[]"] unfolding e
    by (auto simp: ByteArray_ok)
qed

text \<open>
  \<open>ToString\<close> returns the unread bytes and never fails on a well-formed buffer, and \<open>ToHexString\<close> prints
  each of them as two hexadecimal digits and a space, with a line break before every 32nd.
\<close>

theorem ToString_unread:
  assumes "ba_ok ba"
  shows "ToString ba = Inr (unread ba) \<and>
    ToHexString ba = Inr (concat (map (\<lambda>i. hex_line_break i @ hex_byte (unread ba ! i)) [0..<length (unread ba)]))"
  using ToString_ok [OF assms] by (simp add: ToHexString_def)

theorem ToString_unread_witness: "ToHexString five_bytes = Inr ''05 ''"
proof -
  have ok: "ba_ok five_bytes" by (simp add: five_bytes_def ba_ok_def ByteArray_def nodes_ok_def)
  have u: "unread five_bytes = [5]"
    by (simp add: five_bytes_def ByteArray_def contents_def ba_mem_def)
  show ?thesis
    using ToString_unread [OF ok] unfolding u by (simp add: hex_line_break_def hex_byte_def hex_digit_def)
qed

text \<open>
  A dump to a file holds exactly the unread bytes when the cursor is at the start of a block or more
  than one block's worth of bytes is unread; reading a file appends its whole contents at the cursor,
  and both end. In the remaining case (cursor inside a block, at most a block left) the
  length of the first chunk is computed wrongly.
\<close>

theorem file_dump:
  assumes "ba_ok ba"
  shows "(ba_position ba mod ba_base_size ba = 0 \<or> GetReadSize ba > ba_base_size ba \<longrightarrow>
      WriteToFile ba True = Inr (True, unread ba)) \<and>
    (\<exists>ba'. ReadFromFile ba (Some bytes) = Some (Inr (True, ba')) \<and> ba_ok ba' \<and>
      ba_abs ba' = bs_write (ba_abs ba) bytes)"
proof
  let ?k = "ba_base_size ba" and ?p = "ba_position ba" and ?n = "GetReadSize ba"
  have k: "0 < ?k" "nodes_ok ?k (ba_nodes ba)" "?p \<le> ba_size ba" "ba_size ba \<le> ba_capacity ba"
      "ba_capacity ba = length (ba_nodes ba) * ?k" "ba_cur ba = ?p div ?k"
    using assms by (auto simp: ba_ok_def)
  have n: "?n = ba_size ba - ?p" using k by (simp add: GetReadSize_def)
  have fit: "?p + ?n \<le> length (ba_nodes ba) * ?k" using k n by simp
  have mem: "take ?n (drop ?p (concat (map node_ptr (ba_nodes ba)))) = unread ba"
    using take_drop_contents [of ?p ?n ba] k(3) n length_contents [OF assms] by (simp add: ba_mem_def)
  show "?p mod ?k = 0 \<or> ?n > ?k \<longrightarrow> WriteToFile ba True = Inr (True, unread ba)"
  proof (intro impI, elim disjE)
    assume "?p mod ?k = 0"
    then have "int (ba_cur ba) * int ?k = int ?p" using ba_ok_cursor(1) [OF assms] by (simp flip: of_nat_mult)
    then show "WriteToFile ba True = Inr (True, unread ba)"
      using write_file_loop_aligned [of ?k "ba_nodes ba" "ba_cur ba" "int ?p" "int ?n" "[]"] k(1,2) fit mem
      by (simp add: WriteToFile_def)
  next
    assume big: "?n > ?k"
    have c: "ba_cur ba < length (ba_nodes ba)" using ba_ok_cursor(2) [OF assms] big k n by linarith
    have e: "ba_cur ba * ?k + ?p mod ?k = ?p" using ba_ok_cursor(1) [OF assms] .
    show "WriteToFile ba True = Inr (True, unread ba)"
      using write_file_first [of ?k "ba_nodes ba" "ba_cur ba" "?p mod ?k" "int ?n" "[]"] k(1,2) fit c big mem
      unfolding e by (simp add: WriteToFile_def)
  qed
  show "\<exists>ba'. ReadFromFile ba (Some bytes) = Some (Inr (True, ba')) \<and> ba_ok ba' \<and>
      ba_abs ba' = bs_write (ba_abs ba) bytes"
    using read_file_loop_ok [OF k(1) assms, of bytes] by (auto simp: ReadFromFile_def)
qed

theorem file_dump_witness:
  "WriteToFile five_bytes True = Inr (True, [5]) \<and>
   WriteToFile ((ByteArray (\<lambda>_. 0) 4)\<lparr>ba_size := 4, ba_position := 2\<rparr>) True = Inl Null_Deref"
proof -
  have ok: "ba_ok five_bytes" by (simp add: five_bytes_def ba_ok_def ByteArray_def nodes_ok_def)
  have "ba_position five_bytes mod ba_base_size five_bytes = 0" "unread five_bytes = [5]"
    by (simp_all add: five_bytes_def ByteArray_def contents_def ba_mem_def)
  with file_dump [OF ok] have "WriteToFile five_bytes True = Inr (True, [5])" by simp
  moreover have "WriteToFile ((ByteArray (\<lambda>_. 0) 4)\<lparr>ba_size := 4, ba_position := 2\<rparr>) True = Inl Null_Deref"
    by (simp add: WriteToFile_def ByteArray_def Node_def GetReadSize_def write_file_loop.simps
      deref_def memcpy_out_def Let_def)
  ultimately show ?thesis by simp
qed

end
