(* ===== verification/Std_String.thy ===== *)
theory Std_String
  imports Prelude
begin

text \<open>
  What the source uses of \<open>std::string\<close> and of the C character functions: searches, \<open>substr\<close>, and
  the ASCII classes of the C locale. A position is \<open>None\<close> for \<open>npos\<close>.
\<close>

section \<open>Searching\<close>

definition find_char :: "char \<Rightarrow> string \<Rightarrow> nat \<Rightarrow> nat option" where
  "find_char c s pos =
     (let n = pos + length (takeWhile (\<lambda>x. x \<noteq> c) (drop pos s)) in if n < length s then Some n else None)"

definition rfind_char :: "char \<Rightarrow> string \<Rightarrow> nat option" where
  "rfind_char c s = (let n = length (dropWhile (\<lambda>x. x \<noteq> c) (rev s)) in if n = 0 then None else Some (n - 1))"

definition find_first_not_of :: "string \<Rightarrow> string \<Rightarrow> nat option" where
  "find_first_not_of s delimit =
     (let n = length (takeWhile (\<lambda>x. x \<in> set delimit) s) in if n < length s then Some n else None)"

definition find_last_not_of :: "string \<Rightarrow> string \<Rightarrow> nat option" where
  "find_last_not_of s delimit =
     (let n = length (dropWhile (\<lambda>x. x \<in> set delimit) (rev s)) in if n = 0 then None else Some (n - 1))"

text \<open>\<open>substr(pos)\<close> and \<open>substr(pos, n)\<close> throw \<open>std::out_of_range\<close> when \<open>pos\<close> is past the end.\<close>

definition substr_from :: "string \<Rightarrow> nat \<Rightarrow> string result" where
  "substr_from s pos = (if pos \<le> length s then Inr (drop pos s) else Inl Out_Of_Range)"

definition substr :: "string \<Rightarrow> nat \<Rightarrow> nat \<Rightarrow> string result" where
  "substr s pos n = (if pos \<le> length s then Inr (take n (drop pos s)) else Inl Out_Of_Range)"

lemma find_char_Some:
  assumes "find_char c s pos = Some n"
  shows "pos \<le> n" "n < length s" "s ! n = c" "\<forall>i. pos \<le> i \<and> i < n \<longrightarrow> s ! i \<noteq> c"
proof -
  let ?t = "takeWhile (\<lambda>x. x \<noteq> c) (drop pos s)"
  from assms have n: "n = pos + length ?t" "n < length s"
    by (simp_all add: find_char_def Let_def split: if_splits)
  then show "pos \<le> n" "n < length s" by simp_all
  from n have "length ?t < length (drop pos s)" by simp
  from nth_length_takeWhile [OF this] n show "s ! n = c" by simp
  show "\<forall>i. pos \<le> i \<and> i < n \<longrightarrow> s ! i \<noteq> c"
  proof (intro allI impI)
    fix i assume i: "pos \<le> i \<and> i < n"
    then have "i - pos < length ?t" using n by linarith
    then have "?t ! (i - pos) = drop pos s ! (i - pos)" "?t ! (i - pos) \<in> set ?t"
      by (rule takeWhile_nth, rule nth_mem)
    with i n show "s ! i \<noteq> c" using set_takeWhileD [of "s ! i" "\<lambda>x. x \<noteq> c" "drop pos s"] by simp
  qed
qed

lemma find_char_None: "find_char c s pos = None \<Longrightarrow> c \<notin> set (drop pos s)"
proof -
  assume "find_char c s pos = None"
  then have "length (drop pos s) \<le> length (takeWhile (\<lambda>x. x \<noteq> c) (drop pos s))"
    by (simp add: find_char_def Let_def split: if_splits)
  then have "takeWhile (\<lambda>x. x \<noteq> c) (drop pos s) = drop pos s"
    using length_takeWhile_le [of "\<lambda>x. x \<noteq> c" "drop pos s"] by (metis le_antisym takeWhile_eq_take take_all)
  then show ?thesis by (metis (full_types) takeWhile_eq_all_conv)
qed

lemma rfind_char_split:
  "rfind_char c s = None \<Longrightarrow> c \<notin> set s"
  "rfind_char c s = Some n \<Longrightarrow> s = take n s @ c # drop (Suc n) s \<and> c \<notin> set (drop (Suc n) s) \<and> n < length s"
proof -
  let ?d = "dropWhile (\<lambda>x. x \<noteq> c) (rev s)" and ?t = "takeWhile (\<lambda>x. x \<noteq> c) (rev s)"
  have s: "s = rev ?d @ rev ?t" by (metis rev_append rev_rev_ident takeWhile_dropWhile_id)
  have t: "c \<notin> set ?t" using set_takeWhileD by fastforce
  show "c \<notin> set s" if "rfind_char c s = None"
  proof -
    from that have "?d = []" by (auto simp: rfind_char_def Let_def split: if_splits)
    with s t show ?thesis by (metis append_Nil rev.simps(1) set_rev)
  qed
  show "s = take n s @ c # drop (Suc n) s \<and> c \<notin> set (drop (Suc n) s) \<and> n < length s" if "rfind_char c s = Some n"
  proof -
    from that have n: "n = length ?d - 1" "?d \<noteq> []" by (auto simp: rfind_char_def Let_def split: if_splits)
    then obtain y ys where d: "?d = y # ys" by (cases ?d) auto
    have "y = c" using hd_dropWhile [OF n(2)] d by simp
    then have "s = rev ys @ c # rev ?t" "n = length (rev ys)" using s d n by simp_all
    moreover have "c \<notin> set (rev ?t)" using t by simp
    moreover have "take (length xs) (xs @ c # zs) = xs" "drop (Suc (length xs)) (xs @ c # zs) = zs"
      "length xs < length (xs @ c # zs)" for xs zs by simp_all
    ultimately show ?thesis by metis
  qed
qed

section \<open>Characters\<close>

definition isdigit :: "char \<Rightarrow> bool" where
  "isdigit c \<longleftrightarrow> c \<in> set ''0123456789''"

definition isxdigit :: "char \<Rightarrow> bool" where
  "isxdigit c \<longleftrightarrow> c \<in> set ''0123456789abcdefABCDEF''"

definition isspace :: "char \<Rightarrow> bool" where
  "isspace c \<longleftrightarrow> (of_char c :: nat) \<in> set [9, 10, 11, 12, 13, 32]"

definition isalpha :: "char \<Rightarrow> bool" where
  "isalpha c \<longleftrightarrow> (let n = of_char c :: nat in 65 \<le> n \<and> n \<le> 90 \<or> 97 \<le> n \<and> n \<le> 122)"

definition toupper :: "char \<Rightarrow> char" where
  "toupper c = (let n = of_char c :: nat in if 97 \<le> n \<and> n \<le> 122 then char_of (n - 32) else c)"

definition tolower :: "char \<Rightarrow> char" where
  "tolower c = (let n = of_char c :: nat in if 65 \<le> n \<and> n \<le> 90 then char_of (n + 32) else c)"

definition digit_value :: "char \<Rightarrow> nat" where
  "digit_value c = of_char c - 48"

text \<open>The value of a string of decimal digits.\<close>

definition digits_value :: "string \<Rightarrow> nat" where
  "digits_value s = foldl (\<lambda>n c. 10 * n + digit_value c) 0 s"

section \<open>Decimal numbers\<close>

fun show_nat :: "nat \<Rightarrow> string" where
  "show_nat n = (if n < 10 then [char_of (48 + n)] else show_nat (n div 10) @ [char_of (48 + n mod 10)])"

declare show_nat.simps [simp del]

definition show_int :: "int \<Rightarrow> string" where
  "show_int k = (if k < 0 then CHR ''-'' # show_nat (nat (- k)) else show_nat (nat k))"

lemma digit_char: "n < 10 \<Longrightarrow> isdigit (char_of (48 + n)) \<and> digit_value (char_of (48 + n)) = n"
proof -
  assume "n < 10"
  have "list_all (\<lambda>n. isdigit (char_of (48 + n)) \<and> digit_value (char_of (48 + n)) = n) [0..<10]" by code_simp
  with \<open>n < 10\<close> show ?thesis by (simp add: list_all_iff)
qed

lemma digits_value_snoc: "digits_value (s @ [c]) = 10 * digits_value s + digit_value c"
  by (simp add: digits_value_def)

lemma show_nat_value: "digits_value (show_nat n) = n \<and> show_nat n \<noteq> [] \<and> list_all isdigit (show_nat n)"
proof (induction n rule: less_induct)
  case (less n)
  show ?case
  proof (cases "n < 10")
    case True
    then show ?thesis using digit_char [of n] by (simp add: show_nat.simps [of n] digits_value_def)
  next
    case False
    then have "n div 10 < n" by simp
    from less [OF this] False digit_char [of "n mod 10"] show ?thesis
      by (simp add: show_nat.simps [of n] digits_value_snoc)
  qed
qed

end
