(* ===== verification/Std_Set.thy ===== *)
theory Std_Set
  imports Prelude
begin

text \<open>
  \<open>std::set\<close> with a user-given comparator, as the timer manager uses it: the elements in the order of
  an in-order traversal. Iterators are positions; \<open>end()\<close> is the length. The locale states what a
  strict total order gives the client of the container.
\<close>

section \<open>Operations\<close>

definition lower_bound :: "('a \<Rightarrow> 'a \<Rightarrow> bool) \<Rightarrow> 'a \<Rightarrow> 'a list \<Rightarrow> nat" where
  "lower_bound lt x xs = length (takeWhile (\<lambda>y. lt y x) xs)"

definition set_find :: "('a \<Rightarrow> 'a \<Rightarrow> bool) \<Rightarrow> 'a \<Rightarrow> 'a list \<Rightarrow> nat" where
  "set_find lt x xs =
     (let i = lower_bound lt x xs in if i < length xs \<and> \<not> lt x (xs ! i) then i else length xs)"

text \<open>Erasing \<open>end()\<close> is undefined.\<close>

definition set_erase :: "nat \<Rightarrow> 'a list \<Rightarrow> 'a list result" where
  "set_erase i xs = (if i < length xs then Inr (take i xs @ drop (Suc i) xs) else Inl Out_Of_Bounds)"

fun set_insert :: "('a \<Rightarrow> 'a \<Rightarrow> bool) \<Rightarrow> 'a \<Rightarrow> 'a list \<Rightarrow> 'a list" where
  "set_insert lt x [] = [x]"
| "set_insert lt x (y # ys) =
     (if lt x y then x # y # ys else if lt y x then y # set_insert lt x ys else y # ys)"

section \<open>Under a strict total order\<close>

locale strict_order =
  fixes lt :: "'a \<Rightarrow> 'a \<Rightarrow> bool"
  assumes irrefl: "\<not> lt x x"
    and trans: "lt x y \<Longrightarrow> lt y z \<Longrightarrow> lt x z"
    and total: "x \<noteq> y \<Longrightarrow> lt x y \<or> lt y x"
begin

lemma asym: "lt x y \<Longrightarrow> \<not> lt y x"
  using irrefl trans by blast

lemma set_set_insert [simp]: "set (set_insert lt x xs) = insert x (set xs)"
  using total by (induction xs) auto

lemma sorted_set_insert: "sorted_wrt lt xs \<Longrightarrow> sorted_wrt lt (set_insert lt x xs)"
  by (induction xs) (auto intro: trans)

lemma sorted_distinct: "sorted_wrt lt xs \<Longrightarrow> distinct xs"
  using irrefl by (induction xs) auto

text \<open>A member is found at its own position.\<close>

lemma lower_bound_append:
  "sorted_wrt lt (ys @ x # zs) \<Longrightarrow> lower_bound lt x (ys @ x # zs) = length ys"
  using irrefl by (simp add: lower_bound_def sorted_wrt_append)

lemma find_member:
  assumes "sorted_wrt lt xs" "x \<in> set xs"
  shows "set_find lt x xs < length xs \<and> xs ! set_find lt x xs = x"
proof -
  from assms(2) obtain ys zs where "xs = ys @ x # zs" by (meson split_list)
  with assms(1) lower_bound_append [of ys x zs] irrefl show ?thesis by (simp add: set_find_def)
qed

lemma find_nonmember: "x \<notin> set xs \<Longrightarrow> sorted_wrt lt xs \<Longrightarrow> set_find lt x xs = length xs"
proof -
  assume x: "x \<notin> set xs" and s: "sorted_wrt lt xs"
  let ?i = "lower_bound lt x xs"
  have "lt x (xs ! ?i)" if "?i < length xs"
  proof -
    have "\<not> lt (xs ! ?i) x" using that nth_length_takeWhile [of "\<lambda>y. lt y x" xs] by (simp add: lower_bound_def)
    moreover have "xs ! ?i \<noteq> x" using that x by (metis nth_mem)
    ultimately show ?thesis using total by blast
  qed
  then show ?thesis by (auto simp: set_find_def Let_def)
qed

text \<open>Erasing a found member removes it and nothing else, and keeps the order.\<close>

lemma erase_member:
  assumes "sorted_wrt lt xs" "x \<in> set xs"
  shows "\<exists>ys. set_erase (set_find lt x xs) xs = Inr ys \<and> set ys = set xs - {x} \<and> sorted_wrt lt ys"
proof -
  from assms(2) obtain ys zs where xs: "xs = ys @ x # zs" by (meson split_list)
  then have i: "set_find lt x xs = length ys"
    using assms(1) lower_bound_append [of ys x zs] irrefl by (simp add: set_find_def)
  have "x \<notin> set ys" "x \<notin> set zs" using sorted_distinct [OF assms(1)] xs by auto
  then show ?thesis using i xs assms(1) by (auto simp: set_erase_def sorted_wrt_append)
qed

lemma lower_bound_split:
  assumes "sorted_wrt lt xs"
  shows "\<forall>y \<in> set (take (lower_bound lt x xs) xs). lt y x"
    and "\<forall>y \<in> set (drop (lower_bound lt x xs) xs). \<not> lt y x"
proof -
  show "\<forall>y \<in> set (take (lower_bound lt x xs) xs). lt y x"
    unfolding lower_bound_def takeWhile_eq_take [symmetric] by (auto dest: set_takeWhileD)
  show "\<forall>y \<in> set (drop (lower_bound lt x xs) xs). \<not> lt y x"
  proof (cases "dropWhile (\<lambda>y. lt y x) xs")
    case Nil
    then show ?thesis unfolding lower_bound_def dropWhile_eq_drop [symmetric] by (simp only:) simp
  next
    case (Cons z zs)
    then have "\<not> lt z x" by (metis hd_dropWhile list.distinct(1) list.sel(1))
    moreover have "sorted_wrt lt (z # zs)"
      using assms Cons by (metis sorted_wrt_append takeWhile_dropWhile_id)
    ultimately show ?thesis using Cons trans by (auto simp: lower_bound_def simp flip: dropWhile_eq_drop)
  qed
qed

lemma sorted_hd: "sorted_wrt lt (x # xs) \<Longrightarrow> y \<in> set xs \<Longrightarrow> lt x y"
  by simp

lemma insert_at_front: "sorted_wrt lt xs \<Longrightarrow> x \<notin> set xs \<Longrightarrow> hd (set_insert lt x xs) = x \<longleftrightarrow> (\<forall>y \<in> set xs. lt x y)"
proof (cases xs)
  case (Cons y ys)
  assume s: "sorted_wrt lt xs" and x: "x \<notin> set xs"
  then have "lt x y \<longleftrightarrow> (\<forall>z \<in> set xs. lt x z)" using Cons by (auto intro: trans)
  moreover have "x \<noteq> y" using x Cons by auto
  ultimately show ?thesis using Cons by simp
qed simp

end

end
