(* ===== verification/Address.thy ===== *)
theory Address
  imports Endian Std_String Std_Set
begin

text \<open>
  Socket addresses (\<open>net/address.h\<close>, \<open>net/address.cc\<close>). A \<open>sockaddr\<close> structure is a record of its fields; \<open>addr_bytes\<close>
  gives its memory. What \<open>getaddrinfo\<close>, \<open>getifaddrs\<close> and \<open>inet_pton\<close> answer is an argument.
\<close>

section \<open>Masks and bit counts\<close>

text \<open>
  The literal \<open>1\<close> is a 32-bit \<open>int\<close>: shifting it by 32 or more is undefined. The difference is a \<open>size_t\<close> and wraps.
\<close>

definition CreateMask :: "u32 \<Rightarrow> 'a::len word result" where
  "CreateMask bits =
     (let n = sub64 LENGTH('a) (unat bits) in
      if n \<ge> 32 then Inl Undefined_Shift else Inr (ucast (push_bit n (1 :: u32) - 1)))"

text \<open>The loop of \<open>CountBytes\<close>: each round clears the lowest bit that is set.\<close>

function count_loop :: "'a::len word \<Rightarrow> u32 \<Rightarrow> u32" where
  "count_loop value result = (if value = 0 then result else count_loop (value AND (value - 1)) (result + 1))"
  by pat_completeness auto

termination
proof (relation "measure (\<lambda>(value, result). unat value)")
  fix v :: "'a word" and r :: u32
  assume "v \<noteq> 0"
  then have "v - 1 < v" by (metis word_neq_0_conv measure_unat word_less_nat_alt)
  moreover have "v AND (v - 1) \<le> v - 1" by (metis and.commute word_and_le1)
  ultimately have "v AND (v - 1) < v" by (rule order.strict_trans1 [rotated])
  then show "((v AND (v - 1), r + 1), v, r) \<in> measure (\<lambda>(value, result). unat value)"
    by (simp add: word_less_nat_alt)
qed simp

declare count_loop.simps [simp del]

definition CountBytes :: "'a::len word \<Rightarrow> u32" where
  "CountBytes value = count_loop value 0"

section \<open>Addresses\<close>

definition AF_UNSPEC :: u16 where "AF_UNSPEC = 0"
definition AF_UNIX :: u16 where "AF_UNIX = 1"
definition AF_INET :: u16 where "AF_INET = 2"
definition AF_INET6 :: u16 where "AF_INET6 = 10"

record sockaddr_in =
  sin_family :: u16
  sin_port :: u16
  sin_addr :: u32

record sockaddr_in6 =
  sin6_family :: u16
  sin6_port :: u16
  sin6_flowinfo :: u32
  s6_addr :: "u8 list"
  sin6_scope_id :: u32

record sockaddr_un =
  sun_family :: u16
  sun_path :: string

text \<open>What a \<open>sockaddr\<close> pointer points to; another family has the 14 bytes of \<open>sa_data\<close>.\<close>

datatype sockaddr = SA_IN sockaddr_in | SA_IN6 sockaddr_in6 | SA_OTHER u16 "u8 list"

datatype address =
    IPv4Address sockaddr_in
  | IPv6Address sockaddr_in6
  | UnixAddress sockaddr_un nat
  | UnknownAddress u16 "u8 list"

definition Address_Create :: "sockaddr option \<Rightarrow> address option" where
  "Address_Create addr =
     (case addr of
        None \<Rightarrow> None
      | Some (SA_IN a) \<Rightarrow> Some (IPv4Address a)
      | Some (SA_IN6 a) \<Rightarrow> Some (IPv6Address a)
      | Some (SA_OTHER family data) \<Rightarrow> Some (UnknownAddress family data))"

text \<open>The memory of the structure, and the length \<open>GetAddrLen\<close> reports.\<close>

fun addr_bytes :: "address \<Rightarrow> u8 list" where
  "addr_bytes (IPv4Address a) =
     to_mem (sin_family a) @ to_mem (sin_port a) @ to_mem (sin_addr a) @ replicate 8 0"
| "addr_bytes (IPv6Address a) =
     to_mem (sin6_family a) @ to_mem (sin6_port a) @ to_mem (sin6_flowinfo a) @ s6_addr a @ to_mem (sin6_scope_id a)"
| "addr_bytes (UnixAddress a len) = to_mem (sun_family a) @ map (\<lambda>c. of_nat (of_char c)) (sun_path a)"
| "addr_bytes (UnknownAddress family data) = to_mem family @ data"

fun GetAddrLen :: "address \<Rightarrow> nat" where
  "GetAddrLen (IPv4Address a) = 16"
| "GetAddrLen (IPv6Address a) = 28"
| "GetAddrLen (UnixAddress a len) = len"
| "GetAddrLen (UnknownAddress family data) = 16"

fun GetFamily :: "address \<Rightarrow> u16" where
  "GetFamily (IPv4Address a) = sin_family a"
| "GetFamily (IPv6Address a) = sin6_family a"
| "GetFamily (UnixAddress a len) = sun_family a"
| "GetFamily (UnknownAddress family data) = family"

section \<open>Comparison\<close>

fun memcmp :: "u8 list \<Rightarrow> u8 list \<Rightarrow> int" where
  "memcmp (a # as) (b # bs) = (if a < b then - 1 else if a > b then 1 else memcmp as bs)"
| "memcmp _ _ = 0"

definition addr_less :: "address \<Rightarrow> address \<Rightarrow> bool" where
  "addr_less a b =
     (let minlen = min (GetAddrLen a) (GetAddrLen b);
          result = memcmp (take minlen (addr_bytes a)) (take minlen (addr_bytes b)) in
      if result < 0 then True
      else if result > 0 then False
      else if GetAddrLen a < GetAddrLen b then True
      else False)"

definition addr_eq :: "address \<Rightarrow> address \<Rightarrow> bool" where
  "addr_eq a b \<longleftrightarrow>
     GetAddrLen a = GetAddrLen b \<and>
     memcmp (take (GetAddrLen a) (addr_bytes a)) (take (GetAddrLen a) (addr_bytes b)) = 0"

section \<open>IPv4\<close>

definition new_IPv4Address :: "u32 \<Rightarrow> u16 \<Rightarrow> sockaddr_in" where
  "new_IPv4Address address port =
     \<lparr>sin_family = AF_INET, sin_port = ByteswapOnLittleEndian port, sin_addr = ByteswapOnLittleEndian address\<rparr>"

text \<open>\<open>inet_pton\<close> gives the address in memory order, or fails.\<close>

definition IPv4_Create :: "(string \<Rightarrow> u32 option) \<Rightarrow> string \<Rightarrow> u16 \<Rightarrow> sockaddr_in option" where
  "IPv4_Create inet_pton address port =
     (let rt = (new_IPv4Address 0 0)\<lparr>sin_port := ByteswapOnLittleEndian port\<rparr> in
      case inet_pton address of None \<Rightarrow> None | Some a \<Rightarrow> Some (rt\<lparr>sin_addr := a\<rparr>))"

definition IPv4_Insert :: "sockaddr_in \<Rightarrow> string" where
  "IPv4_Insert a =
     (let addr = ByteswapOnLittleEndian (sin_addr a) in
      show_nat (unat (drop_bit 24 addr AND 0xff)) @ ''.'' @ show_nat (unat (drop_bit 16 addr AND 0xff)) @ ''.'' @
      show_nat (unat (drop_bit 8 addr AND 0xff)) @ ''.'' @ show_nat (unat (addr AND 0xff)) @
      '':'' @ show_nat (unat (ByteswapOnLittleEndian (sin_port a))))"

definition IPv4_BroadcastAddress :: "sockaddr_in \<Rightarrow> u32 \<Rightarrow> sockaddr_in option result" where
  "IPv4_BroadcastAddress a prefix_len =
     (if prefix_len > 32 then Inr None
      else rbind (CreateMask prefix_len) (\<lambda>mask.
        Inr (Some (a\<lparr>sin_addr := sin_addr a OR ByteswapOnLittleEndian mask\<rparr>))))"

definition IPv4_NetworkAddress :: "sockaddr_in \<Rightarrow> u32 \<Rightarrow> sockaddr_in option result" where
  "IPv4_NetworkAddress a prefix_len =
     (if prefix_len > 32 then Inr None
      else rbind (CreateMask prefix_len) (\<lambda>mask.
        Inr (Some (a\<lparr>sin_addr := sin_addr a AND ByteswapOnLittleEndian (NOT mask)\<rparr>))))"

definition IPv4_SubnetMask :: "u32 \<Rightarrow> sockaddr_in result" where
  "IPv4_SubnetMask prefix_len =
     rbind (CreateMask prefix_len) (\<lambda>mask.
     Inr \<lparr>sin_family = AF_INET, sin_port = 0, sin_addr = NOT (ByteswapOnLittleEndian mask)\<rparr>)"

definition IPv4_GetPort :: "sockaddr_in \<Rightarrow> u32" where
  "IPv4_GetPort a = ucast (ByteswapOnLittleEndian (sin_port a))"

definition IPv4_SetPort :: "sockaddr_in \<Rightarrow> u16 \<Rightarrow> sockaddr_in" where
  "IPv4_SetPort a v = a\<lparr>sin_port := ByteswapOnLittleEndian v\<rparr>"

section \<open>IPv6\<close>

definition new_IPv6Address :: sockaddr_in6 where
  "new_IPv6Address =
     \<lparr>sin6_family = AF_INET6, sin6_port = 0, sin6_flowinfo = 0, s6_addr = replicate 16 0, sin6_scope_id = 0\<rparr>"

definition IPv6Address_of :: "u8 list \<Rightarrow> u16 \<Rightarrow> sockaddr_in6" where
  "IPv6Address_of address port =
     new_IPv6Address\<lparr>sin6_port := ByteswapOnLittleEndian port, s6_addr := take 16 address\<rparr>"

definition IPv6_Create :: "(string \<Rightarrow> u8 list option) \<Rightarrow> string \<Rightarrow> u16 \<Rightarrow> sockaddr_in6 option" where
  "IPv6_Create inet_pton address port =
     (let rt = new_IPv6Address\<lparr>sin6_port := ByteswapOnLittleEndian port\<rparr> in
      case inet_pton address of None \<Rightarrow> None | Some a \<Rightarrow> Some (rt\<lparr>s6_addr := a\<rparr>))"

text \<open>The pieces \<open>Insert\<close> prints: colons, and groups in hexadecimal. \<open>addr\<close> are the groups as \<open>uint16_t\<close> in memory.\<close>

datatype v6_piece = Colon | Group u16

fun insert_loop :: "u16 list \<Rightarrow> nat \<Rightarrow> bool \<Rightarrow> u16 list \<Rightarrow> v6_piece list \<times> bool" where
  "insert_loop addr i used_zeros [] = ([], used_zeros)"
| "insert_loop addr i used_zeros (g # gs) =
     (if g = 0 \<and> \<not> used_zeros then insert_loop addr (Suc i) used_zeros gs
      else
        let first = (i \<noteq> 0 \<and> addr ! (i - 1) = 0 \<and> \<not> used_zeros);
            (ps, u) = insert_loop addr (Suc i) (used_zeros \<or> first) gs
        in ((if first then [Colon] else []) @ (if i \<noteq> 0 then [Colon] else []) @ [Group (ByteswapOnLittleEndian g)] @ ps, u))"

definition v6_pieces :: "u16 list \<Rightarrow> v6_piece list" where
  "v6_pieces addr =
     (let (ps, used_zeros) = insert_loop addr 0 False addr in
      if \<not> used_zeros \<and> addr ! 7 = 0 then ps @ [Colon, Colon] else ps)"

fun show_hex :: "nat \<Rightarrow> string" where
  "show_hex n = (if n < 16 then [''0123456789abcdef'' ! n] else show_hex (n div 16) @ [''0123456789abcdef'' ! (n mod 16)])"

declare show_hex.simps [simp del]

fun show_piece :: "v6_piece \<Rightarrow> string" where
  "show_piece Colon = '':''"
| "show_piece (Group g) = show_hex (unat g)"

definition v6_groups :: "u8 list \<Rightarrow> u16 list" where
  "v6_groups bs = map (\<lambda>i. of_mem [bs ! (2 * i), bs ! (2 * i + 1)]) [0..<8]"

definition IPv6_Insert :: "sockaddr_in6 \<Rightarrow> string" where
  "IPv6_Insert a =
     ''['' @ concat (map show_piece (v6_pieces (v6_groups (s6_addr a)))) @ '']:'' @
     show_nat (unat (ByteswapOnLittleEndian (sin6_port a)))"

text \<open>Setting the bytes from index \<open>i\<close> on, up to 16.\<close>

fun fill_from :: "nat \<Rightarrow> u8 \<Rightarrow> u8 list \<Rightarrow> u8 list" where
  "fill_from i v bs = take i bs @ replicate (length bs - i) v"

definition IPv6_BroadcastAddress :: "sockaddr_in6 \<Rightarrow> u32 \<Rightarrow> sockaddr_in6 result" where
  "IPv6_BroadcastAddress a prefix_len =
     (let i = unat (prefix_len div 8) in
      if i \<ge> length (s6_addr a) then Inl Out_Of_Bounds
      else rbind (CreateMask (prefix_len mod 8)) (\<lambda>mask.
        Inr (a\<lparr>s6_addr := fill_from (i + 1) 0xff ((s6_addr a)[i := s6_addr a ! i OR mask])\<rparr>)))"

definition IPv6_NetworkAddress :: "sockaddr_in6 \<Rightarrow> u32 \<Rightarrow> sockaddr_in6 result" where
  "IPv6_NetworkAddress a prefix_len =
     (let i = unat (prefix_len div 8) in
      if i \<ge> length (s6_addr a) then Inl Out_Of_Bounds
      else rbind (CreateMask (prefix_len mod 8)) (\<lambda>mask.
        Inr (a\<lparr>s6_addr := fill_from (i + 1) 0 ((s6_addr a)[i := s6_addr a ! i AND mask])\<rparr>)))"

definition IPv6_SubnetMask :: "u32 \<Rightarrow> sockaddr_in6 result" where
  "IPv6_SubnetMask prefix_len =
     (let i = unat (prefix_len div 8); bs = replicate 16 0 in
      if i \<ge> 16 then Inl Out_Of_Bounds
      else rbind (CreateMask (prefix_len mod 8)) (\<lambda>mask.
        Inr (new_IPv6Address\<lparr>s6_addr := replicate i 0xff @ drop i (bs[i := NOT mask])\<rparr>)))"

definition IPv6_GetPort :: "sockaddr_in6 \<Rightarrow> u32" where
  "IPv6_GetPort a = ucast (ByteswapOnLittleEndian (sin6_port a))"

definition IPv6_SetPort :: "sockaddr_in6 \<Rightarrow> u16 \<Rightarrow> sockaddr_in6" where
  "IPv6_SetPort a v = a\<lparr>sin6_port := ByteswapOnLittleEndian v\<rparr>"

section \<open>Unix domain and unknown addresses\<close>

text \<open>\<open>sun_path\<close> has 108 characters and starts at offset 2.\<close>

definition new_UnixAddress :: address where
  "new_UnixAddress = UnixAddress \<lparr>sun_family = AF_UNIX, sun_path = replicate 108 (CHR 0x00)\<rparr> (2 + 107)"

definition UnixAddress_of :: "string \<Rightarrow> address result" where
  "UnixAddress_of path =
     (let length1 = length path + 1;
          length2 = (if path \<noteq> [] \<and> hd path = CHR 0x00 then length1 - 1 else length1) in
      if length2 > 108 then Inl Logic_Error
      else
        let p = take length2 (path @ [CHR 0x00])
        in Inr (UnixAddress \<lparr>sun_family = AF_UNIX, sun_path = p @ replicate (108 - length p) (CHR 0x00)\<rparr> (length2 + 2)))"

definition SetAddrLen :: "address \<Rightarrow> nat \<Rightarrow> address" where
  "SetAddrLen a v = (case a of UnixAddress u len \<Rightarrow> UnixAddress u v | _ \<Rightarrow> a)"

definition Unix_GetPath :: "sockaddr_un \<Rightarrow> nat \<Rightarrow> string" where
  "Unix_GetPath a len =
     (if len > 2 \<and> sun_path a ! 0 = CHR 0x00
      then [CHR 0x5C, CHR ''0''] @ take (len - 2 - 1) (drop 1 (sun_path a))
      else takeWhile (\<lambda>c. c \<noteq> CHR 0x00) (sun_path a))"

definition new_UnknownAddress :: "u16 \<Rightarrow> address" where
  "new_UnknownAddress family = UnknownAddress family (replicate 14 0)"

fun Address_ToString :: "address \<Rightarrow> string" where
  "Address_ToString (IPv4Address a) = IPv4_Insert a"
| "Address_ToString (IPv6Address a) = IPv6_Insert a"
| "Address_ToString (UnixAddress a len) = Unix_GetPath a len"
| "Address_ToString (UnknownAddress family data) = ''[UnknownAddress family='' @ show_nat (unat family) @ '']''"

section \<open>Looking up\<close>

text \<open>How \<open>Lookup\<close> takes a host apart: the node and the service given to \<open>getaddrinfo\<close>.\<close>

definition split_bracket :: "string \<Rightarrow> string \<times> string option" where
  "split_bracket host =
     (if host \<noteq> [] \<and> hd host = CHR ''['' then
        (case find_char (CHR '']'') host 1 of
           None \<Rightarrow> ([], None)
         | Some e \<Rightarrow>
             (take (e - 1) (drop 1 host),
              if e + 1 < length host \<and> host ! (e + 1) = CHR '':'' then Some (drop (e + 2) host) else None))
      else ([], None))"

definition split_host :: "string \<Rightarrow> string \<times> string option" where
  "split_host host =
     (let (node, service) = split_bracket host;
          (node, service) =
            (if node = [] then
               (case find_char (CHR '':'') host 0 of
                  None \<Rightarrow> (node, None)
                | Some p \<Rightarrow>
                    if find_char (CHR '':'') host (p + 1) = None then (take p host, Some (drop (p + 1) host))
                    else (node, Some (drop p host)))
             else (node, service));
          node = (if node = [] then host else node)
      in (node, service))"

definition Lookup :: "(string \<Rightarrow> string option \<Rightarrow> sockaddr list option) \<Rightarrow> address option list \<Rightarrow> string \<Rightarrow>
    bool \<times> address option list" where
  "Lookup getaddrinfo result host =
     (let (node, service) = split_host host in
      case getaddrinfo node service of
        None \<Rightarrow> (False, result)
      | Some rs \<Rightarrow>
          let result = result @ map (\<lambda>r. Address_Create (Some r)) rs in (result \<noteq> [], result))"

definition LookupAny :: "(string \<Rightarrow> string option \<Rightarrow> sockaddr list option) \<Rightarrow> string \<Rightarrow> address option" where
  "LookupAny getaddrinfo host =
     (let (ok, result) = Lookup getaddrinfo [] host in if ok then result ! 0 else None)"

fun is_ip :: "address option \<Rightarrow> bool" where
  "is_ip (Some (IPv4Address _)) = True"
| "is_ip (Some (IPv6Address _)) = True"
| "is_ip _ = False"

definition LookupAnyIPAddress :: "(string \<Rightarrow> string option \<Rightarrow> sockaddr list option) \<Rightarrow> string \<Rightarrow> address option" where
  "LookupAnyIPAddress getaddrinfo host =
     (let (ok, result) = Lookup getaddrinfo [] host in
      if ok then (case List.find is_ip result of Some a \<Rightarrow> a | None \<Rightarrow> None) else None)"

definition IPAddress_Create :: "(string \<Rightarrow> sockaddr list option) \<Rightarrow> string \<Rightarrow> u16 \<Rightarrow> address option result" where
  "IPAddress_Create getaddrinfo addr port =
     (case getaddrinfo addr of
        None \<Rightarrow> Inr None
      | Some [] \<Rightarrow> Inl Null_Deref
      | Some (r # _) \<Rightarrow>
          Inr (case r of
             SA_IN a \<Rightarrow> Some (IPv4Address (IPv4_SetPort a port))
           | SA_IN6 a \<Rightarrow> Some (IPv6Address (IPv6_SetPort a port))
           | SA_OTHER _ _ \<Rightarrow> None))"

text \<open>Interfaces: a name, an address and a netmask, either of which may be null.\<close>

record ifaddr =
  ifa_name :: string
  ifa_addr :: "sockaddr option"
  ifa_netmask :: "sockaddr option"

fun sa_family :: "sockaddr \<Rightarrow> u16" where
  "sa_family (SA_IN a) = AF_INET"
| "sa_family (SA_IN6 a) = AF_INET6"
| "sa_family (SA_OTHER family data) = family"

definition interface_entry :: "u16 \<Rightarrow> ifaddr \<Rightarrow> (string \<times> address \<times> u32) option result" where
  "interface_entry family i =
     (case ifa_addr i of
        None \<Rightarrow> Inl Null_Deref
      | Some sa \<Rightarrow>
          if family \<noteq> AF_UNSPEC \<and> family \<noteq> sa_family sa then Inr None
          else
            (case sa of
               SA_IN a \<Rightarrow>
                 (case ifa_netmask i of
                    Some (SA_IN m) \<Rightarrow> Inr (Some (ifa_name i, IPv4Address a, CountBytes (sin_addr m)))
                  | _ \<Rightarrow> Inl Null_Deref)
             | SA_IN6 a \<Rightarrow>
                 (case ifa_netmask i of
                    Some (SA_IN6 m) \<Rightarrow>
                      Inr (Some (ifa_name i, IPv6Address a, sum_list (map CountBytes (s6_addr m))))
                  | _ \<Rightarrow> Inl Null_Deref)
             | SA_OTHER _ _ \<Rightarrow> Inr None))"

fun interface_loop :: "u16 \<Rightarrow> ifaddr list \<Rightarrow> (string \<times> address \<times> u32) list \<Rightarrow> (string \<times> address \<times> u32) list result" where
  "interface_loop family [] result = Inr result"
| "interface_loop family (i # is) result =
     rbind (interface_entry family i) (\<lambda>e.
     interface_loop family is (case e of None \<Rightarrow> result | Some x \<Rightarrow> result @ [x]))"

definition GetInterfaceAddresses_all :: "ifaddr list option \<Rightarrow> u16 \<Rightarrow> (bool \<times> (string \<times> address \<times> u32) list) result" where
  "GetInterfaceAddresses_all getifaddrs family =
     (case getifaddrs of
        None \<Rightarrow> Inr (False, [])
      | Some is \<Rightarrow> rbind (interface_loop family is []) (\<lambda>result. Inr (result \<noteq> [], result)))"

definition GetInterfaceAddresses :: "ifaddr list option \<Rightarrow> string \<Rightarrow> u16 \<Rightarrow> (bool \<times> (address \<times> u32) list) result" where
  "GetInterfaceAddresses getifaddrs iface family =
     (if iface = [] \<or> iface = ''*'' then
        Inr (True,
          (if family = AF_INET \<or> family = AF_UNSPEC then [(IPv4Address (new_IPv4Address 0 0), 0)] else []) @
          (if family = AF_INET6 \<or> family = AF_UNSPEC then [(IPv6Address new_IPv6Address, 0)] else []))
      else
        rbind (GetInterfaceAddresses_all getifaddrs family) (\<lambda>(ok, results).
        if \<not> ok then Inr (False, [])
        else
          let result = map snd (filter (\<lambda>(name, _). name = iface) results)
          in Inr (result \<noteq> [], result)))"

section \<open>Counting bits\<close>

fun ones :: "nat \<Rightarrow> nat" where
  "ones n = (if n = 0 then 0 else n mod 2 + ones (n div 2))"

declare ones.simps [simp del]

lemma ones_0 [simp]: "ones 0 = 0"
  by (simp add: ones.simps)

lemma ones_double: "ones (2 * n) = ones n" "ones (Suc (2 * n)) = Suc (ones n)"
proof -
  show "ones (2 * n) = ones n" by (subst ones.simps) simp
  show "ones (Suc (2 * n)) = Suc (ones n)" by (subst ones.simps) simp
qed

lemma and_pred_even: "0 < m \<Longrightarrow> (2 * m) AND (2 * m - 1) = 2 * (m AND (m - 1 :: nat))"
proof -
  assume "0 < m"
  then have "2 * m - 1 = 2 * (m - 1) + 1" by simp
  then show ?thesis by (simp add: and_nat_rec [of "2 * m"])
qed

lemma and_pred_odd: "Suc (2 * m) AND (2 * m) = 2 * m"
  by (subst and_nat_rec) simp

lemma ones_and_pred: "0 < n \<Longrightarrow> Suc (ones (n AND (n - 1))) = ones n"
proof (induction n rule: less_induct)
  case (less n)
  show ?case
  proof (cases "even n")
    case True
    then obtain m where m: "n = 2 * m" by (auto elim: evenE)
    with less.prems have "0 < m" by simp
    then have "Suc (ones (m AND (m - 1))) = ones m" using less.IH [of m] m by simp
    then show ?thesis unfolding m and_pred_even [OF \<open>0 < m\<close>] by (simp add: ones_double)
  next
    case False
    then obtain m where m: "n = 2 * m + 1" by (auto elim: oddE)
    then show ?thesis by (simp add: and_pred_odd ones_double)
  qed
qed

lemma count_loop_ones: "unat (count_loop v r) = (unat r + ones (unat v)) mod 2 ^ 32"
proof (induction v r rule: count_loop.induct)
  case (1 v r)
  show ?case
  proof (cases "v = 0")
    case True
    then show ?thesis using unsigned_less [of r, where ?'a = nat] by (simp add: count_loop.simps [of 0 r])
  next
    case False
    then have pos: "0 < unat v" by (simp add: unat_gt_0)
    have m: "unat (v AND (v - 1)) = unat v AND (unat v - 1)"
      using False by (simp add: unsigned_and_eq unat_minus_one)
    have "unat (count_loop v r) = (unat (r + 1) + ones (unat (v AND (v - 1)))) mod 2 ^ 32"
      using 1 [OF False] False by (simp add: count_loop.simps [of v])
    also have "\<dots> = (Suc (unat r) + ones (unat v AND (unat v - 1))) mod 2 ^ 32"
      unfolding m by (simp add: unat_word_ariths mod_simps)
    also have "\<dots> = (unat r + ones (unat v)) mod 2 ^ 32"
      using ones_and_pred [OF pos] by (metis add_Suc add_Suc_right)
    finally show ?thesis .
  qed
qed

lemma ones_le: "n < 2 ^ k \<Longrightarrow> ones n \<le> k"
proof (induction k arbitrary: n)
  case (Suc k)
  then have "ones (n div 2) \<le> k" by (simp add: div_less_iff_less_mult mult.commute)
  then show ?case by (cases "n = 0") (simp_all add: ones.simps [of n])
qed simp

section \<open>Byte order and bits\<close>

lemma bit_byteswap:
  assumes "8 dvd LENGTH('a)" "n < LENGTH('a)"
  shows "bit (byteswap (w :: 'a::len word)) n \<longleftrightarrow> bit w (8 * (LENGTH('a) div 8 - Suc (n div 8)) + n mod 8)"
proof -
  have n: "n div 8 < LENGTH('a) div 8" using assms by (auto elim!: dvdE)
  then show ?thesis using assms by (simp add: byteswap_def bit_of_mem rev_nth bit_to_mem)
qed

lemma byteswap_bitwise:
  assumes "8 dvd LENGTH('a)"
  shows "byteswap (a OR b) = byteswap a OR byteswap (b :: 'a::len word)"
    "byteswap (a AND b) = byteswap a AND byteswap (b :: 'a::len word)"
    "byteswap (NOT a) = NOT (byteswap (a :: 'a::len word))"
proof -
  show "byteswap (a OR b) = byteswap a OR byteswap b" "byteswap (a AND b) = byteswap a AND byteswap b"
    using assms by (auto intro!: bit_word_eqI simp: bit_byteswap bit_or_iff bit_and_iff)
  show "byteswap (NOT a) = NOT (byteswap a)"
  proof (rule bit_word_eqI)
    fix n assume n: "n < LENGTH('a)"
    have "8 * (LENGTH('a) div 8 - Suc (n div 8)) + n mod 8 < LENGTH('a)"
    proof -
      have "n div 8 < LENGTH('a) div 8" using assms n by (auto elim!: dvdE)
      then have "8 * (LENGTH('a) div 8 - Suc (n div 8)) + 8 \<le> 8 * (LENGTH('a) div 8)" by simp
      moreover have "n mod 8 < 8" by simp
      moreover have "8 * (LENGTH('a) div 8) = LENGTH('a)" using assms by simp
      ultimately show ?thesis by linarith
    qed
    with assms n show "bit (byteswap (NOT a)) n = bit (NOT (byteswap a)) n" by (simp add: bit_byteswap bit_not_iff)
  qed
qed

section \<open>Masks\<close>

lemma CreateMask_32: "CreateMask p = (if 1 \<le> p \<and> p \<le> 32 then Inr (mask (32 - unat p) :: u32) else Inl Undefined_Shift)"
proof (cases "1 \<le> p \<and> p \<le> 32")
  case True
  then have "1 \<le> unat p" "unat p \<le> 32" by (simp_all add: word_le_nat_alt)
  with True show ?thesis by (simp add: CreateMask_def Let_def mask_eq_decr_exp push_bit_eq_mult)
next
  case False
  have "\<not> sub64 32 (unat p) < 32"
  proof (cases "p = 0")
    case False
    with \<open>\<not> (1 \<le> p \<and> p \<le> 32)\<close> have "32 < unat p" by (auto simp: word_le_nat_alt unat_gt_0 Suc_le_eq)
    moreover have "unat p < 2 ^ 32" using unsigned_less [of p] by simp
    ultimately show ?thesis by (simp add: sub64_def)
  qed simp
  with False show ?thesis by (auto simp: CreateMask_def Let_def)
qed

lemma CreateMask_8: "p < 8 \<Longrightarrow> CreateMask p = Inr (mask (8 - unat p) :: u8)"
proof -
  assume "p < 8"
  then have "unat p < 8" by (simp add: word_less_nat_alt)
  then have "ucast (mask (8 - unat p) :: u32) = (mask (8 - unat p) :: u8)"
    by (intro bit_word_eqI) (auto simp: bit_simps)
  with \<open>unat p < 8\<close> show ?thesis by (simp add: CreateMask_def Let_def mask_eq_decr_exp push_bit_eq_mult)
qed

section \<open>Prefixes\<close>

lemma prefix_low:
  fixes h :: "'a::len word"
  shows "unat (h AND NOT (mask k)) = unat h div 2 ^ k * 2 ^ k"
proof -
  have "h AND NOT (mask k) = push_bit k (drop_bit k h)"
    by (rule bit_word_eqI) (auto simp: bit_simps)
  moreover have "unat h div 2 ^ k * 2 ^ k < 2 ^ LENGTH('a)"
    using unsigned_less [of h, where ?'a = nat] by (meson div_times_less_eq_dividend order.strict_trans1)
  moreover have "take_bit LENGTH('a) (unat h) = unat h"
    using unsigned_less [of h, where ?'a = nat] by (simp add: take_bit_nat_eq_self)
  ultimately show ?thesis
    by (simp only: unsigned_push_bit_eq unsigned_drop_bit_eq) (simp add: push_bit_nat_def drop_bit_nat_def take_bit_nat_eq_self)
qed

lemma drop_unat: "unat (drop_bit k (w :: 'a::len word)) = unat w div 2 ^ k"
proof -
  have "take_bit LENGTH('a) (unat w) = unat w"
    using unsigned_less [of w, where ?'a = nat] by (simp add: take_bit_nat_eq_self)
  then show ?thesis by (simp only: unsigned_drop_bit_eq) (simp add: drop_bit_nat_def)
qed

lemma prefix_high:
  fixes h :: "'a::len word"
  assumes "k < LENGTH('a)"
  shows "unat (h OR mask k) = unat h div 2 ^ k * 2 ^ k + (2 ^ k - 1)"
proof -
  let ?n = "h AND NOT (mask k)"
  have "h OR mask k = ?n OR mask k" by (rule bit_word_eqI) (auto simp: bit_simps)
  also have "\<dots> = ?n + mask k"
    by (rule disjunctive_add_eq_or [symmetric]) (rule bit_word_eqI, auto simp: bit_simps)
  finally have e: "h OR mask k = ?n + mask k" .
  have m: "unat (mask k :: 'a word) = 2 ^ k - 1"
  proof -
    have "(2 ^ k - 1 :: nat) < 2 ^ LENGTH('a)" using assms by (simp add: less_imp_diff_less)
    then have "unat (of_nat (2 ^ k - 1) :: 'a word) = 2 ^ k - 1" by (simp only: unat_of_nat mod_less)
    then show ?thesis by (simp add: mask_eq_decr_exp)
  qed
  have d: "2 ^ LENGTH('a) = 2 ^ (LENGTH('a) - k) * (2 ^ k :: nat)" using assms by (simp flip: power_add)
  have "unat h div 2 ^ k < 2 ^ (LENGTH('a) - k)"
    using unsigned_less [of h, where ?'a = nat] unfolding d by (simp add: div_less_iff_less_mult)
  then have "unat h div 2 ^ k * 2 ^ k + 2 ^ k \<le> 2 ^ LENGTH('a)"
    unfolding d by (metis Suc_leI add.commute mult_Suc mult_le_mono1)
  then have "unat ?n + unat (mask k :: 'a word) < 2 ^ LENGTH('a)" unfolding prefix_low m
    by (metis Nat.add_diff_assoc Suc_diff_1 less_eq_Suc_le add_Suc_right one_le_numeral one_le_power zero_less_power zero_less_numeral)
  then have "unat (?n + mask k) = unat ?n + unat (mask k :: 'a word)" by (rule unat_add_lem [THEN iffD1])
  then show ?thesis unfolding e prefix_low m .
qed

lemma prefix_range:
  fixes h x :: "'a::len word"
  assumes "k < LENGTH('a)"
  shows "drop_bit k x = drop_bit k h \<longleftrightarrow> h AND NOT (mask k) \<le> x \<and> x \<le> h OR mask k"
proof -
  have div: "a div 2 ^ k = b div 2 ^ k \<longleftrightarrow> b div 2 ^ k * 2 ^ k \<le> a \<and> a \<le> b div 2 ^ k * 2 ^ k + (2 ^ k - 1)" for a b :: nat
  proof
    assume e: "a div 2 ^ k = b div 2 ^ k"
    have "a = b div 2 ^ k * 2 ^ k + a mod 2 ^ k" "a mod 2 ^ k < 2 ^ k" unfolding e [symmetric] by (rule div_mult_mod_eq [symmetric]) simp
    then show "b div 2 ^ k * 2 ^ k \<le> a \<and> a \<le> b div 2 ^ k * 2 ^ k + (2 ^ k - 1)" by linarith
  next
    assume "b div 2 ^ k * 2 ^ k \<le> a \<and> a \<le> b div 2 ^ k * 2 ^ k + (2 ^ k - 1)"
    then obtain r where "a = b div 2 ^ k * 2 ^ k + r" "r \<le> 2 ^ k - 1" by (metis le_Suc_ex add_le_cancel_left)
    then show "a div 2 ^ k = b div 2 ^ k" by (simp add: div_add1_eq less_Suc_eq_le Suc_diff_1 [symmetric] order.strict_trans1)
  qed
  have "drop_bit k x = drop_bit k h \<longleftrightarrow> unat x div 2 ^ k = unat h div 2 ^ k"
    by (simp only: word_unat_eq_iff drop_unat)
  then show ?thesis by (simp add: word_le_nat_alt prefix_low prefix_high [OF assms] div)
qed

section \<open>IPv6 bits\<close>

definition v6bit :: "u8 list \<Rightarrow> nat \<Rightarrow> bool" where
  "v6bit bs i \<longleftrightarrow> bit (bs ! (i div 8)) (7 - i mod 8)"

lemma fill_from_nth:
  "j < length bs \<Longrightarrow> t < length bs \<Longrightarrow>
   fill_from (Suc j) v (bs[j := x]) ! t = (if t < j then bs ! t else if t = j then x else v)"
  by (auto simp: nth_append nth_list_update min_def)

lemma v6bit_mask: "r < 8 \<Longrightarrow> bit (mask (8 - r) :: u8) (7 - i mod 8) \<longleftrightarrow> r \<le> i mod 8"
proof -
  have "i mod 8 < 8" by simp
  then show "r < 8 \<Longrightarrow> ?thesis" by (auto simp: bit_simps)
qed

lemma byte_split: "(i :: nat) < p \<longleftrightarrow> i div 8 < p div 8 \<or> i div 8 = p div 8 \<and> i mod 8 < p mod 8"
proof -
  define a b r s where "a = i div 8" and "b = p div 8" and "r = i mod 8" and "s = p mod 8"
  have "i = 8 * a + r" "p = 8 * b + s" "r < 8" "s < 8" by (simp_all add: a_def b_def r_def s_def)
  then have "i < p \<longleftrightarrow> a < b \<or> a = b \<and> r < s" by (cases a b rule: linorder_cases) linarith+
  then show ?thesis by (simp add: a_def b_def r_def s_def)
qed

lemma prefix_parts: "unat ((p :: u32) div 8) = unat p div 8" "unat (p mod 8) = unat p mod 8" "p mod 8 < 8"
  by (simp_all add: unat_div unat_mod word_less_nat_alt)

section \<open>The order on addresses\<close>

text \<open>The bytes compared, provided the length lies within the structure, as the constructors make it.\<close>

definition addr_view :: "address \<Rightarrow> u8 list" where
  "addr_view a = take (GetAddrLen a) (addr_bytes a)"

definition addr_ok :: "address \<Rightarrow> bool" where
  "addr_ok a \<longleftrightarrow> GetAddrLen a \<le> length (addr_bytes a)"

fun bytes_less :: "u8 list \<Rightarrow> u8 list \<Rightarrow> bool" where
  "bytes_less xs [] \<longleftrightarrow> False"
| "bytes_less [] (y # ys) \<longleftrightarrow> True"
| "bytes_less (x # xs) (y # ys) \<longleftrightarrow> x < y \<or> x = y \<and> bytes_less xs ys"

interpretation bytes_order: strict_order bytes_less
proof
  show "\<not> bytes_less x x" for x by (induction x) auto
  show "bytes_less x z" if "bytes_less x y" "bytes_less y z" for x y z
    using that
  proof (induction x y arbitrary: z rule: bytes_less.induct)
    case (2 y ys)
    then show ?case by (cases z) auto
  next
    case (3 x xs y ys)
    then show ?case by (cases z) (auto dest: order.strict_trans)
  qed simp
  show "bytes_less x y \<or> bytes_less y x" if "x \<noteq> y" for x y
    using that by (induction x y rule: bytes_less.induct) (auto simp: neq_Nil_conv)
qed

lemma memcmp_less:
  "(let m = min (length xs) (length ys); r = memcmp (take m xs) (take m ys) in
    if r < 0 then True else if r > 0 then False else length xs < length ys) = bytes_less xs ys"
  by (induction xs ys rule: bytes_less.induct) (auto simp: Let_def)

lemma memcmp_eq: "length xs = length ys \<Longrightarrow> memcmp xs ys = 0 \<longleftrightarrow> xs = ys"
  by (induction xs ys rule: memcmp.induct) auto

lemma addr_less_view: "addr_ok a \<Longrightarrow> addr_ok b \<Longrightarrow> addr_less a b \<longleftrightarrow> bytes_less (addr_view a) (addr_view b)"
proof -
  assume "addr_ok a" "addr_ok b"
  then have "length (addr_view a) = GetAddrLen a" "length (addr_view b) = GetAddrLen b"
    by (simp_all add: addr_view_def addr_ok_def)
  moreover have "take (min (GetAddrLen a) (GetAddrLen b)) (addr_view x) = take (min (GetAddrLen a) (GetAddrLen b)) (addr_bytes x)"
    if "x = a \<or> x = b" for x using that by (auto simp: addr_view_def)
  ultimately show ?thesis unfolding memcmp_less [symmetric] addr_less_def by (simp add: Let_def)
qed

lemma addr_eq_view: "addr_ok a \<Longrightarrow> addr_ok b \<Longrightarrow> addr_eq a b \<longleftrightarrow> addr_view a = addr_view b"
proof -
  assume "addr_ok a" "addr_ok b"
  then have l: "length (addr_view a) = GetAddrLen a" "length (addr_view b) = GetAddrLen b"
    by (simp_all add: addr_view_def addr_ok_def)
  show ?thesis
  proof (cases "GetAddrLen a = GetAddrLen b")
    case True
    then show ?thesis using memcmp_eq [of "addr_view a" "addr_view b"] l by (simp add: addr_eq_def addr_view_def)
  next
    case False
    then show ?thesis using l by (auto simp: addr_eq_def)
  qed
qed

section \<open>Reading IPv6 texts\<close>

fun split_dc :: "v6_piece list \<Rightarrow> (v6_piece list \<times> v6_piece list) option" where
  "split_dc [] = None"
| "split_dc (Colon # Colon # ps) = Some ([], ps)"
| "split_dc (p # ps) = (case split_dc ps of None \<Rightarrow> None | Some (l, r) \<Rightarrow> Some (p # l, r))"

fun read_groups :: "v6_piece list \<Rightarrow> u16 list option" where
  "read_groups [] = Some []"
| "read_groups [Group g] = Some [g]"
| "read_groups (Group g # Colon # p # ps) = map_option (Cons g) (read_groups (p # ps))"
| "read_groups _ = None"

definition v6_expand :: "v6_piece list \<Rightarrow> u16 list option" where
  "v6_expand ps =
     (case split_dc ps of
        None \<Rightarrow> (case read_groups ps of Some gs \<Rightarrow> if length gs = 8 then Some gs else None | None \<Rightarrow> None)
      | Some (l, r) \<Rightarrow>
          (case (read_groups l, read_groups r) of
             (Some gl, Some gr) \<Rightarrow>
               if length gl + length gr \<le> 7 then Some (gl @ replicate (8 - (length gl + length gr)) 0 @ gr) else None
           | _ \<Rightarrow> None))"

lemma byteswap_0 [simp]: "ByteswapOnLittleEndian (0 :: u16) = 0"
  by (rule bit_word_eqI) (simp add: ByteswapOnLittleEndian_eq bit_byteswap)

text \<open>Groups with colons before each, and between them.\<close>

definition colon_groups :: "u16 list \<Rightarrow> v6_piece list" where
  "colon_groups gs = concat (map (\<lambda>g. [Colon, Group g]) gs)"

definition sep_groups :: "u16 list \<Rightarrow> v6_piece list" where
  "sep_groups gs = tl (colon_groups gs)"

lemma colon_groups_simps [simp]:
  "colon_groups [] = []" "colon_groups (g # gs) = Colon # Group g # colon_groups gs"
  "sep_groups [] = []" "sep_groups (g # gs) = Group g # colon_groups gs"
  by (simp_all add: colon_groups_def sep_groups_def)

lemma read_sep_groups: "read_groups (sep_groups gs) = Some gs"
proof (induction gs)
  case (Cons g gs)
  then show ?case by (cases gs) simp_all
qed simp

lemma split_colon_groups:
  "split_dc (colon_groups gs) = None"
  "split_dc (colon_groups gs @ Colon # Colon # ps) = Some (colon_groups gs, ps)"
  by (induction gs) simp_all

lemma split_sep_groups:
  "split_dc (sep_groups gs) = None"
  "split_dc (sep_groups gs @ Colon # Colon # ps) = Some (sep_groups gs, ps)"
  by (cases gs; simp add: split_colon_groups)+

abbreviation swap_all :: "u16 list \<Rightarrow> u16 list" where
  "swap_all gs \<equiv> map ByteswapOnLittleEndian gs"

lemma insert_loop_used: "i \<noteq> 0 \<Longrightarrow> insert_loop addr i True gs = (colon_groups (swap_all gs), True)"
  by (induction gs arbitrary: i) simp_all

lemma insert_loop_zeros: "insert_loop addr i False (replicate k 0 @ gs) = insert_loop addr (i + k) False gs"
  by (induction k arbitrary: i) simp_all

lemma insert_loop_nonzero:
  assumes "0 \<notin> set xs" "i \<noteq> 0" "addr ! (i - 1) \<noteq> 0" "\<forall>j < length xs. addr ! (i + j) = xs ! j"
  shows "insert_loop addr i False (xs @ gs) =
    (let (ps, u) = insert_loop addr (i + length xs) False gs in (colon_groups (swap_all xs) @ ps, u))"
  using assms
proof (induction xs arbitrary: i)
  case (Cons x xs)
  have "addr ! i = x" using Cons.prems(4) by force
  moreover have "\<forall>j < length xs. addr ! (Suc i + j) = xs ! j" using Cons.prems(4) by force
  ultimately show ?case using Cons.IH [of "Suc i"] Cons.prems by (auto split: prod.splits)
qed simp

lemma insert_loop_front:
  assumes "addr = xs @ gs" "0 \<notin> set xs"
  shows "insert_loop addr 0 False addr =
    (let (ps, u) = insert_loop addr (length xs) False gs in (sep_groups (swap_all xs) @ ps, u))"
proof (cases xs)
  case (Cons x ys)
  have "\<forall>j < length ys. addr ! (1 + j) = ys ! j" "addr ! 0 = x" using assms(1) Cons by (simp_all add: nth_append)
  with insert_loop_nonzero [of ys 1 addr gs] assms Cons show ?thesis by (simp split: prod.splits)
qed (use assms in simp)

lemma zero_runs:
  obtains xs k zs where "gs = xs @ replicate k (0 :: 'a :: zero) @ zs" "0 \<notin> set xs" "k = 0 \<longrightarrow> zs = []" "zs = [] \<or> hd zs \<noteq> 0"
proof -
  let ?xs = "takeWhile (\<lambda>g. g \<noteq> 0) gs" and ?r = "dropWhile (\<lambda>g. g \<noteq> 0) gs"
  let ?zs = "dropWhile (\<lambda>g. g = 0) ?r" and ?z = "takeWhile (\<lambda>g. g = 0) ?r"
  have "?z = replicate (length ?z) 0" by (rule replicate_length_same [symmetric]) (auto dest: set_takeWhileD)
  then have "gs = ?xs @ replicate (length ?z) 0 @ ?zs" by (metis takeWhile_dropWhile_id)
  moreover have "0 \<notin> set ?xs" by (auto dest: set_takeWhileD)
  moreover have "length ?z = 0 \<longrightarrow> ?zs = []"
  proof
    assume "length ?z = 0"
    then have "?r = []" using hd_dropWhile [of "\<lambda>g. g \<noteq> 0" gs] by (cases ?r) auto
    then show "?zs = []" by (simp only: dropWhile.simps)
  qed
  moreover have "?zs = [] \<or> hd ?zs \<noteq> 0" using hd_dropWhile by blast
  ultimately show ?thesis using that by blast
qed

section \<open>Hosts\<close>

lemma find_char_first: "c \<notin> set xs \<Longrightarrow> find_char c (xs @ c # ys) 0 = Some (length xs)"
proof -
  assume "c \<notin> set xs"
  then have "takeWhile (\<lambda>x. x \<noteq> c) (xs @ c # ys) = xs" by (auto simp: takeWhile_append)
  then show ?thesis by (simp add: find_char_def)
qed

lemma find_char_absent: "c \<notin> set (drop p xs) \<Longrightarrow> find_char c xs p = None"
proof (rule ccontr)
  assume "c \<notin> set (drop p xs)" "find_char c xs p \<noteq> None"
  then obtain n where n: "find_char c xs p = Some n" by blast
  note f = find_char_Some(1-3) [OF n]
  then have "drop p xs ! (n - p) \<in> set (drop p xs)" by (intro nth_mem) auto
  then have "xs ! n \<in> set (drop p xs)" using f by simp
  with f \<open>c \<notin> _\<close> show False by simp
qed

lemma find_char_shift: "find_char c (x # xs) (Suc p) = map_option Suc (find_char c xs p)"
  by (simp add: find_char_def Let_def)

section \<open>Properties\<close>

text \<open>
  \<open>CountBytes\<close> terminates on every value and counts the bits that are set.
\<close>

theorem count_bits: "unat (CountBytes v) = ones (unat (v :: u32)) \<and> unat (CountBytes b) = ones (unat (b :: u8))"
proof -
  have "ones (unat v) \<le> 32" "ones (unat b) \<le> 8"
    using ones_le [of "unat v" 32] ones_le [of "unat b" 8] unsigned_less [of v] unsigned_less [of b] by simp_all
  then show ?thesis by (simp add: CountBytes_def count_loop_ones)
qed

text \<open>
  For prefix lengths from 1 to 32 the IPv4 network arithmetic is right, read in host order: the subnet mask has that
  many leading ones, the network address is the address under the mask, and the network address and the
  broadcast address bound exactly the addresses with the same prefix. A prefix length of 0, which \<open>prefix_len > 32\<close> lets
  through, shifts by the whole width, and \<open>SubnetMask\<close> does so for lengths above 32 too.
\<close>

theorem ipv4_prefix:
  "(1 \<le> p \<and> p \<le> 32 \<longrightarrow> (\<exists>n b m.
      IPv4_NetworkAddress a p = Inr (Some n) \<and> IPv4_BroadcastAddress a p = Inr (Some b) \<and> IPv4_SubnetMask p = Inr m \<and>
      ByteswapOnLittleEndian (sin_addr m) = NOT (mask (32 - unat p)) \<and>
      ByteswapOnLittleEndian (sin_addr n) = ByteswapOnLittleEndian (sin_addr a) AND ByteswapOnLittleEndian (sin_addr m) \<and>
      (\<forall>x. drop_bit (32 - unat p) x = drop_bit (32 - unat p) (ByteswapOnLittleEndian (sin_addr a)) \<longleftrightarrow>
         ByteswapOnLittleEndian (sin_addr n) \<le> x \<and> x \<le> ByteswapOnLittleEndian (sin_addr b)))) \<and>
   IPv4_NetworkAddress a 0 = Inl Undefined_Shift \<and> IPv4_BroadcastAddress a 0 = Inl Undefined_Shift \<and>
   (p = 0 \<or> 32 < p \<longrightarrow> IPv4_SubnetMask p = Inl Undefined_Shift) \<and>
   (32 < p \<longrightarrow> IPv4_NetworkAddress a p = Inr None \<and> IPv4_BroadcastAddress a p = Inr None)"
proof -
  let ?h = "byteswap (sin_addr a)" and ?k = "32 - unat p"
  have 8: "8 dvd LENGTH(32)" by simp
  have main: "\<exists>n b m. IPv4_NetworkAddress a p = Inr (Some n) \<and> IPv4_BroadcastAddress a p = Inr (Some b) \<and>
      IPv4_SubnetMask p = Inr m \<and> byteswap (sin_addr m) = NOT (mask ?k) \<and>
      byteswap (sin_addr n) = ?h AND byteswap (sin_addr m) \<and>
      (\<forall>x. drop_bit ?k x = drop_bit ?k ?h \<longleftrightarrow> byteswap (sin_addr n) \<le> x \<and> x \<le> byteswap (sin_addr b))"
    if p: "1 \<le> p" "p \<le> 32"
  proof -
    have "1 \<le> unat p" using p(1) by (simp add: word_le_nat_alt)
    then have k: "?k < LENGTH(32)" by simp
    show ?thesis using p prefix_range [OF k, of _ ?h]
      by (simp add: IPv4_NetworkAddress_def IPv4_BroadcastAddress_def IPv4_SubnetMask_def CreateMask_32
          ByteswapOnLittleEndian_eq byteswap_bitwise [OF 8] byteswap_byteswap [OF 8] not_less)
  qed
  then show ?thesis unfolding ByteswapOnLittleEndian_eq
    by (auto simp: IPv4_NetworkAddress_def IPv4_BroadcastAddress_def IPv4_SubnetMask_def CreateMask_32)
qed

theorem ipv4_prefix_witness:
  "\<exists>n b m. IPv4_NetworkAddress (new_IPv4Address 0xC0A80A2A 80) 24 = Inr (Some n) \<and>
     IPv4_BroadcastAddress (new_IPv4Address 0xC0A80A2A 80) 24 = Inr (Some b) \<and> IPv4_SubnetMask 24 = Inr m \<and>
     ByteswapOnLittleEndian (sin_addr m) = 0xFFFFFF00"
proof -
  have "NOT (mask (32 - unat (24 :: u32))) = (0xFFFFFF00 :: u32)" by (simp add: mask_eq_decr_exp)
  with ipv4_prefix [of 24 "new_IPv4Address 0xC0A80A2A 80"] show ?thesis by (simp, metis)
qed

text \<open>
  IPv6 prefixes below 128, bit by bit from the most significant one: the broadcast address sets every bit behind the
  prefix, and the subnet mask is the prefix. The network address is wrong in the byte where the prefix ends: there it keeps the
  bits behind the prefix and clears those of the prefix. Prefix lengths of 128 and more index the address out of bounds.
\<close>

theorem ipv6_prefix:
  assumes "length (s6_addr a) = 16"
  shows "(unat p < 128 \<longrightarrow> (\<exists>b m n.
      IPv6_BroadcastAddress a p = Inr b \<and> IPv6_SubnetMask p = Inr m \<and> IPv6_NetworkAddress a p = Inr n \<and>
      (\<forall>i < 128. (v6bit (s6_addr b) i \<longleftrightarrow> i < unat p \<longrightarrow> v6bit (s6_addr a) i) \<and> (v6bit (s6_addr m) i \<longleftrightarrow> i < unat p) \<and>
        (v6bit (s6_addr n) i \<longleftrightarrow> v6bit (s6_addr a) i \<and>
          (i div 8 < unat p div 8 \<or> i div 8 = unat p div 8 \<and> unat p \<le> i))))) \<and>
    (128 \<le> unat p \<longrightarrow> IPv6_BroadcastAddress a p = Inl Out_Of_Bounds \<and> IPv6_NetworkAddress a p = Inl Out_Of_Bounds \<and>
      IPv6_SubnetMask p = Inl Out_Of_Bounds)"
proof (intro conjI impI)
  assume p: "unat p < 128"
  let ?j = "unat p div 8" and ?x = "mask (8 - unat p mod 8) :: u8"
  have j: "?j < 16" and m: "CreateMask (p mod 8) = Inr ?x" and r: "unat p mod 8 < 8"
    using p CreateMask_8 [OF prefix_parts(3)] by (simp_all add: prefix_parts)
  let ?b = "a\<lparr>s6_addr := fill_from (Suc ?j) 0xff ((s6_addr a)[?j := s6_addr a ! ?j OR ?x])\<rparr>"
  let ?n = "a\<lparr>s6_addr := fill_from (Suc ?j) 0 ((s6_addr a)[?j := s6_addr a ! ?j AND ?x])\<rparr>"
  let ?m = "new_IPv6Address\<lparr>s6_addr := replicate ?j 0xff @ drop ?j ((replicate 16 0)[?j := NOT ?x])\<rparr>"
  have runs: "IPv6_BroadcastAddress a p = Inr ?b" "IPv6_NetworkAddress a p = Inr ?n" "IPv6_SubnetMask p = Inr ?m"
    using j m assms
    by (simp_all add: IPv6_BroadcastAddress_def IPv6_NetworkAddress_def IPv6_SubnetMask_def prefix_parts Let_def
        del: fill_from.simps)
  have bits: "(v6bit (s6_addr ?b) i \<longleftrightarrow> i < unat p \<longrightarrow> v6bit (s6_addr a) i) \<and> (v6bit (s6_addr ?m) i \<longleftrightarrow> i < unat p) \<and>
      (v6bit (s6_addr ?n) i \<longleftrightarrow> v6bit (s6_addr a) i \<and> (i div 8 < ?j \<or> i div 8 = ?j \<and> unat p \<le> i))" if i: "i < 128" for i
  proof -
    have t: "i div 8 < 16" using i by simp
    have ff: "bit (0xff :: u8) (7 - i mod 8)"
    proof -
      have e: "(0xff :: u8) = - 1" by simp
      show ?thesis unfolding e by (simp add: bit_minus_1_iff)
    qed
    have mn: "(replicate ?j 0xff @ drop ?j ((replicate 16 0)[?j := NOT ?x])) ! (i div 8) =
        (if i div 8 < ?j then 0xff else if i div 8 = ?j then NOT ?x else (0 :: u8))"
      using j t by (auto simp: nth_append nth_list_update)
    have nb: "bit (NOT ?x) (7 - i mod 8) \<longleftrightarrow> \<not> unat p mod 8 \<le> i mod 8"
    proof -
      have "7 - i mod 8 < LENGTH(8)" by simp
      with v6bit_mask [OF r, of i] show ?thesis by (simp add: bit_not_iff)
    qed
    show ?thesis
      using j t assms ff nb v6bit_mask [OF r, of i] byte_split [of i "unat p"] mn
      by (auto simp: v6bit_def fill_from_nth bit_or_iff bit_and_iff not_le not_less simp del: fill_from.simps)
  qed
  show "\<exists>b m n. IPv6_BroadcastAddress a p = Inr b \<and> IPv6_SubnetMask p = Inr m \<and> IPv6_NetworkAddress a p = Inr n \<and>
      (\<forall>i < 128. (v6bit (s6_addr b) i \<longleftrightarrow> i < unat p \<longrightarrow> v6bit (s6_addr a) i) \<and> (v6bit (s6_addr m) i \<longleftrightarrow> i < unat p) \<and>
        (v6bit (s6_addr n) i \<longleftrightarrow> v6bit (s6_addr a) i \<and> (i div 8 < ?j \<or> i div 8 = ?j \<and> unat p \<le> i)))"
    using runs bits by blast
qed (use assms div_le_mono [of 128 "unat p" 8] in \<open>simp_all add: IPv6_BroadcastAddress_def IPv6_NetworkAddress_def IPv6_SubnetMask_def prefix_parts Let_def\<close>)

theorem ipv6_prefix_witness:
  "\<exists>m. IPv6_SubnetMask 36 = Inr m \<and> v6bit (s6_addr m) 35 \<and> \<not> v6bit (s6_addr m) 36"
proof -
  have l: "length (s6_addr new_IPv6Address) = 16" by (simp add: new_IPv6Address_def)
  from ipv6_prefix [OF l, of 36] obtain m where "IPv6_SubnetMask 36 = Inr m"
    "\<forall>i < 128. v6bit (s6_addr m) i \<longleftrightarrow> i < unat (36 :: u32)" by auto
  then show ?thesis by auto
qed

text \<open>
  Addresses whose length lies within their structure are ordered as their bytes are: \<open>operator<\<close> is a strict order,
  total up to \<open>operator==\<close>, so that they can be keys of a \<open>std::map\<close>.
\<close>

theorem address_order:
  assumes "addr_ok a" "addr_ok b" "addr_ok c"
  shows "\<not> addr_less a a \<and> (addr_less a b \<and> addr_less b c \<longrightarrow> addr_less a c) \<and>
    (addr_eq a b \<or> addr_less a b \<or> addr_less b a) \<and> (addr_eq a b \<longrightarrow> \<not> addr_less a b \<and> \<not> addr_less b a)"
  using assms bytes_order.irrefl bytes_order.trans bytes_order.total
  by (simp add: addr_less_view addr_eq_view) metis

theorem address_order_witness:
  "addr_eq (IPv4Address (new_IPv4Address 1 80)) (IPv6Address new_IPv6Address) \<or>
   addr_less (IPv4Address (new_IPv4Address 1 80)) (IPv6Address new_IPv6Address) \<or>
   addr_less (IPv6Address new_IPv6Address) (IPv4Address (new_IPv4Address 1 80))"
  using address_order [of "IPv4Address (new_IPv4Address 1 80)" "IPv6Address new_IPv6Address" "IPv6Address new_IPv6Address"]
  by (simp add: addr_ok_def new_IPv6Address_def)

text \<open>
  What a Unix address prints: the path it was made from; for a path that starts with a null character, and for the empty
  path, the two characters \<open>\0\<close> and the rest. A path that does not fit is refused.
\<close>

theorem unix_path:
  "(path \<noteq> [] \<and> CHR 0x00 \<notin> set path \<and> length path \<le> 107 \<longrightarrow>
      (\<exists>u n. UnixAddress_of path = Inr (UnixAddress u n) \<and> Unix_GetPath u n = path \<and> n = length path + 3)) \<and>
   (path \<noteq> [] \<and> hd path = CHR 0x00 \<and> length path \<le> 108 \<longrightarrow>
      (\<exists>u n. UnixAddress_of path = Inr (UnixAddress u n) \<and> Unix_GetPath u n = [CHR 0x5C, CHR ''0''] @ tl path)) \<and>
   (\<exists>u n. UnixAddress_of [] = Inr (UnixAddress u n) \<and> Unix_GetPath u n = [CHR 0x5C, CHR ''0'']) \<and>
   (108 < length path \<or> length path = 108 \<and> hd path \<noteq> CHR 0x00 \<longrightarrow> UnixAddress_of path = Inl Logic_Error)"
proof (intro conjI impI)
  assume p: "path \<noteq> [] \<and> CHR 0x00 \<notin> set path \<and> length path \<le> 107"
  then have h: "hd path \<noteq> CHR 0x00" "path ! 0 \<noteq> CHR 0x00" by (metis hd_in_set, metis length_greater_0_conv nth_mem)
  have "takeWhile (\<lambda>c. c \<noteq> CHR 0x00) (path @ CHR 0x00 # zs) = path" for zs using p by (auto simp: takeWhile_append)
  with p h show "\<exists>u n. UnixAddress_of path = Inr (UnixAddress u n) \<and> Unix_GetPath u n = path \<and> n = length path + 3"
    by (simp add: UnixAddress_of_def Unix_GetPath_def nth_append)
next
  assume p: "path \<noteq> [] \<and> hd path = CHR 0x00 \<and> length path \<le> 108"
  then obtain q where "path = CHR 0x00 # q" by (cases path) auto
  with p show "\<exists>u n. UnixAddress_of path = Inr (UnixAddress u n) \<and> Unix_GetPath u n = [CHR 0x5C, CHR ''0''] @ tl path"
    by (simp add: UnixAddress_of_def Unix_GetPath_def)
next
  assume "108 < length path \<or> length path = 108 \<and> hd path \<noteq> CHR 0x00"
  then show "UnixAddress_of path = Inl Logic_Error" by (auto simp: UnixAddress_of_def Let_def)
qed (simp add: UnixAddress_of_def Unix_GetPath_def)

theorem unix_path_witness: "\<exists>u n. UnixAddress_of ''/tmp/s'' = Inr (UnixAddress u n) \<and> Unix_GetPath u n = ''/tmp/s''"
proof -
  have "''/tmp/s'' \<noteq> [] \<and> CHR 0x00 \<notin> set ''/tmp/s'' \<and> length ''/tmp/s'' \<le> 107" by simp
  with unix_path [of "''/tmp/s''"] show ?thesis by blast
qed

text \<open>
  A host is taken apart into node and service: \<open>host:service\<close>, \<open>[address]:service\<close>, \<open>[address]\<close>, and a host without a colon.
  An IPv6 address without brackets becomes the node, but its part from the first colon on is passed as the service.
\<close>

theorem split_host_forms:
  assumes "h \<noteq> []" "CHR '':'' \<notin> set h" "hd h \<noteq> CHR ''[''" "CHR '':'' \<notin> set s" "v \<noteq> []" "CHR '']'' \<notin> set v"
  shows "split_host (h @ '':'' @ s) = (h, Some s) \<and> split_host h = (h, None) \<and>
    split_host (''['' @ v @ '']:'' @ s) = (v, Some s) \<and> split_host (''['' @ v @ '']'') = (v, None) \<and>
    split_host (h @ '':'' @ r @ '':'' @ s) = (h @ '':'' @ r @ '':'' @ s, Some ('':'' @ r @ '':'' @ s))"
proof -
  have nb: "split_bracket (h @ x) = ([], None)" for x using assms(1,3) by (simp add: split_bracket_def)
  have br: "split_bracket (CHR ''['' # v @ CHR '']'' # t) =
      (v, if t \<noteq> [] \<and> hd t = CHR '':'' then Some (tl t) else None)" for t
  proof -
    have "find_char (CHR '']'') (CHR ''['' # v @ CHR '']'' # t) 1 = Some (Suc (length v))"
      using find_char_shift [of _ _ _ 0] find_char_first [OF assms(6)] by simp
    then show ?thesis by (cases t) (simp_all add: split_bracket_def nth_append)
  qed
  have "split_host (h @ CHR '':'' # s) = (h, Some s)"
    using find_char_first [OF assms(2)] find_char_absent [of "CHR '':''" "Suc (length h)" "h @ CHR '':'' # s"] assms(1,4)
    by (simp add: split_host_def nb)
  moreover have "split_host h = (h, None)"
    using nb [of "[]"] find_char_absent [of "CHR '':''" 0 h] assms(2) by (simp add: split_host_def)
  moreover have "split_host (h @ CHR '':'' # r @ CHR '':'' # s) =
      (h @ CHR '':'' # r @ CHR '':'' # s, Some (CHR '':'' # r @ CHR '':'' # s))"
  proof -
    let ?t = "h @ CHR '':'' # r @ CHR '':'' # s"
    have "CHR '':'' \<in> set (drop (Suc (length h)) ?t)" by simp
    then have "find_char (CHR '':'') ?t (Suc (length h)) \<noteq> None" using find_char_None by blast
    then show ?thesis using find_char_first [OF assms(2)] by (auto simp: split_host_def nb)
  qed
  ultimately show ?thesis using br [of "CHR '':'' # s"] br [of "[]"] assms(5) by (simp add: split_host_def)
qed

theorem split_host_forms_witness:
  "split_host ''[::1]:80'' = (''::1'', Some ''80'') \<and> split_host ''a::80'' = (''a::80'', Some ''::80'')"
  using split_host_forms [of "''a''" "''80''" "''::1''" "''''"] by simp

text \<open>
  The text of an IPv6 address, with its first run of zeros left out, denotes the address: reading the groups and filling
  the gap gives the eight groups back.
\<close>

theorem ipv6_text:
  assumes "length addr = 8"
  shows "v6_expand (v6_pieces addr) = Some (map ByteswapOnLittleEndian addr)"
proof -
  obtain xs k zs where a: "addr = xs @ replicate k 0 @ zs" "0 \<notin> set xs" "k = 0 \<longrightarrow> zs = []" "zs = [] \<or> hd zs \<noteq> 0"
    by (rule zero_runs)
  have front: "insert_loop addr 0 False addr =
      (let (ps, u) = insert_loop addr (length xs + k) False zs in (sep_groups (swap_all xs) @ ps, u))"
    using insert_loop_front [OF a(1,2)] by (simp only: insert_loop_zeros)
  consider (plain) "k = 0" "zs = []" | (end_) "k \<noteq> 0" "zs = []" | (mid) z ys where "k \<noteq> 0" "zs = z # ys" "z \<noteq> 0"
    using a(3,4) by (cases zs) auto
  then show ?thesis
  proof cases
    case plain
    then have "addr ! 7 \<in> set xs" using a(1) assms by simp
    then have "addr ! 7 \<noteq> 0" using a(2) by metis
    then have "v6_pieces addr = sep_groups (swap_all addr)" using front plain a(1) by (simp add: v6_pieces_def)
    then show ?thesis using assms by (simp add: v6_expand_def split_sep_groups read_sep_groups)
  next
    case end_
    then have "addr ! 7 = 0" using a(1) assms by (simp add: nth_append)
    then have "v6_pieces addr = sep_groups (swap_all xs) @ [Colon, Colon]" using front end_ by (simp add: v6_pieces_def)
    then show ?thesis using assms end_ a(1) by (auto simp: v6_expand_def split_sep_groups read_sep_groups)
  next
    case mid
    have p: "addr ! (length xs + k - 1) = 0" "length xs + k \<noteq> 0" using a(1) mid by (auto simp: nth_append)
    have "insert_loop addr (length xs + k) False zs = (Colon # colon_groups (swap_all zs), True)"
      using mid p insert_loop_used [of "Suc (length xs + k)" addr ys] by simp
    then have "v6_pieces addr = sep_groups (swap_all xs) @ Colon # Colon # sep_groups (swap_all zs)"
      using front mid by (simp add: v6_pieces_def)
    then show ?thesis using assms a(1) mid by (auto simp: v6_expand_def split_sep_groups read_sep_groups simp del: colon_groups_simps)
  qed
qed

theorem ipv6_text_witness: "v6_expand (v6_pieces [0x120, 0, 0, 0, 0, 0, 0, 0x100]) = Some (map ByteswapOnLittleEndian [0x120, 0, 0, 0, 0, 0, 0, 0x100])"
  by (rule ipv6_text) simp

end
