(* ===== verification/Fd_Manager.thy ===== *)
theory Fd_Manager
  imports Prelude
begin

text \<open>
  The table of file descriptors the hooked system calls consult (\<open>net/fd_manager.h\<close>,
  \<open>net/fd_manager.cc\<close>). What the kernel says about a descriptor is an argument: \<open>fstat\<close> gives \<open>None\<close> where
  the call fails and otherwise whether it is a socket; \<open>getfl\<close> is the answer to \<open>F_GETFL\<close>. A descriptor
  is an \<open>int\<close>; indexing the table outside its bounds is an error of the model.
\<close>

section \<open>Data\<close>

definition O_NONBLOCK :: u32 where "O_NONBLOCK = 0x800"

datatype timeout_opt = SO_RCVTIMEO | SO_SNDTIMEO

record fd_ctx =
  is_init :: bool
  is_socket :: bool
  sys_nonblock :: bool
  user_nonblock :: bool
  is_closed :: bool
  ctx_fd :: int
  recv_timeout :: u64
  send_timeout :: u64

type_synonym fd_manager = "fd_ctx option list"

section \<open>A descriptor's context\<close>

text \<open>\<open>Init\<close> returns the context and the flags it sets in the kernel, if it does.\<close>

definition FdCtx_Init :: "(int \<Rightarrow> bool option) \<Rightarrow> (int \<Rightarrow> u32) \<Rightarrow> fd_ctx \<Rightarrow> fd_ctx \<times> u32 option" where
  "FdCtx_Init fstat getfl ctx =
     (if is_init ctx then (ctx, None)
      else
        let ctx = ctx\<lparr>recv_timeout := - 1, send_timeout := - 1\<rparr>;
            ctx = (case fstat (ctx_fd ctx) of
                     None \<Rightarrow> ctx\<lparr>is_init := False, is_socket := False\<rparr>
                   | Some sock \<Rightarrow> ctx\<lparr>is_init := True, is_socket := sock\<rparr>);
            flags = getfl (ctx_fd ctx);
            set = (if is_socket ctx \<and> flags AND O_NONBLOCK = 0 then Some (flags OR O_NONBLOCK) else None)
        in (ctx\<lparr>sys_nonblock := is_socket ctx, user_nonblock := False, is_closed := False\<rparr>, set))"

definition FdCtx :: "(int \<Rightarrow> bool option) \<Rightarrow> (int \<Rightarrow> u32) \<Rightarrow> int \<Rightarrow> fd_ctx \<times> u32 option" where
  "FdCtx fstat getfl fd =
     FdCtx_Init fstat getfl
       \<lparr>is_init = False, is_socket = False, sys_nonblock = False, user_nonblock = False, is_closed = False,
        ctx_fd = fd, recv_timeout = - 1, send_timeout = - 1\<rparr>"

definition SetTimeout :: "fd_ctx \<Rightarrow> timeout_opt \<Rightarrow> u64 \<Rightarrow> fd_ctx" where
  "SetTimeout ctx type v =
     (if type = SO_RCVTIMEO then ctx\<lparr>recv_timeout := v\<rparr> else ctx\<lparr>send_timeout := v\<rparr>)"

definition GetTimeout :: "fd_ctx \<Rightarrow> timeout_opt \<Rightarrow> u64" where
  "GetTimeout ctx type = (if type = SO_RCVTIMEO then recv_timeout ctx else send_timeout ctx)"

section \<open>The table\<close>

definition FdManager :: fd_manager where
  "FdManager = replicate 64 None"

definition datas_at :: "fd_manager \<Rightarrow> int \<Rightarrow> fd_ctx option result" where
  "datas_at fm fd = (if 0 \<le> fd \<and> nat fd < length fm then Inr (fm ! nat fd) else Inl Out_Of_Bounds)"

definition fm_resize :: "fd_manager \<Rightarrow> nat \<Rightarrow> fd_manager" where
  "fm_resize fm n = take n fm @ replicate (n - length fm) None"

text \<open>The part of \<open>Get\<close> under the read lock: an answer, or nothing yet.\<close>

definition Get_lookup :: "fd_manager \<Rightarrow> int \<Rightarrow> bool \<Rightarrow> fd_ctx option option result" where
  "Get_lookup fm fd auto_create =
     (if int (length fm) \<le> fd then Inr (if \<not> auto_create then Some None else None)
      else rbind (datas_at fm fd) (\<lambda>d.
        Inr (if d \<noteq> None \<or> \<not> auto_create then Some d else None)))"

text \<open>The part under the write lock, which looks at the size again. \<open>fd * 1.5\<close> is truncated.\<close>

definition Get_create :: "fd_manager \<Rightarrow> fd_ctx \<Rightarrow> int \<Rightarrow> fd_manager result" where
  "Get_create fm ctx fd =
     (let fm = (if fd \<ge> int (length fm) then fm_resize fm (nat (fd * 3 div 2)) else fm) in
      rbind (datas_at fm fd) (\<lambda>_. Inr (fm[nat fd := Some ctx])))"

definition fd_Get :: "(int \<Rightarrow> bool option) \<Rightarrow> (int \<Rightarrow> u32) \<Rightarrow> fd_manager \<Rightarrow> int \<Rightarrow> bool \<Rightarrow>
    (fd_ctx option \<times> fd_manager) result" where
  "fd_Get fstat getfl fm fd auto_create =
     (if fd = - 1 then Inr (None, fm)
      else rbind (Get_lookup fm fd auto_create) (\<lambda>r.
        case r of
          Some d \<Rightarrow> Inr (d, fm)
        | None \<Rightarrow>
            let ctx = fst (FdCtx fstat getfl fd) in
            rbind (Get_create fm ctx fd) (\<lambda>fm'. Inr (Some ctx, fm'))))"

definition fd_Del :: "fd_manager \<Rightarrow> int \<Rightarrow> fd_manager result" where
  "fd_Del fm fd =
     (if int (length fm) \<le> fd then Inr fm
      else rbind (datas_at fm fd) (\<lambda>_. Inr (fm[nat fd := None])))"

text \<open>Updating the object a \<open>FdCtx::ptr\<close> of the table points to.\<close>

definition fd_put :: "fd_manager \<Rightarrow> int \<Rightarrow> fd_ctx \<Rightarrow> fd_manager" where
  "fd_put fm fd ctx = fm[nat fd := Some ctx]"

section \<open>The table as a map\<close>

definition fd_lookup :: "fd_manager \<Rightarrow> int \<Rightarrow> fd_ctx option" where
  "fd_lookup fm fd = (if 0 \<le> fd \<and> nat fd < length fm then fm ! nat fd else None)"

lemma length_fm_resize [simp]: "length fm \<le> n \<Longrightarrow> length (fm_resize fm n) = n"
  by (simp add: fm_resize_def)

lemma fd_lookup_resize [simp]: "length fm \<le> n \<Longrightarrow> fd_lookup (fm_resize fm n) fd = fd_lookup fm fd"
  by (auto simp: fd_lookup_def fm_resize_def nth_append)

lemma fd_lookup_update:
  "0 \<le> fd \<Longrightarrow> nat fd < length fm \<Longrightarrow> fd_lookup (fm[nat fd := c]) fd' = (if fd' = fd then c else fd_lookup fm fd')"
  by (auto simp: fd_lookup_def nth_list_update eq_nat_nat_iff)

lemma fd_Get_plain: "0 \<le> fd \<Longrightarrow> fd_Get fstat getfl fm fd False = Inr (fd_lookup fm fd, fm)"
  by (auto simp: fd_Get_def Get_lookup_def datas_at_def fd_lookup_def nat_less_iff)

lemma fd_Get_auto:
  assumes "0 \<le> fd" "2 \<le> length fm"
  shows "\<exists>fm'. fd_Get fstat getfl fm fd True =
      Inr (Some (case fd_lookup fm fd of Some c \<Rightarrow> c | None \<Rightarrow> fst (FdCtx fstat getfl fd)), fm') \<and>
    length fm \<le> length fm' \<and>
    (\<forall>fd'. fd_lookup fm' fd' =
      (if fd' = fd then Some (case fd_lookup fm fd of Some c \<Rightarrow> c | None \<Rightarrow> fst (FdCtx fstat getfl fd))
       else fd_lookup fm fd'))"
proof (cases "fd_lookup fm fd")
  case (Some c)
  with assms show ?thesis
    by (auto simp: fd_Get_def Get_lookup_def datas_at_def fd_lookup_def nat_less_iff split: if_splits)
next
  case None
  let ?c = "fst (FdCtx fstat getfl fd)"
  define fm1 where "fm1 = (if fd \<ge> int (length fm) then fm_resize fm (nat (fd * 3 div 2)) else fm)"
  have l: "length fm \<le> nat (fd * 3 div 2)" "fd < fd * 3 div 2" if "int (length fm) \<le> fd"
    using that assms(2) by linarith+
  have n: "nat fd < length fm1" "length fm \<le> length fm1"
    using l assms(1) by (auto simp: fm1_def nat_less_iff)
  have look: "fd_lookup fm1 fd' = fd_lookup fm fd'" for fd' using l by (simp add: fm1_def)
  have "Get_lookup fm fd True = Inr None"
    using None assms(1) by (auto simp: Get_lookup_def datas_at_def fd_lookup_def nat_less_iff split: if_splits)
  then have "fd_Get fstat getfl fm fd True = Inr (Some ?c, fm1[nat fd := Some ?c])"
    using assms(1) n by (simp add: fd_Get_def Get_create_def Let_def fm1_def [symmetric] datas_at_def)
  with None n look fd_lookup_update [OF assms(1) n(1)] show ?thesis by auto
qed

lemma fd_Del_ok:
  assumes "0 \<le> fd"
  shows "\<exists>fm'. fd_Del fm fd = Inr fm' \<and> length fm' = length fm \<and>
    (\<forall>fd'. fd_lookup fm' fd' = (if fd' = fd then None else fd_lookup fm fd'))"
  using assms fd_lookup_update [OF assms, of fm None]
  by (auto simp: fd_Del_def datas_at_def fd_lookup_def nat_less_iff)

section \<open>Properties\<close>

text \<open>
  For non-negative descriptors the table is a map: \<open>Get\<close> with \<open>auto_create\<close> returns the descriptor's
  context, creating it once, without touching the others and growing the table as far as needed; a plain
  \<open>Get\<close> afterwards returns the same; \<open>Del\<close> removes exactly it. A fresh context of a socket is
  non-blocking in the kernel, blocking for the user, and without timeouts.
\<close>

theorem fd_table_map:
  assumes "0 \<le> fd" "2 \<le> length fm"
  shows "\<exists>c fm1 fm2. fd_Get fstat getfl fm fd True = Inr (Some c, fm1) \<and>
    fd_Get fstat getfl fm1 fd False = Inr (Some c, fm1) \<and> fd_Get fstat getfl fm1 fd True = Inr (Some c, fm1) \<and>
    fd_Del fm1 fd = Inr fm2 \<and> fd_Get fstat getfl fm2 fd False = Inr (None, fm2) \<and>
    (\<forall>fd'. fd' \<noteq> fd \<longrightarrow> fd_lookup fm1 fd' = fd_lookup fm fd' \<and> fd_lookup fm2 fd' = fd_lookup fm fd') \<and>
    (fd_lookup fm fd = None \<and> fstat fd = Some True \<longrightarrow>
      is_socket c \<and> sys_nonblock c \<and> \<not> user_nonblock c \<and> GetTimeout c SO_RCVTIMEO = - 1 \<and> GetTimeout c SO_SNDTIMEO = - 1 \<and>
      snd (FdCtx fstat getfl fd) = (if getfl fd AND O_NONBLOCK = 0 then Some (getfl fd OR O_NONBLOCK) else None))"
proof -
  define c where "c = (case fd_lookup fm fd of Some c \<Rightarrow> c | None \<Rightarrow> fst (FdCtx fstat getfl fd))"
  obtain fm1 where 1: "fd_Get fstat getfl fm fd True = Inr (Some c, fm1)" "length fm \<le> length fm1"
      "\<And>fd'. fd_lookup fm1 fd' = (if fd' = fd then Some c else fd_lookup fm fd')"
    using fd_Get_auto [OF assms, of fstat getfl] unfolding c_def by blast
  obtain fm2 where 2: "fd_Del fm1 fd = Inr fm2" "\<And>fd'. fd_lookup fm2 fd' = (if fd' = fd then None else fd_lookup fm1 fd')"
    using fd_Del_ok [OF assms(1), of fm1] by blast
  have "fd_lookup fm1 fd = Some c" using 1(3) by simp
  then have 3: "fd_Get fstat getfl fm1 fd True = Inr (Some c, fm1)"
    using assms(1) by (auto simp: fd_Get_def Get_lookup_def datas_at_def fd_lookup_def nat_less_iff split: if_splits)
  have "fd_lookup fm fd = None \<and> fstat fd = Some True \<longrightarrow>
      is_socket c \<and> sys_nonblock c \<and> \<not> user_nonblock c \<and> GetTimeout c SO_RCVTIMEO = - 1 \<and> GetTimeout c SO_SNDTIMEO = - 1 \<and>
      snd (FdCtx fstat getfl fd) = (if getfl fd AND O_NONBLOCK = 0 then Some (getfl fd OR O_NONBLOCK) else None)"
    by (auto simp: c_def FdCtx_def FdCtx_Init_def GetTimeout_def Let_def)
  with 1 2 3 fd_Get_plain [OF assms(1)] show ?thesis by fastforce
qed

theorem fd_table_map_witness:
  "\<exists>c fm1. fd_Get (\<lambda>_. Some True) (\<lambda>_. 2) FdManager 100 True = Inr (Some c, fm1) \<and> sys_nonblock c \<and>
     fd_Get (\<lambda>_. Some True) (\<lambda>_. 2) fm1 100 False = Inr (Some c, fm1)"
  using fd_table_map [of 100 FdManager "\<lambda>_. Some True" "\<lambda>_. 2"] by (auto simp: FdManager_def fd_lookup_def)

text \<open>
  The table does not check for negative descriptors other than \<open>-1\<close> in \<open>Get\<close>, and not at all in \<open>Del\<close>:
  they index the vector out of bounds.
\<close>

theorem fd_negative:
  "(fd < - 1 \<longrightarrow> fd_Get fstat getfl fm fd auto_create = Inl Out_Of_Bounds) \<and>
   (fd < 0 \<longrightarrow> fd_Del fm fd = Inl Out_Of_Bounds) \<and> fd_Get fstat getfl fm (- 1) auto_create = Inr (None, fm)"
  by (auto simp: fd_Get_def Get_lookup_def fd_Del_def datas_at_def)

theorem fd_negative_witness: "fd_Del FdManager (- 1) = Inl Out_Of_Bounds"
  using fd_negative [of "- 1" _ _ FdManager] by simp

end
