(* ===== verification/Fiber.thy ===== *)
theory Fiber
  imports Prelude
begin

text \<open>
  Fibers of one thread (\<open>fiber/fiber.h\<close>, \<open>fiber/fiber.cc\<close>). A flow of control is identified with the
  fiber whose stack it runs on (for the thread's main flow, the main fiber). A saved
  \<open>ucontext_t\<close> is either the entry \<open>makecontext\<close> prepared, which starts \<open>MainFunc\<close> on the fiber's own
  stack, or the flow that was running when \<open>swapcontext\<close> or \<open>getcontext\<close> stored it. \<open>ft_flow\<close> is the
  flow the processor executes; it is not a variable of the program, and the theorems compare it
  with what the program believes (\<open>t_fiber\<close>). The scheduler's fiber of the thread
  (\<open>Scheduler::GetSchedulerFiber\<close>) is a field of the thread's state. \<open>getcontext\<close> and
  \<open>swapcontext\<close> do not fail, and memory does not run out.
\<close>

section \<open>Data\<close>

datatype state = READY | RUNNING | STATE_TERM

datatype ucontext = Entry | Saved nat

record 'cb fiber =
  fb_id :: u64
  fb_stack_size :: u32
  fb_state :: state
  fb_ctx :: ucontext
  fb_stack :: bool
  fb_cb :: "'cb option"
  fb_run_in_scheduler :: bool

record 'cb fiber_thread =
  ft_heap :: "nat \<Rightarrow> 'cb fiber option"
  t_fiber :: "nat option"
  t_thread_fiber :: "nat option"
  ft_scheduler_fiber :: "nat option"
  ft_flow :: nat
  s_fiber_id :: u64
  s_fiber_count :: u64

definition fiber_at :: "'cb fiber_thread \<Rightarrow> nat \<Rightarrow> 'cb fiber result" where
  "fiber_at ts a = (case ft_heap ts a of Some f \<Rightarrow> Inr f | None \<Rightarrow> Inl Null_Deref)"

definition ptr_at :: "nat option \<Rightarrow> nat result" where
  "ptr_at p = (case p of Some a \<Rightarrow> Inr a | None \<Rightarrow> Inl Null_Deref)"

definition put_fiber :: "'cb fiber_thread \<Rightarrow> nat \<Rightarrow> 'cb fiber \<Rightarrow> 'cb fiber_thread" where
  "put_fiber ts a f = ts\<lparr>ft_heap := (ft_heap ts)(a \<mapsto> f)\<rparr>"

text \<open>\<open>swapcontext(&from->ctx_, &to->ctx_)\<close>: store the running flow, continue the stored one.\<close>

definition swapcontext :: "'cb fiber_thread \<Rightarrow> nat \<Rightarrow> nat \<Rightarrow> 'cb fiber_thread result" where
  "swapcontext ts from to =
     rbind (fiber_at ts from) (\<lambda>ff.
     let ts1 = put_fiber ts from (ff\<lparr>fb_ctx := Saved (ft_flow ts)\<rparr>) in
     rbind (fiber_at ts1 to) (\<lambda>ft.
     Inr (ts1\<lparr>ft_flow := (case fb_ctx ft of Entry \<Rightarrow> to | Saved g \<Rightarrow> g)\<rparr>)))"

section \<open>Operations\<close>

definition SetThis :: "'cb fiber_thread \<Rightarrow> nat option \<Rightarrow> 'cb fiber_thread" where
  "SetThis ts f = ts\<lparr>t_fiber := f\<rparr>"

definition GetFiberId :: "'cb fiber_thread \<Rightarrow> u64 result" where
  "GetFiberId ts =
     (case t_fiber ts of Some a \<Rightarrow> rbind (fiber_at ts a) (\<lambda>f. Inr (fb_id f)) | None \<Rightarrow> Inr 0)"

text \<open>The private constructor of a thread's main fiber, at address \<open>a\<close>.\<close>

definition Fiber_main :: "'cb fiber_thread \<Rightarrow> nat \<Rightarrow> 'cb fiber_thread" where
  "Fiber_main ts a =
     put_fiber (SetThis ts (Some a))
       a \<lparr>fb_id = s_fiber_id ts, fb_stack_size = 0, fb_state = RUNNING, fb_ctx = Saved (ft_flow ts),
          fb_stack = False, fb_cb = None, fb_run_in_scheduler = False\<rparr>
     \<lparr>s_fiber_count := s_fiber_count ts + 1, s_fiber_id := s_fiber_id ts + 1\<rparr>"

definition GetThis :: "'cb fiber_thread \<Rightarrow> nat \<Rightarrow> (nat \<times> 'cb fiber_thread) result" where
  "GetThis ts a =
     (case t_fiber ts of
        Some f \<Rightarrow> Inr (f, ts)
      | None \<Rightarrow>
          let ts1 = Fiber_main ts a in
          rbind (guard (t_fiber ts1 = Some a) Assertion_Failed) (\<lambda>_.
          Inr (a, ts1\<lparr>t_thread_fiber := Some a\<rparr>)))"

definition Fiber_new ::
  "u32 \<Rightarrow> 'cb fiber_thread \<Rightarrow> nat \<Rightarrow> 'cb option \<Rightarrow> u64 \<Rightarrow> bool \<Rightarrow> 'cb fiber_thread" where
  "Fiber_new g_fiber_stack_size ts a cb stacksize run_in_scheduler =
     put_fiber ts
       a \<lparr>fb_id = s_fiber_id ts,
          fb_stack_size = (if stacksize \<noteq> 0 then ucast stacksize else g_fiber_stack_size),
          fb_state = READY, fb_ctx = Entry, fb_stack = True, fb_cb = cb,
          fb_run_in_scheduler = run_in_scheduler\<rparr>
     \<lparr>s_fiber_id := s_fiber_id ts + 1, s_fiber_count := s_fiber_count ts + 1\<rparr>"

definition Fiber_destroy :: "'cb fiber_thread \<Rightarrow> nat \<Rightarrow> 'cb fiber_thread result" where
  "Fiber_destroy ts a =
     rbind (fiber_at ts a) (\<lambda>f.
     let ts1 = ts\<lparr>s_fiber_count := s_fiber_count ts - 1\<rparr> in
     if fb_stack f then
       rbind (guard (fb_state f = STATE_TERM) Assertion_Failed) (\<lambda>_.
       Inr (ts1\<lparr>ft_heap := (ft_heap ts)(a := None)\<rparr>))
     else
       rbind (guard (fb_cb f = None) Assertion_Failed) (\<lambda>_.
       rbind (guard (fb_state f = RUNNING) Assertion_Failed) (\<lambda>_.
       Inr ((if t_fiber ts = Some a then SetThis ts1 None else ts1)\<lparr>ft_heap := (ft_heap ts)(a := None)\<rparr>))))"

definition Reset :: "'cb fiber_thread \<Rightarrow> nat \<Rightarrow> 'cb option \<Rightarrow> 'cb fiber_thread result" where
  "Reset ts a cb =
     rbind (fiber_at ts a) (\<lambda>f.
     rbind (guard (fb_stack f) Assertion_Failed) (\<lambda>_.
     rbind (guard (fb_state f = STATE_TERM) Assertion_Failed) (\<lambda>_.
     Inr (put_fiber ts a (f\<lparr>fb_cb := cb, fb_ctx := Entry, fb_state := READY\<rparr>)))))"

definition Resume :: "'cb fiber_thread \<Rightarrow> nat \<Rightarrow> 'cb fiber_thread result" where
  "Resume ts a =
     rbind (fiber_at ts a) (\<lambda>f.
     rbind (guard (fb_state f \<noteq> STATE_TERM \<and> fb_state f \<noteq> RUNNING) Assertion_Failed) (\<lambda>_.
     let ts1 = put_fiber (SetThis ts (Some a)) a (f\<lparr>fb_state := RUNNING\<rparr>) in
     if fb_run_in_scheduler f
     then rbind (ptr_at (ft_scheduler_fiber ts)) (\<lambda>s. swapcontext ts1 s a)
     else rbind (ptr_at (t_thread_fiber ts)) (\<lambda>m. swapcontext ts1 m a)))"

definition Yield :: "'cb fiber_thread \<Rightarrow> nat \<Rightarrow> 'cb fiber_thread result" where
  "Yield ts a =
     rbind (fiber_at ts a) (\<lambda>f.
     rbind (guard (fb_state f = RUNNING \<or> fb_state f = STATE_TERM) Assertion_Failed) (\<lambda>_.
     let ts1 = SetThis ts (t_thread_fiber ts);
         ts2 = (if fb_state f \<noteq> STATE_TERM then put_fiber ts1 a (f\<lparr>fb_state := READY\<rparr>) else ts1) in
     if fb_run_in_scheduler f
     then rbind (ptr_at (ft_scheduler_fiber ts)) (\<lambda>s. swapcontext ts2 a s)
     else rbind (ptr_at (t_thread_fiber ts)) (\<lambda>m. swapcontext ts2 a m)))"

text \<open>What \<open>MainFunc\<close> does once the callback has returned; \<open>cur\<close> is the fiber it started as.\<close>

definition MainFunc_return :: "'cb fiber_thread \<Rightarrow> nat \<Rightarrow> 'cb fiber_thread result" where
  "MainFunc_return ts cur =
     rbind (fiber_at ts cur) (\<lambda>f. Yield (put_fiber ts cur (f\<lparr>fb_cb := None, fb_state := STATE_TERM\<rparr>)) cur)"

section \<open>Disciplined use\<close>

text \<open>
  The documented use: the main flow resumes the fibers that do not take part in scheduling, the
  scheduler's flow resumes those that do, and a fiber is resumed only after it has given up control.
  \<open>resumer ts f\<close> is the flow that may resume \<open>f\<close> and that gets control back.
\<close>

definition resumer :: "'cb fiber_thread \<Rightarrow> 'cb fiber \<Rightarrow> nat option" where
  "resumer ts f = (if fb_run_in_scheduler f then ft_scheduler_fiber ts else t_thread_fiber ts)"

text \<open>
  The chain of flows from the main one to the running one: the running fiber, the one that waits
  for it to give up control, and so on.
\<close>

fun chain_ok :: "'cb fiber_thread \<Rightarrow> nat list \<Rightarrow> bool" where
  "chain_ok ts [] \<longleftrightarrow> False"
| "chain_ok ts [m] \<longleftrightarrow> t_thread_fiber ts = Some m \<and>
     (\<exists>f. ft_heap ts m = Some f \<and> fb_state f = RUNNING \<and> \<not> fb_stack f \<and> fb_cb f = None)"
| "chain_ok ts (a # b # cs) \<longleftrightarrow>
     (\<exists>f. ft_heap ts a = Some f \<and> fb_state f = RUNNING \<and> fb_stack f \<and> resumer ts f = Some b) \<and>
     (\<exists>g. ft_heap ts b = Some g \<and> fb_ctx g = Saved b) \<and> chain_ok ts (b # cs)"

definition fibers_ok :: "'cb fiber_thread \<Rightarrow> nat list \<Rightarrow> bool" where
  "fibers_ok ts as \<longleftrightarrow>
     chain_ok ts as \<and> distinct as \<and> as \<noteq> [] \<and> hd as = ft_flow ts \<and>
     (\<forall>a f. ft_heap ts a = Some f \<and> a \<notin> set as \<longrightarrow>
        fb_stack f \<and> fb_state f \<noteq> RUNNING \<and> (fb_state f = READY \<longrightarrow> fb_ctx f = Entry \<or> fb_ctx f = Saved a))"

section \<open>Switching keeps the chain\<close>

lemma chain_ok_same:
  "\<forall>a \<in> set as. ft_heap ts' a = ft_heap ts a \<Longrightarrow> t_thread_fiber ts' = t_thread_fiber ts \<Longrightarrow>
   ft_scheduler_fiber ts' = ft_scheduler_fiber ts \<Longrightarrow> chain_ok ts' as = chain_ok ts as"
  by (induction ts as rule: chain_ok.induct) (auto simp: resumer_def)

text \<open>Storing a context in the fiber at the head of the chain does not matter to it.\<close>

lemma chain_ok_head_ctx:
  assumes "chain_ok ts (b # cs)" "b \<notin> set cs" "ft_heap ts b = Some g" "ft_heap ts' b = Some (g\<lparr>fb_ctx := c\<rparr>)"
    "\<forall>a \<in> set cs. ft_heap ts' a = ft_heap ts a" "t_thread_fiber ts' = t_thread_fiber ts"
    "ft_scheduler_fiber ts' = ft_scheduler_fiber ts"
  shows "chain_ok ts' (b # cs)"
  using assms chain_ok_same [of cs ts' ts] by (cases cs) (auto simp: resumer_def)

lemma chain_head: "chain_ok ts (b # cs) \<Longrightarrow> \<exists>g. ft_heap ts b = Some g \<and> fb_state g = RUNNING"
  by (cases cs) auto

lemma Resume_ok:
  assumes ok: "fibers_ok ts (b # cs)" and a: "ft_heap ts a = Some f" "fb_state f = READY"
    and r: "resumer ts f = Some b"
  shows "\<exists>ts' g. Resume ts a = Inr ts' \<and> fibers_ok ts' (a # b # cs) \<and> t_fiber ts' = Some a \<and>
    ft_heap ts b = Some g \<and>
    ft_heap ts' = (ft_heap ts)(a \<mapsto> f\<lparr>fb_state := RUNNING\<rparr>, b \<mapsto> g\<lparr>fb_ctx := Saved b\<rparr>)"
proof -
  from ok have c: "chain_ok ts (b # cs)" "distinct (b # cs)" "ft_flow ts = b" by (auto simp: fibers_ok_def)
  from chain_head [OF c(1)] obtain g where g: "ft_heap ts b = Some g" "fb_state g = RUNNING" by blast
  have na: "a \<notin> set (b # cs)"
  proof
    assume "a \<in> set (b # cs)"
    then have "fb_state f = RUNNING" using c(1) a(1)
      by (induction ts "b # cs" arbitrary: b cs rule: chain_ok.induct) auto
    with a(2) show False by simp
  qed
  with ok a have ctx: "fb_ctx f = Entry \<or> fb_ctx f = Saved a" "fb_stack f" by (auto simp: fibers_ok_def)
  let ?h = "(ft_heap ts)(a \<mapsto> f\<lparr>fb_state := RUNNING\<rparr>, b \<mapsto> g\<lparr>fb_ctx := Saved b\<rparr>)"
  let ?ts = "ts\<lparr>t_fiber := Some a, ft_heap := ?h, ft_flow := a\<rparr>"
  have ab: "a \<noteq> b" using na by auto
  have "Resume ts a = Inr ?ts"
    using a g c(3) r ctx(1) ab
    by (auto simp: Resume_def fiber_at_def SetThis_def put_fiber_def resumer_def ptr_at_def swapcontext_def
      Let_def split: if_splits)
  moreover have "chain_ok ?ts (b # cs)"
    by (rule chain_ok_head_ctx [OF c(1) _ g(1)]) (use c na in auto)
  then have "fibers_ok ?ts (a # b # cs)"
    using ok na c a g ctx r ab by (auto simp: fibers_ok_def resumer_def split: if_splits)
  ultimately show ?thesis using g(1) by auto
qed

lemma Yield_gen:
  assumes c: "chain_ok ts (b # cs)" "ft_flow ts = a" "a \<notin> set (b # cs)"
    and f: "ft_heap ts a = Some f" "fb_state f = RUNNING \<or> fb_state f = STATE_TERM" "resumer ts f = Some b"
    and g: "ft_heap ts b = Some g" "fb_ctx g = Saved b"
  shows "\<exists>m. t_thread_fiber ts = Some m \<and>
    Yield ts a = Inr (ts\<lparr>t_fiber := Some m,
      ft_heap := (ft_heap ts)(a \<mapsto> f\<lparr>fb_state := (if fb_state f = STATE_TERM then STATE_TERM else READY), fb_ctx := Saved a\<rparr>),
      ft_flow := b\<rparr>)"
proof -
  have "\<exists>m. t_thread_fiber ts = Some m" using c(1) by (induction ts "b # cs" arbitrary: b cs rule: chain_ok.induct) auto
  then show ?thesis
    using assms by (cases f) (auto simp: Yield_def fiber_at_def SetThis_def put_fiber_def resumer_def ptr_at_def
      swapcontext_def Let_def split: if_splits)
qed

lemma Yield_ok:
  assumes ok: "fibers_ok ts (a # b # cs)" and f: "ft_heap ts a = Some f"
  shows "\<exists>ts'. Yield ts a = Inr ts' \<and> fibers_ok ts' (b # cs) \<and> t_fiber ts' = t_thread_fiber ts \<and>
    ft_heap ts' = (ft_heap ts)(a \<mapsto> f\<lparr>fb_state := READY, fb_ctx := Saved a\<rparr>)"
proof -
  from ok f have c: "chain_ok ts (b # cs)" "distinct (a # b # cs)" "ft_flow ts = a"
      "fb_state f = RUNNING" "fb_stack f" "resumer ts f = Some b"
    by (auto simp: fibers_ok_def)
  from ok obtain g where g: "ft_heap ts b = Some g" "fb_ctx g = Saved b" by (auto simp: fibers_ok_def)
  let ?h = "(ft_heap ts)(a \<mapsto> f\<lparr>fb_state := READY, fb_ctx := Saved a\<rparr>)"
  from Yield_gen [OF c(1,3) _ f _ c(6) g] c obtain m where m: "t_thread_fiber ts = Some m"
    "Yield ts a = Inr (ts\<lparr>t_fiber := Some m, ft_heap := ?h, ft_flow := b\<rparr>)" by auto
  moreover have "chain_ok (ts\<lparr>t_fiber := Some m, ft_heap := ?h, ft_flow := b\<rparr>) (b # cs)"
    using c(1,2) by (subst chain_ok_same [of _ _ ts]) auto
  ultimately show ?thesis using ok c by (auto simp: fibers_ok_def)
qed

lemma MainFunc_return_ok:
  assumes ok: "fibers_ok ts (a # b # cs)" and f: "ft_heap ts a = Some f"
  shows "\<exists>ts'. MainFunc_return ts a = Inr ts' \<and> fibers_ok ts' (b # cs) \<and> t_fiber ts' = t_thread_fiber ts \<and>
    ft_heap ts' = (ft_heap ts)(a \<mapsto> f\<lparr>fb_cb := None, fb_state := STATE_TERM, fb_ctx := Saved a\<rparr>)"
proof -
  from ok f have c: "chain_ok ts (b # cs)" "distinct (a # b # cs)" "ft_flow ts = a"
      "fb_state f = RUNNING" "fb_stack f" "resumer ts f = Some b"
    by (auto simp: fibers_ok_def)
  from ok obtain g where g: "ft_heap ts b = Some g" "fb_ctx g = Saved b" by (auto simp: fibers_ok_def)
  define f1 where "f1 = f\<lparr>fb_cb := None, fb_state := STATE_TERM\<rparr>"
  define ts1 where "ts1 = put_fiber ts a f1"
  have t1: "ft_heap ts1 = (ft_heap ts)(a \<mapsto> f1)" "ft_flow ts1 = a" "t_thread_fiber ts1 = t_thread_fiber ts"
      "ft_scheduler_fiber ts1 = ft_scheduler_fiber ts" "resumer ts1 f1 = Some b" "fb_state f1 = STATE_TERM"
    using c(3,6) by (auto simp: ts1_def put_fiber_def f1_def resumer_def)
  have c1: "chain_ok ts1 (b # cs)" using c(1,2) t1 by (subst chain_ok_same [of _ _ ts]) auto
  from Yield_gen [OF c1 t1(2) _ _ _ t1(5)] c(2) t1 g obtain m where m: "t_thread_fiber ts1 = Some m"
    "Yield ts1 a = Inr (ts1\<lparr>t_fiber := Some m, ft_heap := (ft_heap ts1)(a \<mapsto> f1\<lparr>fb_state := STATE_TERM, fb_ctx := Saved a\<rparr>),
      ft_flow := b\<rparr>)" by auto
  have r: "MainFunc_return ts a = Yield ts1 a"
    using f by (simp add: MainFunc_return_def fiber_at_def ts1_def f1_def)
  have "chain_ok (ts1\<lparr>t_fiber := Some m, ft_heap := (ft_heap ts1)(a \<mapsto> f1\<lparr>fb_state := STATE_TERM, fb_ctx := Saved a\<rparr>),
      ft_flow := b\<rparr>) (b # cs)"
    using c1 c(2) by (subst chain_ok_same [of _ _ ts1]) auto
  with m r t1 ok c show ?thesis
    by (auto simp: fibers_ok_def f1_def)
qed

text \<open>
  Every run of disciplined calls in a thread: \<open>fiber_run ts as\<close> says that state \<open>ts\<close> is reachable with
  the chain \<open>as\<close> of flows waiting for each other.
\<close>

inductive fiber_run :: "u32 \<Rightarrow> 'cb fiber_thread \<Rightarrow> nat list \<Rightarrow> bool" for dflt :: u32 where
  start: "ft_heap ts = (\<lambda>_. None) \<Longrightarrow> t_fiber ts = None \<Longrightarrow> ft_flow ts = m \<Longrightarrow>
    GetThis ts m = Inr (m, ts') \<Longrightarrow> fiber_run dflt ts' [m]"
| set_scheduler: "fiber_run dflt ts [m] \<Longrightarrow> ft_heap ts s = Some f \<Longrightarrow>
    fiber_run dflt (ts\<lparr>ft_scheduler_fiber := Some s\<rparr>) [m]"
| new_fiber: "fiber_run dflt ts as \<Longrightarrow> ft_heap ts a = None \<Longrightarrow>
    fiber_run dflt (Fiber_new dflt ts a cb stacksize sched) as"
| resume: "fiber_run dflt ts (b # cs) \<Longrightarrow> ft_heap ts a = Some f \<Longrightarrow> resumer ts f = Some b \<Longrightarrow>
    Resume ts a = Inr ts' \<Longrightarrow> fiber_run dflt ts' (a # b # cs)"
| yield: "fiber_run dflt ts (a # b # cs) \<Longrightarrow> Yield ts a = Inr ts' \<Longrightarrow> fiber_run dflt ts' (b # cs)"
| finish: "fiber_run dflt ts (a # b # cs) \<Longrightarrow> MainFunc_return ts a = Inr ts' \<Longrightarrow> fiber_run dflt ts' (b # cs)"
| reset: "fiber_run dflt ts as \<Longrightarrow> Reset ts a cb = Inr ts' \<Longrightarrow> fiber_run dflt ts' as"

lemma Resume_ready: "Resume ts a = Inr ts' \<Longrightarrow> ft_heap ts a = Some f \<Longrightarrow> fb_state f = READY"
  by (cases "fb_state f") (auto simp: Resume_def fiber_at_def)

lemma chain_members: "chain_ok ts as \<Longrightarrow> a \<in> set as \<Longrightarrow> \<exists>f. ft_heap ts a = Some f \<and> fb_state f = RUNNING"
  by (induction ts as rule: chain_ok.induct) auto

lemma chain_last: "chain_ok ts as \<Longrightarrow> t_thread_fiber ts = Some (last as)"
  by (induction ts as rule: chain_ok.induct) auto

lemma fiber_run_ok: "fiber_run dflt ts as \<Longrightarrow> fibers_ok ts as"
proof (induction rule: fiber_run.induct)
  case (start ts m ts')
  then show ?case by (auto simp: GetThis_def Fiber_main_def SetThis_def put_fiber_def fibers_ok_def)
next
  case (set_scheduler ts m s f)
  then show ?case by (auto simp: fibers_ok_def)
next
  case (new_fiber ts as a cb stacksize sched)
  then have c: "chain_ok ts as" "a \<notin> set as" using chain_members by (fastforce simp: fibers_ok_def)+
  have "chain_ok (Fiber_new dflt ts a cb stacksize sched) as"
    using c by (subst chain_ok_same [of _ _ ts]) (auto simp: Fiber_new_def put_fiber_def)
  with new_fiber show ?case by (auto simp: fibers_ok_def Fiber_new_def put_fiber_def)
next
  case (resume ts b cs a f ts')
  from Resume_ok [OF resume.IH resume.hyps(2) _ resume.hyps(3)] Resume_ready [OF resume.hyps(4,2)] resume.hyps(4)
  show ?case by auto
next
  case (yield ts a b cs ts')
  from yield.IH obtain f where "ft_heap ts a = Some f" by (auto simp: fibers_ok_def)
  from Yield_ok [OF yield.IH this] yield.hyps(2) show ?case by auto
next
  case (finish ts a b cs ts')
  from finish.IH obtain f where "ft_heap ts a = Some f" by (auto simp: fibers_ok_def)
  from MainFunc_return_ok [OF finish.IH this] finish.hyps(2) show ?case by auto
next
  case (reset ts as a cb ts')
  then obtain f where f: "ft_heap ts a = Some f" "fb_stack f" "fb_state f = STATE_TERM"
      "ts' = put_fiber ts a (f\<lparr>fb_cb := cb, fb_ctx := Entry, fb_state := READY\<rparr>)"
    by (auto simp: Reset_def fiber_at_def split: option.splits if_splits)
  have c: "chain_ok ts as" "a \<notin> set as"
    using reset.IH chain_members [of ts as a] f by (auto simp: fibers_ok_def)
  have "chain_ok ts' as" using c f(4) by (subst chain_ok_same [of _ _ ts]) (auto simp: put_fiber_def)
  with reset.IH f show ?case by (auto simp: fibers_ok_def put_fiber_def)
qed

section \<open>Properties\<close>

text \<open>
  (C4) In every disciplined run, resuming a ready fiber from its resumer transfers control to it (to its
  start or to where it last gave up control), and when it yields control comes back to the very
  flow that resumed it; neither call fails an assertion, and no other fiber changes.
\<close>

theorem resume_then_yield:
  assumes "fiber_run dflt ts (b # cs)" "ft_heap ts a = Some f" "fb_state f = READY" "resumer ts f = Some b"
  shows "\<exists>ts1 ts2. Resume ts a = Inr ts1 \<and> ft_flow ts1 = a \<and> t_fiber ts1 = Some a \<and>
    Yield ts1 a = Inr ts2 \<and> ft_flow ts2 = b \<and> ft_flow ts = b \<and>
    ft_heap ts2 a = Some (f\<lparr>fb_ctx := Saved a\<rparr>) \<and>
    (\<forall>c. c \<noteq> a \<and> c \<noteq> b \<longrightarrow> ft_heap ts2 c = ft_heap ts c)"
proof -
  have ok: "fibers_ok ts (b # cs)" using assms(1) by (rule fiber_run_ok)
  from Resume_ok [OF ok assms(2-4)] obtain ts1 g where 1: "Resume ts a = Inr ts1" "fibers_ok ts1 (a # b # cs)"
    "t_fiber ts1 = Some a" "ft_heap ts1 = (ft_heap ts)(a \<mapsto> f\<lparr>fb_state := RUNNING\<rparr>, b \<mapsto> g\<lparr>fb_ctx := Saved b\<rparr>)"
    by blast
  have ab: "a \<noteq> b" using 1(2) by (auto simp: fibers_ok_def)
  then have "ft_heap ts1 a = Some (f\<lparr>fb_state := RUNNING\<rparr>)" using 1(4) by simp
  from Yield_ok [OF 1(2) this] obtain ts2 where 2: "Yield ts1 a = Inr ts2" "fibers_ok ts2 (b # cs)"
    "ft_heap ts2 = (ft_heap ts1)(a \<mapsto> f\<lparr>fb_state := READY, fb_ctx := Saved a\<rparr>)" by auto
  have "f\<lparr>fb_state := READY\<rparr> = f" using assms(3) by simp
  with 1 2 ab ok show ?thesis by (auto simp: fibers_ok_def)
qed

definition main_thread :: "nat fiber_thread" where
  "main_thread = \<lparr>ft_heap = (\<lambda>_. None), t_fiber = None, t_thread_fiber = None, ft_scheduler_fiber = None,
     ft_flow = 0, s_fiber_id = 0, s_fiber_count = 0\<rparr>"

definition with_main :: "nat fiber_thread" where
  "with_main = (Fiber_main main_thread 0)\<lparr>t_thread_fiber := Some 0\<rparr>"

definition with_fiber :: "nat fiber_thread" where
  "with_fiber = Fiber_new 131072 with_main 1 (Some 7) 0 False"

lemma with_fiber_run: "fiber_run 131072 with_fiber [0]"
  unfolding with_fiber_def
proof (rule new_fiber)
  have "GetThis main_thread 0 = Inr (0, with_main)"
    by (simp add: GetThis_def main_thread_def with_main_def Fiber_main_def SetThis_def put_fiber_def)
  then show "fiber_run 131072 with_main [0]" by (rule start [rotated 3]) (simp_all add: main_thread_def)
  show "ft_heap with_main 1 = None"
    by (simp add: with_main_def main_thread_def Fiber_main_def SetThis_def put_fiber_def)
qed

lemmas with_fiber_defs = with_fiber_def with_main_def main_thread_def Fiber_new_def Fiber_main_def
  SetThis_def put_fiber_def

lemma with_fiber_resumed: "\<exists>ts. Resume with_fiber 1 = Inr ts \<and> fiber_run 131072 ts [1, 0]"
proof -
  obtain f where f: "ft_heap with_fiber 1 = Some f" "fb_state f = READY" "resumer with_fiber f = Some 0"
    by (simp add: with_fiber_defs resumer_def)
  from Resume_ok [OF fiber_run_ok [OF with_fiber_run] f] obtain ts where "Resume with_fiber 1 = Inr ts" by blast
  with resume [OF with_fiber_run f(1,3)] show ?thesis by blast
qed

theorem resume_then_yield_witness:
  "\<exists>ts1 ts2. Resume with_fiber 1 = Inr ts1 \<and> ft_flow ts1 = 1 \<and> Yield ts1 1 = Inr ts2 \<and> ft_flow ts2 = 0"
  using resume_then_yield [OF with_fiber_run, of 1]
  by (fastforce simp: with_fiber_defs resumer_def)

text \<open>
  A fiber whose callback returns ends in the terminal state with its callback released, control goes
  back to the flow that resumed it, and it can never be resumed again until \<open>Reset\<close>; after \<open>Reset\<close>
  it is ready to start from its entry.
\<close>

theorem finish_then_reset:
  assumes "fiber_run dflt ts (a # b # cs)"
  shows "\<exists>ts1 f. MainFunc_return ts a = Inr ts1 \<and> ft_flow ts1 = b \<and> ft_heap ts1 a = Some f \<and>
    fb_state f = STATE_TERM \<and> fb_cb f = None \<and> Resume ts1 a = Inl Assertion_Failed \<and>
    (\<exists>ts2. Reset ts1 a (Some cb) = Inr ts2 \<and>
      ft_heap ts2 a = Some (f\<lparr>fb_cb := Some cb, fb_ctx := Entry, fb_state := READY\<rparr>)) \<and>
    (\<exists>ts3. Fiber_destroy ts1 a = Inr ts3)"
proof -
  have ok: "fibers_ok ts (a # b # cs)" using assms by (rule fiber_run_ok)
  then obtain f where f: "ft_heap ts a = Some f" "fb_stack f" by (auto simp: fibers_ok_def)
  from MainFunc_return_ok [OF ok f(1)] obtain ts1 where 1: "MainFunc_return ts a = Inr ts1" "fibers_ok ts1 (b # cs)"
    "ft_heap ts1 = (ft_heap ts)(a \<mapsto> f\<lparr>fb_cb := None, fb_state := STATE_TERM, fb_ctx := Saved a\<rparr>)" by blast
  with f show ?thesis
    by (auto simp: fibers_ok_def Resume_def Reset_def Fiber_destroy_def fiber_at_def put_fiber_def Let_def)
qed

theorem finish_then_reset_witness:
  "\<exists>ts ts1. Resume with_fiber 1 = Inr ts \<and> MainFunc_return ts 1 = Inr ts1 \<and> ft_flow ts1 = 0 \<and>
     Resume ts1 1 = Inl Assertion_Failed"
proof -
  obtain ts where ts: "Resume with_fiber 1 = Inr ts" "fiber_run 131072 ts [1, 0]"
    using with_fiber_resumed by blast
  from finish_then_reset [OF ts(2)] ts(1) show ?thesis by blast
qed

text \<open>
  After a yield the thread believes its main fiber to be running (\<open>t_fiber\<close>), whichever flow got
  control: where the resumer is a scheduler fiber other than the main fiber, \<open>GetThis\<close> names a fiber that
  is not the running one.
\<close>

theorem yield_sets_main:
  assumes "fiber_run dflt ts (a # b # cs)"
  shows "\<exists>ts'. Yield ts a = Inr ts' \<and> t_fiber ts' = t_thread_fiber ts \<and> ft_flow ts' = b \<and>
    (t_fiber ts' = Some (ft_flow ts') \<longleftrightarrow> cs = [])"
proof -
  have ok: "fibers_ok ts (a # b # cs)" using assms by (rule fiber_run_ok)
  then obtain f where f: "ft_heap ts a = Some f" by (auto simp: fibers_ok_def)
  from Yield_ok [OF ok f] obtain ts' where y: "Yield ts a = Inr ts'" "fibers_ok ts' (b # cs)"
    "t_fiber ts' = t_thread_fiber ts" "ft_heap ts' = (ft_heap ts)(a \<mapsto> f\<lparr>fb_state := READY, fb_ctx := Saved a\<rparr>)"
    by blast
  have "t_thread_fiber ts = Some (last (b # cs))"
    using ok chain_last [of ts "b # cs"] by (simp add: fibers_ok_def)
  moreover have "b = last (b # cs) \<longleftrightarrow> cs = []" using ok by (auto simp: fibers_ok_def dest: last_in_set)
  ultimately show ?thesis using y by (auto simp: fibers_ok_def)
qed

theorem yield_sets_main_witness:
  "\<exists>ts ts'. Resume with_fiber 1 = Inr ts \<and> Yield ts 1 = Inr ts' \<and> t_fiber ts' = Some 0 \<and> ft_flow ts' = 0"
proof -
  obtain ts where ts: "Resume with_fiber 1 = Inr ts" "fiber_run 131072 ts [1, 0]"
    using with_fiber_resumed by blast
  from yield_sets_main [OF ts(2)] ts(1) show ?thesis by auto
qed

end
