(* ===== verification/Scheduler.thy ===== *)
theory Scheduler
  imports Fiber "HOL-Library.Multiset"
begin

text \<open>
  The N-M scheduler (\<open>fiber/scheduler.h\<close>, \<open>fiber/scheduler.cc\<close>): the task list, what each worker thread
  does in \<open>Run\<close>, starting and stopping. What the mutex makes atomic is one definition or one step; the
  interleaving of the workers, of callers of \<open>Schedule\<close> and \<open>Stop\<close>, and of fibers changing their state
  is a step relation. Fibers are named by address; their states are what \<open>GetState\<close> reports.
\<close>

section \<open>Data\<close>

record 'cb schedule_task =
  st_fiber :: "nat option"
  st_cb :: "'cb option"
  st_thread :: int

record 'cb scheduler =
  sc_name :: string
  sc_threads :: "int list"
  sc_tasks :: "'cb schedule_task list"
  sc_thread_ids :: "int list"
  sc_thread_count :: nat
  sc_active :: nat
  sc_idle :: nat
  sc_use_caller :: bool
  sc_root_fiber :: bool
  sc_root_thread :: int
  sc_stopping :: bool

definition ScheduleTask :: "nat option \<Rightarrow> 'cb option \<Rightarrow> int \<Rightarrow> 'cb schedule_task" where
  "ScheduleTask f cb thr = \<lparr>st_fiber = f, st_cb = cb, st_thread = thr\<rparr>"

definition task_reset :: "'cb schedule_task" where
  "task_reset = \<lparr>st_fiber = None, st_cb = None, st_thread = - 1\<rparr>"

definition task_set :: "'cb schedule_task \<Rightarrow> bool" where
  "task_set t \<longleftrightarrow> st_fiber t \<noteq> None \<or> st_cb t \<noteq> None"

section \<open>Construction, start and stop\<close>

text \<open>
  The constructor in the thread \<open>tid\<close>; \<open>this_scheduler\<close> says whether the thread already has a scheduler
  (\<open>GetThis() != nullptr\<close>).
\<close>

definition Scheduler :: "nat \<Rightarrow> bool \<Rightarrow> string \<Rightarrow> bool \<Rightarrow> int \<Rightarrow> 'cb scheduler result" where
  "Scheduler threads use_caller name this_scheduler tid =
     rbind (guard (threads > 0) Assertion_Failed) (\<lambda>_.
     let sc = \<lparr>sc_name = name, sc_threads = [], sc_tasks = [], sc_thread_ids = [], sc_thread_count = 0,
               sc_active = 0, sc_idle = 0, sc_use_caller = use_caller, sc_root_fiber = False,
               sc_root_thread = 0, sc_stopping = False\<rparr> in
     if use_caller then
       rbind (guard (\<not> this_scheduler) Assertion_Failed) (\<lambda>_.
       Inr (sc\<lparr>sc_root_fiber := True, sc_root_thread := tid, sc_thread_ids := [tid],
               sc_thread_count := threads - 1\<rparr>))
     else Inr (sc\<lparr>sc_root_thread := - 1, sc_thread_count := threads\<rparr>))"

definition Scheduler_destroy :: "'cb scheduler \<Rightarrow> unit result" where
  "Scheduler_destroy sc = guard (sc_stopping sc) Assertion_Failed"

text \<open>\<open>new_id i\<close> is the id of the thread created for slot \<open>i\<close>.\<close>

definition Start :: "(nat \<Rightarrow> int) \<Rightarrow> 'cb scheduler \<Rightarrow> 'cb scheduler result" where
  "Start new_id sc =
     (if sc_stopping sc then Inr sc
      else rbind (guard (sc_threads sc = []) Assertion_Failed) (\<lambda>_.
        let ids = map new_id [0..<sc_thread_count sc] in
        Inr (sc\<lparr>sc_threads := ids, sc_thread_ids := sc_thread_ids sc @ ids\<rparr>)))"

definition Stopping :: "'cb scheduler \<Rightarrow> bool" where
  "Stopping sc \<longleftrightarrow> sc_stopping sc \<and> sc_tasks sc = [] \<and> sc_active sc = 0"

text \<open>
  \<open>Stop\<close> in a thread whose scheduler is this one (\<open>is_this\<close>) or not; what it does besides setting the flag,
  in order: tickles, resuming the root fiber (which runs the caller thread's \<open>Run\<close> to its end), joining
  the threads.
\<close>

datatype stop_action = Tickle_Other | Resume_Root | Join int

definition Stop :: "'cb scheduler \<Rightarrow> bool \<Rightarrow> (stop_action list \<times> 'cb scheduler) result" where
  "Stop sc is_this =
     (if Stopping sc then Inr ([], sc)
      else
        let sc1 = sc\<lparr>sc_stopping := True\<rparr> in
        rbind (if sc_use_caller sc then guard is_this Assertion_Failed
               else guard (\<not> is_this) Assertion_Failed) (\<lambda>_.
        Inr (replicate (sc_thread_count sc) Tickle_Other
               @ (if sc_root_fiber sc then [Tickle_Other] else [])
               @ (if sc_root_fiber sc then [Resume_Root] else [])
               @ map Join (sc_threads sc),
             sc1\<lparr>sc_threads := []\<rparr>)))"

section \<open>Scheduling\<close>

definition ScheduleNoLock :: "'cb scheduler \<Rightarrow> 'cb schedule_task \<Rightarrow> bool \<times> 'cb scheduler" where
  "ScheduleNoLock sc task =
     (let need_tickle = (sc_tasks sc = []) in
      (need_tickle, if task_set task then sc\<lparr>sc_tasks := sc_tasks sc @ [task]\<rparr> else sc))"

text \<open>The flag is whether \<open>Tickle\<close> is called.\<close>

definition Schedule :: "'cb scheduler \<Rightarrow> 'cb schedule_task \<Rightarrow> bool \<times> 'cb scheduler" where
  "Schedule sc task = (let (need_tickle, sc') = ScheduleNoLock sc task in (need_tickle, sc'))"

definition HasIdleThreads :: "'cb scheduler \<Rightarrow> bool" where
  "HasIdleThreads sc \<longleftrightarrow> sc_idle sc > 0"

text \<open>The walk over the task list in \<open>Run\<close>: the task taken, what is left, and \<open>tickle_me\<close>.\<close>

fun pick :: "int \<Rightarrow> (nat \<Rightarrow> state) \<Rightarrow> 'cb schedule_task list \<Rightarrow> bool \<Rightarrow>
    ('cb schedule_task option \<times> 'cb schedule_task list \<times> bool) result" where
  "pick tid st [] tickle_me = Inr (None, [], tickle_me)"
| "pick tid st (t # ts) tickle_me =
     (if st_thread t \<noteq> - 1 \<and> st_thread t \<noteq> tid
      then rbind (pick tid st ts True) (\<lambda>(r, ts', tk). Inr (r, t # ts', tk))
      else rbind (guard (task_set t) Assertion_Failed) (\<lambda>_.
        if (case st_fiber t of Some f \<Rightarrow> st f = RUNNING | None \<Rightarrow> False)
        then rbind (pick tid st ts tickle_me) (\<lambda>(r, ts', tk). Inr (r, t # ts', tk))
        else Inr (Some t, ts, tickle_me \<or> ts \<noteq> [])))"

definition Run_take :: "int \<Rightarrow> (nat \<Rightarrow> state) \<Rightarrow> 'cb scheduler \<Rightarrow>
    ('cb schedule_task option \<times> bool \<times> 'cb scheduler) result" where
  "Run_take tid st sc =
     rbind (pick tid st (sc_tasks sc) False) (\<lambda>(r, ts, tickle_me).
     Inr (r, tickle_me, sc\<lparr>sc_tasks := ts,
       sc_active := (if r = None then sc_active sc else Suc (sc_active sc))\<rparr>))"

section \<open>The workers\<close>

text \<open>
  Where a thread is in the loop of \<open>Run\<close>: about to look for a task, inside \<open>Resume\<close> of a task's fiber (or of
  the fresh fiber around a task's callback), inside the idle fiber, or past the loop. \<open>w_idle_fiber\<close> is
  the state of its idle fiber.
\<close>

datatype 'cb place = Looking | Resuming "'cb schedule_task" | Idling | Exited

record 'cb worker =
  w_tid :: int
  w_place :: "'cb place"
  w_idle_fiber :: state

record 'cb system =
  sy_sched :: "'cb scheduler"
  sy_workers :: "'cb worker list"
  sy_fibers :: "nat \<Rightarrow> state"
  sy_scheduled :: "'cb schedule_task multiset"
  sy_done :: "'cb schedule_task list"

definition system_start :: "'cb scheduler \<Rightarrow> int list \<Rightarrow> (nat \<Rightarrow> state) \<Rightarrow> 'cb system" where
  "system_start sc tids st =
     \<lparr>sy_sched = sc\<lparr>sc_tasks := [], sc_active := 0, sc_idle := 0\<rparr>,
      sy_workers = map (\<lambda>t. \<lparr>w_tid = t, w_place = Looking, w_idle_fiber = READY\<rparr>) tids,
      sy_fibers = st, sy_scheduled = {#}, sy_done = []\<rparr>"

inductive sched_step :: "'cb system \<Rightarrow> 'cb system \<Rightarrow> bool" where
  schedule: "sched_step s (s\<lparr>sy_sched := snd (Schedule (sy_sched s) t),
      sy_scheduled := (if task_set t then add_mset t (sy_scheduled s) else sy_scheduled s)\<rparr>)"
| stop: "sched_step s (s\<lparr>sy_sched := (sy_sched s)\<lparr>sc_stopping := True\<rparr>\<rparr>)"
| fibers: "sched_step s (s\<lparr>sy_fibers := st\<rparr>)"
| take_task: "i < length (sy_workers s) \<Longrightarrow> w = sy_workers s ! i \<Longrightarrow> w_place w = Looking \<Longrightarrow>
    Run_take (w_tid w) (sy_fibers s) (sy_sched s) = Inr (Some t, tk, sc) \<Longrightarrow>
    sched_step s (s\<lparr>sy_sched := sc, sy_workers := (sy_workers s)[i := w\<lparr>w_place := Resuming t\<rparr>]\<rparr>)"
| task_returns: "i < length (sy_workers s) \<Longrightarrow> w = sy_workers s ! i \<Longrightarrow> w_place w = Resuming t \<Longrightarrow>
    sched_step s (s\<lparr>sy_sched := (sy_sched s)\<lparr>sc_active := sub64 (sc_active (sy_sched s)) 1\<rparr>,
      sy_workers := (sy_workers s)[i := w\<lparr>w_place := Looking\<rparr>], sy_done := sy_done s @ [t]\<rparr>)"
| go_idle: "i < length (sy_workers s) \<Longrightarrow> w = sy_workers s ! i \<Longrightarrow> w_place w = Looking \<Longrightarrow>
    Run_take (w_tid w) (sy_fibers s) (sy_sched s) = Inr (None, tk, sc) \<Longrightarrow> w_idle_fiber w \<noteq> STATE_TERM \<Longrightarrow>
    sched_step s (s\<lparr>sy_sched := sc\<lparr>sc_idle := Suc (sc_idle sc)\<rparr>,
      sy_workers := (sy_workers s)[i := w\<lparr>w_place := Idling\<rparr>]\<rparr>)"
| idle_returns: "i < length (sy_workers s) \<Longrightarrow> w = sy_workers s ! i \<Longrightarrow> w_place w = Idling \<Longrightarrow>
    sched_step s (s\<lparr>sy_sched := (sy_sched s)\<lparr>sc_idle := sub64 (sc_idle (sy_sched s)) 1\<rparr>,
      sy_workers := (sy_workers s)[i := w\<lparr>w_place := Looking,
        w_idle_fiber := (if Stopping (sy_sched s) then STATE_TERM else READY)\<rparr>]\<rparr>)"
| leave: "i < length (sy_workers s) \<Longrightarrow> w = sy_workers s ! i \<Longrightarrow> w_place w = Looking \<Longrightarrow>
    Run_take (w_tid w) (sy_fibers s) (sy_sched s) = Inr (None, tk, sc) \<Longrightarrow> w_idle_fiber w = STATE_TERM \<Longrightarrow>
    sched_step s (s\<lparr>sy_sched := sc, sy_workers := (sy_workers s)[i := w\<lparr>w_place := Exited\<rparr>]\<rparr>)"

section \<open>What the walk takes\<close>

definition eligible :: "int \<Rightarrow> (nat \<Rightarrow> state) \<Rightarrow> 'cb schedule_task \<Rightarrow> bool" where
  "eligible tid st t \<longleftrightarrow> (st_thread t = - 1 \<or> st_thread t = tid) \<and>
     (case st_fiber t of Some f \<Rightarrow> st f \<noteq> RUNNING | None \<Rightarrow> True)"

text \<open>
  The first task that is bound to no other thread and whose fiber is not still running is taken, and
  the others stay in their order.
\<close>

lemma pick_split:
  assumes "\<forall>t \<in> set ts. task_set t"
  shows "(\<forall>t \<in> set ts. \<not> eligible tid st t) \<and> (\<exists>tk'. pick tid st ts tk = Inr (None, ts, tk')) \<or>
    (\<exists>us t vs tk'. ts = us @ t # vs \<and> (\<forall>u \<in> set us. \<not> eligible tid st u) \<and> eligible tid st t \<and>
      pick tid st ts tk = Inr (Some t, us @ vs, tk'))"
  using assms
proof (induction ts arbitrary: tk)
  case Nil
  then show ?case by simp
next
  case (Cons t ts)
  show ?case
  proof (cases "eligible tid st t")
    case True
    then have "pick tid st (t # ts) tk = Inr (Some t, ts, tk \<or> ts \<noteq> [])"
      using Cons.prems by (auto simp: eligible_def split: option.splits)
    with True show ?thesis by (intro disjI2 exI [of _ "[]"]) auto
  next
    case False
    obtain tk1 where e: "pick tid st (t # ts) tk = rbind (pick tid st ts tk1) (\<lambda>(r, ts', tk). Inr (r, t # ts', tk))"
      using False Cons.prems
      by (cases "st_thread t \<noteq> - 1 \<and> st_thread t \<noteq> tid") (auto simp: eligible_def split: option.splits)
    have ts: "\<forall>t \<in> set ts. task_set t" using Cons.prems by simp
    show ?thesis
    proof (rule disjE [OF Cons.IH [OF ts, of tk1]])
      assume "(\<forall>t \<in> set ts. \<not> eligible tid st t) \<and> (\<exists>tk'. pick tid st ts tk1 = Inr (None, ts, tk'))"
      with e False show ?thesis by auto
    next
      assume "\<exists>us u vs tk'. ts = us @ u # vs \<and> (\<forall>u \<in> set us. \<not> eligible tid st u) \<and> eligible tid st u \<and>
        pick tid st ts tk1 = Inr (Some u, us @ vs, tk')"
      then obtain us u vs tk' where "ts = us @ u # vs" "\<forall>u \<in> set us. \<not> eligible tid st u" "eligible tid st u"
        "pick tid st ts tk1 = Inr (Some u, us @ vs, tk')" by blast
      then have "t # ts = (t # us) @ u # vs" "\<forall>u \<in> set (t # us). \<not> eligible tid st u" "eligible tid st u"
        "pick tid st (t # ts) tk = Inr (Some u, (t # us) @ vs, tk')"
        using e False by auto
      then show ?thesis by blast
    qed
  qed
qed

lemma pick_mset:
  assumes "\<forall>t \<in> set ts. task_set t" "pick tid st ts tk = Inr (r, ts', tk')"
  shows "mset ts = mset ts' + (case r of None \<Rightarrow> {#} | Some t \<Rightarrow> {#t#})" "set ts' \<subseteq> set ts"
  using pick_split [OF assms(1), of tid st tk] assms(2) by auto

section \<open>The invariant of the interleaved workers\<close>

definition held :: "'cb worker \<Rightarrow> 'cb schedule_task list" where
  "held w = (case w_place w of Resuming t \<Rightarrow> [t] | _ \<Rightarrow> [])"

definition held_all :: "'cb worker list \<Rightarrow> 'cb schedule_task list" where
  "held_all ws = concat (map held ws)"

definition idlers :: "'cb worker list \<Rightarrow> nat" where
  "idlers ws = length (filter (\<lambda>w. w_place w = Idling) ws)"

lemma held_all_update:
  "i < length ws \<Longrightarrow> mset (held_all (ws[i := w])) + mset (held (ws ! i)) = mset (held_all ws) + mset (held w)"
proof -
  assume i: "i < length ws"
  have "mset (held_all ws) = mset (held_all (take i ws)) + mset (held (ws ! i)) + mset (held_all (drop (Suc i) ws))"
    using id_take_nth_drop [OF i] unfolding held_all_def by (metis (no_types, lifting) concat.simps(2) concat_append list.simps(9) map_append mset_append add.assoc)
  then show ?thesis by (simp add: upd_conv_take_nth_drop [OF i] held_all_def)
qed

lemma idlers_update:
  "i < length ws \<Longrightarrow> idlers (ws[i := w]) + (if w_place (ws ! i) = Idling then 1 else 0) =
     idlers ws + (if w_place w = Idling then 1 else 0)"
proof -
  assume i: "i < length ws"
  have "idlers ws = idlers (take i ws) + (if w_place (ws ! i) = Idling then 1 else 0) + idlers (drop (Suc i) ws)"
    using arg_cong [OF id_take_nth_drop [OF i], of idlers] by (simp add: idlers_def)
  then show ?thesis by (simp add: upd_conv_take_nth_drop [OF i] idlers_def)
qed

definition sched_ok :: "'cb system \<Rightarrow> bool" where
  "sched_ok s \<longleftrightarrow>
     sc_active (sy_sched s) = length (held_all (sy_workers s)) \<and>
     sc_idle (sy_sched s) = idlers (sy_workers s) \<and>
     (\<forall>t \<in> set (sc_tasks (sy_sched s)). task_set t) \<and>
     sy_scheduled s = mset (sc_tasks (sy_sched s)) + mset (held_all (sy_workers s)) + mset (sy_done s) \<and>
     (\<forall>w \<in> set (sy_workers s). \<forall>t. w_place w = Resuming t \<longrightarrow> st_thread t = - 1 \<or> st_thread t = w_tid w)"

lemma sched_ok_start: "sched_ok (system_start sc tids st)"
  by (induction tids) (auto simp: sched_ok_def system_start_def held_all_def held_def idlers_def)

lemma Run_take_Some:
  assumes "\<forall>t \<in> set (sc_tasks sc). task_set t" "Run_take tid st sc = Inr (Some t, tk, sc')"
  shows "\<exists>us vs. sc_tasks sc = us @ t # vs \<and> sc' = sc\<lparr>sc_tasks := us @ vs, sc_active := Suc (sc_active sc)\<rparr> \<and>
    eligible tid st t \<and> (\<forall>u \<in> set us. \<not> eligible tid st u)"
  using pick_split [OF assms(1), of tid st False] assms(2)
  unfolding Run_take_def by (auto simp: result_simps) blast

lemma Run_take_None:
  assumes "\<forall>t \<in> set (sc_tasks sc). task_set t" "Run_take tid st sc = Inr (None, tk, sc')"
  shows "sc' = sc \<and> (\<forall>t \<in> set (sc_tasks sc). \<not> eligible tid st t)"
  using pick_split [OF assms(1), of tid st False] assms(2) by (auto simp: Run_take_def result_simps)

lemma set_update_ball:
  "\<forall>w \<in> set ws. P w \<Longrightarrow> P v \<Longrightarrow> \<forall>w \<in> set (ws[i := v]). P w"
  using set_update_subset_insert [of ws i v] by auto

text \<open>One worker moves from one place to another.\<close>

lemma sched_ok_move:
  assumes "sched_ok s" "i < length (sy_workers s)" "w = sy_workers s ! i"
    and "sy_workers s' = (sy_workers s)[i := w']" "sy_scheduled s' = sy_scheduled s" "w_tid w' = w_tid w"
    and "sc_active (sy_sched s') + length (held w) = sc_active (sy_sched s) + length (held w')"
    and "sc_idle (sy_sched s') + (if w_place w = Idling then 1 else 0) =
      sc_idle (sy_sched s) + (if w_place w' = Idling then 1 else 0)"
    and "set (sc_tasks (sy_sched s')) \<subseteq> set (sc_tasks (sy_sched s))"
    and "mset (sc_tasks (sy_sched s')) + mset (held w') + mset (sy_done s') =
      mset (sc_tasks (sy_sched s)) + mset (held w) + mset (sy_done s)"
    and "\<forall>t \<in> set (held w'). st_thread t = - 1 \<or> st_thread t = w_tid w"
  shows "sched_ok s'"
proof -
  note inv = assms(1) [unfolded sched_ok_def]
  note m = held_all_update [OF assms(2), of w', folded assms(3)]
  note d = idlers_update [OF assms(2), of w', folded assms(3)]
  have l: "length (held_all ((sy_workers s)[i := w'])) + length (held w) =
      length (held_all (sy_workers s)) + length (held w')"
    using arg_cong [OF m, of size] by simp
  have "sc_active (sy_sched s') = length (held_all (sy_workers s'))" using inv l assms(4,7) by simp
  moreover have "sc_idle (sy_sched s') = idlers (sy_workers s')" using inv d assms(4,8) by simp
  moreover have "mset (sc_tasks (sy_sched s')) + mset (held_all (sy_workers s')) + mset (sy_done s') + mset (held w)
      = sy_scheduled s + mset (held w)"
  proof -
    have "mset (sc_tasks (sy_sched s')) + mset (held_all (sy_workers s')) + mset (sy_done s') + mset (held w) =
        mset (sc_tasks (sy_sched s')) + (mset (held_all (sy_workers s')) + mset (held w)) + mset (sy_done s')"
      by (simp add: ac_simps)
    also have "\<dots> = (mset (sc_tasks (sy_sched s')) + mset (held w') + mset (sy_done s')) + mset (held_all (sy_workers s))"
      unfolding assms(4) m by (simp add: ac_simps)
    also have "\<dots> = sy_scheduled s + mset (held w)" unfolding assms(10) using inv by (simp add: ac_simps)
    finally show ?thesis .
  qed
  then have "sy_scheduled s' = mset (sc_tasks (sy_sched s')) + mset (held_all (sy_workers s')) + mset (sy_done s')"
    using assms(5) by (simp add: add_right_cancel)
  moreover have "\<forall>v \<in> set (sy_workers s'). \<forall>t. w_place v = Resuming t \<longrightarrow> st_thread t = - 1 \<or> st_thread t = w_tid v"
    unfolding assms(4) by (rule set_update_ball) (use inv assms(6,11) in \<open>auto simp: held_def\<close>)
  ultimately show ?thesis using inv assms(9) by (auto simp: sched_ok_def)
qed

lemma sched_step_ok:
  assumes "sched_step s s'" "sched_ok s"
  shows "sched_ok s'"
  using assms
proof (induction rule: sched_step.induct)
  case (schedule s t)
  then show ?case by (auto simp: sched_ok_def Schedule_def ScheduleNoLock_def)
next
  case (take_task i s w t tk sc)
  then obtain us vs where "sc_tasks (sy_sched s) = us @ t # vs"
      "sc = (sy_sched s)\<lparr>sc_tasks := us @ vs, sc_active := Suc (sc_active (sy_sched s))\<rparr>" "eligible (w_tid w) (sy_fibers s) t"
    using Run_take_Some [of "sy_sched s"] unfolding sched_ok_def by blast
  with take_task show ?case
    by (intro sched_ok_move [OF take_task.prems take_task.hyps(1,2), where w' = "w\<lparr>w_place := Resuming t\<rparr>"]) (auto simp: held_def eligible_def)
next
  case (task_returns i s w t)
  have "0 < length (held_all (sy_workers s))"
    using held_all_update [OF task_returns.hyps(1), of "w\<lparr>w_place := Looking\<rparr>"] task_returns.hyps(2,3)
    by (auto simp: held_def)
  then have "Suc 0 \<le> sc_active (sy_sched s)" using task_returns.prems by (simp add: sched_ok_def Suc_le_eq)
  then show ?case
    using task_returns.hyps
    by (intro sched_ok_move [OF task_returns.prems task_returns.hyps(1,2), where w' = "w\<lparr>w_place := Looking\<rparr>"]) (auto simp: held_def)
next
  case (go_idle i s w tk sc)
  then have "sc = sy_sched s" using Run_take_None [of "sy_sched s"] unfolding sched_ok_def by blast
  with go_idle.hyps show ?case
    by (intro sched_ok_move [OF go_idle.prems go_idle.hyps(1,2), where w' = "w\<lparr>w_place := Idling\<rparr>"]) (auto simp: held_def)
next
  case (idle_returns i s w)
  have "Suc 0 \<le> sc_idle (sy_sched s)"
    using idlers_update [OF idle_returns.hyps(1), of "w\<lparr>w_place := Looking\<rparr>"] idle_returns.hyps(2,3) idle_returns.prems
    by (auto simp: sched_ok_def)
  then show ?case
    using idle_returns.hyps
    by (intro sched_ok_move [OF idle_returns.prems idle_returns.hyps(1,2), where w' = "w\<lparr>w_place := Looking,
        w_idle_fiber := (if Stopping (sy_sched s) then STATE_TERM else READY)\<rparr>"]) (auto simp: held_def)
next
  case (leave i s w tk sc)
  then have "sc = sy_sched s" using Run_take_None [of "sy_sched s"] unfolding sched_ok_def by blast
  with leave.hyps show ?case
    by (intro sched_ok_move [OF leave.prems leave.hyps(1,2), where w' = "w\<lparr>w_place := Exited\<rparr>"]) (auto simp: held_def)
qed (auto simp: sched_ok_def)

lemma sched_reachable_ok: "sched_step\<^sup>*\<^sup>* (system_start sc tids st) s \<Longrightarrow> sched_ok s"
  by (induction rule: rtranclp_induct) (auto intro: sched_step_ok sched_ok_start)

section \<open>Properties\<close>

text \<open>
  (C5) However workers, callers of \<open>Schedule\<close> and \<open>Stop\<close>, and fiber state changes interleave, no task is lost
  or run twice: the tasks scheduled are exactly those still queued, those being resumed and those
  whose resume has returned; a task bound to a thread is only resumed by it; and
  \<open>active_thread_count_\<close> and \<open>idle_thread_count_\<close> count the workers inside a task and inside idle.
\<close>

theorem tasks_conserved:
  assumes "sched_step\<^sup>*\<^sup>* (system_start sc tids st) s"
  shows "sy_scheduled s = mset (sc_tasks (sy_sched s)) + mset (held_all (sy_workers s)) + mset (sy_done s) \<and>
    sc_active (sy_sched s) = length (held_all (sy_workers s)) \<and>
    sc_idle (sy_sched s) = idlers (sy_workers s) \<and>
    (\<forall>w \<in> set (sy_workers s). \<forall>t. w_place w = Resuming t \<longrightarrow> st_thread t = - 1 \<or> st_thread t = w_tid w)"
  using sched_reachable_ok [OF assms] unfolding sched_ok_def by blast

definition demo_sched :: "nat scheduler" where
  "demo_sched = \<lparr>sc_name = ''s'', sc_threads = [], sc_tasks = [], sc_thread_ids = [], sc_thread_count = 1,
     sc_active = 0, sc_idle = 0, sc_use_caller = False, sc_root_fiber = False, sc_root_thread = - 1,
     sc_stopping = False\<rparr>"

theorem tasks_conserved_witness:
  "\<exists>s. sched_step\<^sup>*\<^sup>* (system_start demo_sched [1] (\<lambda>_. READY)) s \<and>
     sy_scheduled s = {#ScheduleTask None (Some 5) (- 1)#} \<and>
     mset (sc_tasks (sy_sched s)) + mset (held_all (sy_workers s)) + mset (sy_done s) =
       {#ScheduleTask None (Some 5) (- 1)#}"
proof -
  let ?s = "system_start demo_sched [1] (\<lambda>_. READY)" and ?t = "ScheduleTask None (Some (5 :: nat)) (- 1)"
  let ?s' = "?s\<lparr>sy_sched := snd (Schedule (sy_sched ?s) ?t),
      sy_scheduled := (if task_set ?t then add_mset ?t (sy_scheduled ?s) else sy_scheduled ?s)\<rparr>"
  have r: "sched_step\<^sup>*\<^sup>* ?s ?s'" by (rule r_into_rtranclp) (rule sched_step.schedule)
  have "sy_scheduled ?s' = {#?t#}" by (simp add: system_start_def task_set_def ScheduleTask_def)
  with r tasks_conserved [OF r] show ?thesis by metis
qed

text \<open>
  When a worker's idle fiber may end (\<open>Stopping\<close>), every task scheduled so far has been resumed and has
  returned: stopping loses no work.
\<close>

theorem stopping_means_done:
  assumes "sched_step\<^sup>*\<^sup>* (system_start sc tids st) s" "Stopping (sy_sched s)"
  shows "sy_scheduled s = mset (sy_done s) \<and> (\<forall>w \<in> set (sy_workers s). held w = [])"
  using sched_reachable_ok [OF assms(1)] assms(2)
  by (auto simp: sched_ok_def Stopping_def held_all_def)

theorem stopping_means_done_witness:
  "\<exists>s. sched_step\<^sup>*\<^sup>* (system_start demo_sched [1] (\<lambda>_. READY)) s \<and> Stopping (sy_sched s) \<and>
     sy_scheduled s = mset (sy_done s)"
proof -
  let ?s = "system_start demo_sched [1] (\<lambda>_. READY)"
  let ?s' = "?s\<lparr>sy_sched := (sy_sched ?s)\<lparr>sc_stopping := True\<rparr>\<rparr>"
  have r: "sched_step\<^sup>*\<^sup>* ?s ?s'" by (rule r_into_rtranclp) (rule sched_step.stop)
  moreover have "Stopping (sy_sched ?s')" by (simp add: Stopping_def system_start_def demo_sched_def)
  ultimately show ?thesis using stopping_means_done [OF r] by blast
qed

text \<open>
  A worker takes the first task in the list that is not bound to another thread and whose fiber is not
  still running, leaves the order of the others, and never fails the assertion, because \<open>Schedule\<close> never
  queues an empty task. It takes none exactly when no task is eligible, and then the list may still hold
  tasks for other threads.
\<close>

theorem take_first_eligible:
  assumes "\<forall>t \<in> set (sc_tasks sc). task_set t"
  shows "(\<exists>r tk sc'. Run_take tid st sc = Inr (r, tk, sc') \<and>
      (r = None \<longleftrightarrow> (\<forall>t \<in> set (sc_tasks sc). \<not> eligible tid st t)) \<and>
      (r = None \<longrightarrow> sc' = sc) \<and>
      (\<forall>t. r = Some t \<longrightarrow> (\<exists>us vs. sc_tasks sc = us @ t # vs \<and> (\<forall>u \<in> set us. \<not> eligible tid st u) \<and>
        eligible tid st t \<and> sc_tasks sc' = us @ vs \<and> sc_active sc' = Suc (sc_active sc)))) \<and>
    (\<forall>t. \<forall>u \<in> set (sc_tasks (snd (Schedule sc t))). task_set u)"
proof
  show "\<forall>t. \<forall>u \<in> set (sc_tasks (snd (Schedule sc t))). task_set u"
    using assms by (auto simp: Schedule_def ScheduleNoLock_def)
  from pick_split [OF assms, of tid st False]
  show "\<exists>r tk sc'. Run_take tid st sc = Inr (r, tk, sc') \<and>
      (r = None \<longleftrightarrow> (\<forall>t \<in> set (sc_tasks sc). \<not> eligible tid st t)) \<and>
      (r = None \<longrightarrow> sc' = sc) \<and>
      (\<forall>t. r = Some t \<longrightarrow> (\<exists>us vs. sc_tasks sc = us @ t # vs \<and> (\<forall>u \<in> set us. \<not> eligible tid st u) \<and>
        eligible tid st t \<and> sc_tasks sc' = us @ vs \<and> sc_active sc' = Suc (sc_active sc)))"
  proof (elim disjE conjE exE)
    fix tk' assume "\<forall>t \<in> set (sc_tasks sc). \<not> eligible tid st t" "pick tid st (sc_tasks sc) False = Inr (None, sc_tasks sc, tk')"
    then show ?thesis by (intro exI [of _ None] exI [of _ tk'] exI [of _ sc]) (simp add: Run_take_def)
  next
    fix us t vs tk'
    assume h: "sc_tasks sc = us @ t # vs" "\<forall>u \<in> set us. \<not> eligible tid st u" "eligible tid st t"
      "pick tid st (sc_tasks sc) False = Inr (Some t, us @ vs, tk')"
    let ?sc = "sc\<lparr>sc_tasks := us @ vs, sc_active := Suc (sc_active sc)\<rparr>"
    have "Run_take tid st sc = Inr (Some t, tk', ?sc)" using h(4) by (simp add: Run_take_def)
    moreover have "\<exists>us' vs'. sc_tasks sc = us' @ t # vs' \<and> (\<forall>u \<in> set us'. \<not> eligible tid st u) \<and>
        eligible tid st t \<and> sc_tasks ?sc = us' @ vs' \<and> sc_active ?sc = Suc (sc_active sc)"
      using h by auto
    ultimately show ?thesis using h by (intro exI [of _ "Some t"] exI [of _ tk'] exI [of _ ?sc]) auto
  qed
qed

theorem take_first_eligible_witness:
  "\<exists>tk. Run_take 1 (\<lambda>_. READY) (demo_sched\<lparr>sc_tasks := [ScheduleTask None (Some 5) 2]\<rparr>) =
     Inr (None, tk, demo_sched\<lparr>sc_tasks := [ScheduleTask None (Some 5) 2]\<rparr>)"
  using take_first_eligible [of "demo_sched\<lparr>sc_tasks := [ScheduleTask None (Some 5) 2]\<rparr>" 1 "\<lambda>_. READY"]
  by (auto simp: ScheduleTask_def task_set_def eligible_def)

text \<open>
  A scheduler of \<open>n\<close> threads runs \<open>Run\<close> in exactly \<open>n\<close> threads: construction and \<open>Start\<close> record \<open>n\<close> thread
  ids, the caller's first if it takes part; and \<open>Stop\<close> tickles once per worker (and once for the caller),
  runs the caller's share and then joins every thread of the pool.
\<close>

theorem start_stop_threads:
  assumes "Scheduler n use_caller name False tid = Inr sc0" "Start new_id sc0 = Inr sc"
  shows "length (sc_thread_ids sc) = n \<and> (use_caller \<longrightarrow> hd (sc_thread_ids sc) = tid) \<and>
    Stop sc use_caller = Inr (replicate n Tickle_Other @ (if use_caller then [Resume_Root] else []) @
      map Join (sc_threads sc), sc\<lparr>sc_stopping := True, sc_threads := []\<rparr>) \<and>
    Stop sc (\<not> use_caller) = Inl Assertion_Failed \<and>
    length (sc_threads sc) = (if use_caller then n - 1 else n)"
proof -
  have n: "0 < n" using assms(1) by (cases n) (auto simp: Scheduler_def)
  then obtain k where k: "n = Suc k" by (cases n) auto
  have "replicate k Tickle_Other @ Tickle_Other # r = Tickle_Other # replicate k Tickle_Other @ r" for r
    by (simp add: replicate_app_Cons_same)
  with assms k show ?thesis
    by (cases use_caller) (auto simp: Scheduler_def Start_def Stop_def Stopping_def Let_def)
qed

theorem start_stop_threads_witness:
  "\<exists>(sc0 :: nat scheduler) sc. Scheduler 2 True ''s'' False 9 = Inr sc0 \<and> Start (\<lambda>i. int i + 10) sc0 = Inr sc \<and>
     length (sc_thread_ids sc) = 2 \<and> sc_threads sc = [10]"
proof -
  obtain sc0 :: "nat scheduler" where 0: "Scheduler 2 True ''s'' False 9 = Inr sc0" by (simp add: Scheduler_def)
  moreover obtain sc where 1: "Start (\<lambda>i. int i + 10) sc0 = Inr sc"
    using 0 by (auto simp: Scheduler_def Start_def Let_def)
  moreover have "sc_threads sc = [10]" using 0 1 by (auto simp: Scheduler_def Start_def Let_def)
  ultimately show ?thesis using start_stop_threads [OF 0 1] by blast
qed

end
