(* ===== verification/Timer.thy ===== *)
theory Timer
  imports Std_Set
begin

text \<open>
  Timers and the timer manager (\<open>util/timer.h\<close>, \<open>util/timer.cc\<close>). A timer lives on the heap at an
  address and is shared between the manager's ordered set and whoever called \<open>AddTimer\<close>; the set is
  ordered by deadline and then by address. Times are 64-bit milliseconds with wrap-around. The
  clock (\<open>GetElapsedMS\<close>) and the addresses the allocator picks are arguments. Each operation is the
  body its lock makes atomic; the test of \<open>reset\<close> outside the lock and the two emptiness tests
  of \<open>ListExpiredCb\<close> are kept where the code has them.
\<close>

section \<open>Data\<close>

record 'cb timer =
  tmr_recurring :: bool
  tmr_ms :: u64
  tmr_next :: u64
  tmr_cb :: "'cb option"

record 'cb timer_manager =
  tm_heap :: "nat \<Rightarrow> 'cb timer option"
  tm_timers :: "nat list"
  tm_tickled :: bool
  tm_previous_use_time :: u64

text \<open>\<open>Timer::Comparator\<close> on possibly null pointers.\<close>

definition Comparator :: "(nat \<Rightarrow> u64) \<Rightarrow> nat option \<Rightarrow> nat option \<Rightarrow> bool" where
  "Comparator next lhs rhs =
     (case (lhs, rhs) of
        (None, None) \<Rightarrow> False
      | (None, Some _) \<Rightarrow> True
      | (Some _, None) \<Rightarrow> False
      | (Some a, Some b) \<Rightarrow>
          if next a < next b then True else if next b < next a then False else a < b)"

definition deadline :: "(nat \<Rightarrow> 'cb timer option) \<Rightarrow> nat \<Rightarrow> u64" where
  "deadline h a = (case h a of Some t \<Rightarrow> tmr_next t | None \<Rightarrow> 0)"

definition timer_less :: "(nat \<Rightarrow> u64) \<Rightarrow> nat \<Rightarrow> nat \<Rightarrow> bool" where
  "timer_less next a b = Comparator next (Some a) (Some b)"

section \<open>Operations of the manager\<close>

definition TimerManager :: "u64 \<Rightarrow> 'cb timer_manager" where
  "TimerManager now = \<lparr>tm_heap = (\<lambda>_. None), tm_timers = [], tm_tickled = False, tm_previous_use_time = now\<rparr>"

definition Timer :: "u64 \<Rightarrow> u64 \<Rightarrow> 'cb option \<Rightarrow> bool \<Rightarrow> 'cb timer" where
  "Timer now ms cb recurring =
     \<lparr>tmr_recurring = recurring, tmr_ms = ms, tmr_next = now + ms, tmr_cb = cb\<rparr>"

text \<open>The protected \<open>AddTimer\<close>; the flag says whether \<open>OnTimerInsertedAtFront\<close> was called.\<close>

definition AddTimer_locked :: "'cb timer_manager \<Rightarrow> nat \<Rightarrow> 'cb timer_manager \<times> bool" where
  "AddTimer_locked tm val =
     (let less = timer_less (deadline (tm_heap tm));
          timers = set_insert less val (tm_timers tm);
          it = set_find less val timers;
          at_front = (it = 0 \<and> \<not> tm_tickled tm)
      in (tm\<lparr>tm_timers := timers, tm_tickled := (if at_front then True else tm_tickled tm)\<rparr>, at_front))"

definition AddTimer ::
  "'cb timer_manager \<Rightarrow> nat \<Rightarrow> u64 \<Rightarrow> u64 \<Rightarrow> 'cb option \<Rightarrow> bool \<Rightarrow> 'cb timer_manager \<times> bool" where
  "AddTimer tm a now ms cb recurring =
     AddTimer_locked (tm\<lparr>tm_heap := (tm_heap tm)(a \<mapsto> Timer now ms cb recurring)\<rparr>) a"

text \<open>
  \<open>OnTimer\<close> runs the callback only if the condition object is still alive when the timer fires. A
  conditional callback is the pair of both, and firing it is a function of the liveness.
\<close>

definition OnTimer :: "('c \<Rightarrow> bool) \<Rightarrow> 'c \<times> 'cb \<Rightarrow> 'cb option" where
  "OnTimer alive wc = (if alive (fst wc) then Some (snd wc) else None)"

definition AddConditionTimer ::
  "('c \<times> 'cb) timer_manager \<Rightarrow> nat \<Rightarrow> u64 \<Rightarrow> u64 \<Rightarrow> 'cb \<Rightarrow> 'c \<Rightarrow> bool \<Rightarrow> ('c \<times> 'cb) timer_manager \<times> bool" where
  "AddConditionTimer tm a now ms cb weak_cond recurring =
     AddTimer tm a now ms (Some (weak_cond, cb)) recurring"

definition GetNextTimer :: "'cb timer_manager \<Rightarrow> u64 \<Rightarrow> u64 \<times> 'cb timer_manager" where
  "GetNextTimer tm now =
     (let tm' = tm\<lparr>tm_tickled := False\<rparr> in
      (case tm_timers tm of
         [] \<Rightarrow> - 1
       | a # _ \<Rightarrow> (let next = deadline (tm_heap tm) a in if now \<ge> next then 0 else next - now), tm'))"

definition HasTimer :: "'cb timer_manager \<Rightarrow> bool" where
  "HasTimer tm \<longleftrightarrow> tm_timers tm \<noteq> []"

definition DetectClockRollover :: "'cb timer_manager \<Rightarrow> u64 \<Rightarrow> bool \<times> 'cb timer_manager" where
  "DetectClockRollover tm now_ms =
     (now_ms < tm_previous_use_time tm \<and> now_ms < tm_previous_use_time tm - 60 * 60 * 1000,
      tm\<lparr>tm_previous_use_time := now_ms\<rparr>)"

text \<open>The loop over the expired timers: deliver the callback, then rearm or disarm.\<close>

fun fire :: "u64 \<Rightarrow> nat list \<Rightarrow> 'cb timer_manager \<times> 'cb option list \<Rightarrow> 'cb timer_manager \<times> 'cb option list" where
  "fire now [] (tm, cbs) = (tm, cbs)"
| "fire now (a # as) (tm, cbs) =
     (case tm_heap tm a of
        None \<Rightarrow> fire now as (tm, cbs)
      | Some t \<Rightarrow>
          let tm' = (if tmr_recurring t
                     then let h = (tm_heap tm)(a \<mapsto> t\<lparr>tmr_next := now + tmr_ms t\<rparr>) in
                       tm\<lparr>tm_heap := h, tm_timers := set_insert (timer_less (deadline h)) a (tm_timers tm)\<rparr>
                     else tm\<lparr>tm_heap := (tm_heap tm)(a \<mapsto> t\<lparr>tmr_cb := None\<rparr>)\<rparr>)
          in fire now as (tm', cbs @ [tmr_cb t]))"

text \<open>
  \<open>now_addr\<close> is the address of the temporary \<open>now_timer\<close>. Iterators from \<open>lower_bound\<close> on are advanced
  over the timers due at this very moment.
\<close>

definition expired_count :: "(nat \<Rightarrow> u64) \<Rightarrow> nat \<Rightarrow> u64 \<Rightarrow> bool \<Rightarrow> nat list \<Rightarrow> nat" where
  "expired_count next now_addr now rollover timers =
     (let it = (if rollover then length timers
                else lower_bound (timer_less (next(now_addr := now))) now_addr timers)
      in it + length (takeWhile (\<lambda>a. next a = now) (drop it timers)))"

definition ListExpiredCb ::
  "'cb timer_manager \<Rightarrow> nat \<Rightarrow> u64 \<Rightarrow> 'cb option list \<Rightarrow> 'cb timer_manager \<times> 'cb option list" where
  "ListExpiredCb tm now_addr now cbs =
     (if tm_timers tm = [] then (tm, cbs)
      else
        let (rollover, tm) = DetectClockRollover tm now in
        if \<not> rollover \<and> deadline (tm_heap tm) (hd (tm_timers tm)) > now then (tm, cbs)
        else
          let it = expired_count (deadline (tm_heap tm)) now_addr now rollover (tm_timers tm);
              expired = take it (tm_timers tm)
          in fire now expired (tm\<lparr>tm_timers := drop it (tm_timers tm)\<rparr>, cbs))"

section \<open>Operations of a timer\<close>

definition Cancel :: "'cb timer_manager \<Rightarrow> nat \<Rightarrow> (bool \<times> 'cb timer_manager) result" where
  "Cancel tm a =
     (case tm_heap tm a of
        None \<Rightarrow> Inl Null_Deref
      | Some t \<Rightarrow>
          (case tmr_cb t of
             None \<Rightarrow> Inr (False, tm)
           | Some _ \<Rightarrow>
               let h = (tm_heap tm)(a \<mapsto> t\<lparr>tmr_cb := None\<rparr>);
                   it = set_find (timer_less (deadline h)) a (tm_timers tm)
               in rbind (set_erase it (tm_timers tm)) (\<lambda>ts.
                  Inr (True, tm\<lparr>tm_heap := h, tm_timers := ts\<rparr>))))"

definition Refresh :: "'cb timer_manager \<Rightarrow> nat \<Rightarrow> u64 \<Rightarrow> (bool \<times> 'cb timer_manager) result" where
  "Refresh tm a now =
     (case tm_heap tm a of
        None \<Rightarrow> Inl Null_Deref
      | Some t \<Rightarrow>
          if tmr_cb t = None then Inr (False, tm)
          else
            let it = set_find (timer_less (deadline (tm_heap tm))) a (tm_timers tm) in
            if it = length (tm_timers tm) then Inr (False, tm)
            else rbind (set_erase it (tm_timers tm)) (\<lambda>ts.
              let h = (tm_heap tm)(a \<mapsto> t\<lparr>tmr_next := now + tmr_ms t\<rparr>) in
              Inr (True, tm\<lparr>tm_heap := h, tm_timers := set_insert (timer_less (deadline h)) a ts\<rparr>)))"

text \<open>The result carries the \<open>OnTimerInsertedAtFront\<close> flag of the final \<open>AddTimer\<close>.\<close>

definition reset :: "'cb timer_manager \<Rightarrow> nat \<Rightarrow> u64 \<Rightarrow> bool \<Rightarrow> u64 \<Rightarrow> (bool \<times> 'cb timer_manager \<times> bool) result" where
  "reset tm a ms from_now now =
     (case tm_heap tm a of
        None \<Rightarrow> Inl Null_Deref
      | Some t \<Rightarrow>
          if ms = tmr_ms t \<and> \<not> from_now then Inr (True, tm, False)
          else if tmr_cb t = None then Inr (False, tm, False)
          else
            let it = set_find (timer_less (deadline (tm_heap tm))) a (tm_timers tm) in
            if it = length (tm_timers tm) then Inr (False, tm, False)
            else rbind (set_erase it (tm_timers tm)) (\<lambda>ts.
              let start = (if from_now then now else tmr_next t - tmr_ms t);
                  tm' = tm\<lparr>tm_heap := (tm_heap tm)(a \<mapsto> t\<lparr>tmr_ms := ms, tmr_next := start + ms\<rparr>),
                           tm_timers := ts\<rparr>;
                  (tm'', front) = AddTimer_locked tm' a
              in Inr (True, tm'', front)))"

section \<open>The order of the set\<close>

lemma timer_less_iff: "timer_less n a b \<longleftrightarrow> n a < n b \<or> n a = n b \<and> a < b"
  by (auto simp: timer_less_def Comparator_def)

interpretation timer_order: strict_order "timer_less n" for n
  by unfold_locales (auto simp: timer_less_iff)

lemma timer_less_cong: "n a = m a \<Longrightarrow> n b = m b \<Longrightarrow> timer_less n a b = timer_less m a b"
  by (simp add: timer_less_iff)

lemma sorted_cong:
  "(\<And>a. a \<in> set xs \<Longrightarrow> n a = m a) \<Longrightarrow> sorted_wrt (timer_less n) xs = sorted_wrt (timer_less m) xs"
  by (induction xs) (auto simp: timer_less_iff)

lemma deadline_upd [simp]:
  "deadline (h(a \<mapsto> t)) b = (if b = a then tmr_next t else deadline h b)"
  by (simp add: deadline_def)

lemma sorted_upd [simp]:
  "a \<notin> set xs \<Longrightarrow> sorted_wrt (timer_less (deadline (h(a \<mapsto> t)))) xs = sorted_wrt (timer_less (deadline h)) xs"
  by (rule sorted_cong) auto

section \<open>The invariant\<close>

text \<open>
  The set is sorted by the comparator under the current deadlines, and a timer is in the set exactly
  when its callback is set.
\<close>

definition tm_ok :: "'cb timer_manager \<Rightarrow> bool" where
  "tm_ok tm \<longleftrightarrow> sorted_wrt (timer_less (deadline (tm_heap tm))) (tm_timers tm) \<and>
     (\<forall>a. a \<in> set (tm_timers tm) \<longleftrightarrow> (\<exists>t. tm_heap tm a = Some t \<and> tmr_cb t \<noteq> None))"

lemma tm_okD:
  assumes "tm_ok tm"
  shows "sorted_wrt (timer_less (deadline (tm_heap tm))) (tm_timers tm)"
    and "a \<in> set (tm_timers tm) \<longleftrightarrow> (\<exists>t. tm_heap tm a = Some t \<and> tmr_cb t \<noteq> None)"
  using assms by (auto simp: tm_ok_def)

lemma TimerManager_ok: "tm_ok (TimerManager now)"
  by (simp add: tm_ok_def TimerManager_def)

lemma find_front:
  assumes "sorted_wrt (timer_less n) xs" "x \<notin> set xs"
  shows "set_find (timer_less n) x (set_insert (timer_less n) x xs) = 0 \<longleftrightarrow> (\<forall>y \<in> set xs. timer_less n x y)"
proof -
  let ?ys = "set_insert (timer_less n) x xs"
  have s: "sorted_wrt (timer_less n) ?ys" using assms(1) by (rule timer_order.sorted_set_insert)
  have f: "set_find (timer_less n) x ?ys < length ?ys \<and> ?ys ! set_find (timer_less n) x ?ys = x"
    by (rule timer_order.find_member [OF s]) simp
  have "set_find (timer_less n) x ?ys = 0 \<longleftrightarrow> hd ?ys = x"
    using f timer_order.sorted_distinct [OF s] by (metis hd_conv_nth length_greater_0_conv less_nat_zero_code list.size(3) nth_eq_iff_index_eq)
  with timer_order.insert_at_front [OF assms] show ?thesis by simp
qed

lemma AddTimer_locked_eq:
  assumes "sorted_wrt (timer_less (deadline (tm_heap tm))) (tm_timers tm)" "a \<notin> set (tm_timers tm)"
  shows "AddTimer_locked tm a =
    (let front = (\<forall>b \<in> set (tm_timers tm). timer_less (deadline (tm_heap tm)) a b) \<and> \<not> tm_tickled tm
     in (tm\<lparr>tm_timers := set_insert (timer_less (deadline (tm_heap tm))) a (tm_timers tm),
            tm_tickled := tm_tickled tm \<or> front\<rparr>, front))"
  unfolding AddTimer_locked_def Let_def find_front [OF assms] by (cases tm) auto

lemma AddTimer_ok:
  assumes "tm_ok tm" "tm_heap tm a = None" "cb \<noteq> None"
  shows "tm_ok (fst (AddTimer tm a now ms cb recurring))"
proof -
  have "a \<notin> set (tm_timers tm)" using tm_okD(2) [OF assms(1)] assms(2) by auto
  with assms tm_okD [OF assms(1)] show ?thesis
    unfolding AddTimer_def
    by (subst AddTimer_locked_eq) (auto simp: Let_def tm_ok_def Timer_def timer_order.sorted_set_insert)
qed

lemma erase_timer:
  assumes "tm_ok tm" "tm_heap tm a = Some t" "tmr_cb t \<noteq> None"
  shows "\<exists>ts. set_find (timer_less (deadline (tm_heap tm))) a (tm_timers tm) < length (tm_timers tm) \<and>
     set_erase (set_find (timer_less (deadline (tm_heap tm))) a (tm_timers tm)) (tm_timers tm) = Inr ts \<and>
     set ts = set (tm_timers tm) - {a} \<and> sorted_wrt (timer_less (deadline (tm_heap tm))) ts"
proof -
  have a: "a \<in> set (tm_timers tm)" using tm_okD(2) [OF assms(1)] assms(2,3) by auto
  from timer_order.erase_member [OF tm_okD(1) [OF assms(1)] a] timer_order.find_member [OF tm_okD(1) [OF assms(1)] a]
  show ?thesis by blast
qed

text \<open>Clearing the callback first does not disturb the search for the timer.\<close>

lemma deadline_clear [simp]:
  "h a = Some t \<Longrightarrow> deadline (h(a \<mapsto> t\<lparr>tmr_cb := c\<rparr>)) = deadline h"
  by (auto simp: deadline_def)

lemma Cancel_cases:
  assumes "tm_ok tm" "tm_heap tm a = Some t"
  shows "\<exists>tm'. Cancel tm a = Inr (tmr_cb t \<noteq> None, tm') \<and> tm_ok tm' \<and>
    set (tm_timers tm') = set (tm_timers tm) - {a} \<and> tm_heap tm' = (tm_heap tm)(a \<mapsto> t\<lparr>tmr_cb := None\<rparr>)"
proof (cases "tmr_cb t")
  case None
  then have "a \<notin> set (tm_timers tm)" using tm_okD(2) [OF assms(1)] assms(2) by auto
  moreover have "t\<lparr>tmr_cb := None\<rparr> = t" using None by simp
  ultimately show ?thesis using assms None by (auto simp: Cancel_def fun_upd_idem)
next
  case (Some c)
  from erase_timer [OF assms] Some obtain ts where ts:
    "set_erase (set_find (timer_less (deadline (tm_heap tm))) a (tm_timers tm)) (tm_timers tm) = Inr ts"
    "set ts = set (tm_timers tm) - {a}" "sorted_wrt (timer_less (deadline (tm_heap tm))) ts" by auto
  let ?tm = "tm\<lparr>tm_heap := (tm_heap tm)(a \<mapsto> t\<lparr>tmr_cb := None\<rparr>), tm_timers := ts\<rparr>"
  have "Cancel tm a = Inr (True, ?tm)" using assms(2) Some ts(1) by (simp add: Cancel_def Let_def del: fun_upd_apply)
  moreover have "tm_ok ?tm"
    using ts(2,3) tm_okD(2) [OF assms(1)] assms(2) by (auto simp: tm_ok_def)
  ultimately show ?thesis using Some ts(2) by auto
qed

lemma rearm_ok:
  assumes "tm_ok tm" "tm_heap tm a = Some t" "tmr_cb t \<noteq> None" "tmr_cb t' \<noteq> None"
    "set ts = set (tm_timers tm) - {a}" "sorted_wrt (timer_less (deadline (tm_heap tm))) ts"
  shows "tm_ok (tm\<lparr>tm_heap := (tm_heap tm)(a \<mapsto> t'),
     tm_timers := set_insert (timer_less (deadline ((tm_heap tm)(a \<mapsto> t')))) a ts, tm_tickled := tk\<rparr>)"
  using assms tm_okD(2) [OF assms(1)]
  by (auto simp: tm_ok_def intro!: timer_order.sorted_set_insert)

lemma Refresh_cases:
  assumes "tm_ok tm" "tm_heap tm a = Some t"
  shows "\<exists>tm'. Refresh tm a now = Inr (tmr_cb t \<noteq> None, tm') \<and> tm_ok tm' \<and>
    set (tm_timers tm') = set (tm_timers tm) \<and>
    tm_heap tm' = (if tmr_cb t = None then tm_heap tm else (tm_heap tm)(a \<mapsto> t\<lparr>tmr_next := now + tmr_ms t\<rparr>))"
proof (cases "tmr_cb t = None")
  case True
  then show ?thesis using assms by (auto simp: Refresh_def)
next
  case False
  from erase_timer [OF assms False] obtain ts where ts:
    "set_find (timer_less (deadline (tm_heap tm))) a (tm_timers tm) < length (tm_timers tm)"
    "set_erase (set_find (timer_less (deadline (tm_heap tm))) a (tm_timers tm)) (tm_timers tm) = Inr ts"
    "set ts = set (tm_timers tm) - {a}" "sorted_wrt (timer_less (deadline (tm_heap tm))) ts" by auto
  let ?t = "t\<lparr>tmr_next := now + tmr_ms t\<rparr>"
  let ?h = "(tm_heap tm)(a \<mapsto> ?t)"
  let ?tm = "tm\<lparr>tm_heap := ?h, tm_timers := set_insert (timer_less (deadline ?h)) a ts\<rparr>"
  have "Refresh tm a now = Inr (tmr_cb t \<noteq> None, ?tm)"
    using assms(2) False ts(1,2) by (simp add: Refresh_def Let_def del: fun_upd_apply)
  moreover have "tm_ok ?tm"
    using rearm_ok [OF assms False _ ts(3,4), of ?t "tm_tickled tm"] False by simp
  moreover have "set (tm_timers ?tm) = set (tm_timers tm)"
    using ts(3) tm_okD(2) [OF assms(1), of a] assms(2) False by auto
  moreover have "tm_heap ?tm = (if tmr_cb t = None then tm_heap tm else ?h)"
    by (subst if_not_P [OF False]) simp
  ultimately show ?thesis by blast
qed

lemma reset_cases:
  assumes "tm_ok tm" "tm_heap tm a = Some t"
  shows "\<exists>tm' front. reset tm a ms from_now now = Inr (ms = tmr_ms t \<and> \<not> from_now \<or> tmr_cb t \<noteq> None, tm', front) \<and>
    tm_ok tm' \<and> set (tm_timers tm') = set (tm_timers tm) \<and>
    tm_heap tm' = (if ms = tmr_ms t \<and> \<not> from_now \<or> tmr_cb t = None then tm_heap tm
      else (tm_heap tm)(a \<mapsto> t\<lparr>tmr_ms := ms, tmr_next := (if from_now then now else tmr_next t - tmr_ms t) + ms\<rparr>))"
proof (cases "ms = tmr_ms t \<and> \<not> from_now \<or> tmr_cb t = None")
  case True
  then show ?thesis using assms by (auto simp: reset_def)
next
  case False
  then have c: "tmr_cb t \<noteq> None" by simp
  from erase_timer [OF assms c] obtain ts where ts:
    "set_find (timer_less (deadline (tm_heap tm))) a (tm_timers tm) < length (tm_timers tm)"
    "set_erase (set_find (timer_less (deadline (tm_heap tm))) a (tm_timers tm)) (tm_timers tm) = Inr ts"
    "set ts = set (tm_timers tm) - {a}" "sorted_wrt (timer_less (deadline (tm_heap tm))) ts" by auto
  define t' where "t' = t\<lparr>tmr_ms := ms, tmr_next := (if from_now then now else tmr_next t - tmr_ms t) + ms\<rparr>"
  let ?h = "(tm_heap tm)(a \<mapsto> t')"
  let ?tm = "tm\<lparr>tm_heap := ?h, tm_timers := ts\<rparr>"
  obtain f where f: "AddTimer_locked ?tm a =
      (?tm\<lparr>tm_timers := set_insert (timer_less (deadline ?h)) a ts, tm_tickled := tm_tickled tm \<or> f\<rparr>, f)"
    using AddTimer_locked_eq [of ?tm a] ts(3,4) by (simp add: Let_def)
  let ?tm' = "?tm\<lparr>tm_timers := set_insert (timer_less (deadline ?h)) a ts, tm_tickled := tm_tickled tm \<or> f\<rparr>"
  have "reset tm a ms from_now now = Inr (ms = tmr_ms t \<and> \<not> from_now \<or> tmr_cb t \<noteq> None, ?tm', f)"
    using assms(2) False ts(1,2) f [unfolded t'_def]
    by (auto simp: reset_def Let_def t'_def simp del: fun_upd_apply)
  moreover have "tm_ok ?tm'"
    using rearm_ok [OF assms c _ ts(3,4), of t' "tm_tickled tm \<or> f"] c by (simp add: t'_def)
  moreover have "set (tm_timers ?tm') = set (tm_timers tm)"
    using ts(3) tm_okD(2) [OF assms(1), of a] assms(2) c by auto
  moreover have "tm_heap ?tm' = (if ms = tmr_ms t \<and> \<not> from_now \<or> tmr_cb t = None then tm_heap tm else ?h)"
    by (subst if_not_P [OF False]) simp
  ultimately show ?thesis unfolding t'_def [symmetric] by blast
qed

section \<open>Expiry\<close>

definition fired :: "u64 \<Rightarrow> 'cb timer \<Rightarrow> 'cb timer" where
  "fired now t = (if tmr_recurring t then t\<lparr>tmr_next := now + tmr_ms t\<rparr> else t\<lparr>tmr_cb := None\<rparr>)"

lemma fired_cb [simp]: "tmr_cb (fired now t) = (if tmr_recurring t then tmr_cb t else None)"
  by (simp add: fired_def)

lemma fire_ok:
  assumes "sorted_wrt (timer_less (deadline (tm_heap tm))) (tm_timers tm)" "distinct as"
    "set as \<inter> set (tm_timers tm) = {}" "\<forall>a \<in> set as. tm_heap tm a \<noteq> None"
  shows "\<exists>tm'. fire now as (tm, cbs) = (tm', cbs @ map (\<lambda>a. tmr_cb (the (tm_heap tm a))) as) \<and>
    tm_heap tm' = (\<lambda>b. if b \<in> set as then map_option (fired now) (tm_heap tm b) else tm_heap tm b) \<and>
    sorted_wrt (timer_less (deadline (tm_heap tm'))) (tm_timers tm') \<and>
    set (tm_timers tm') = set (tm_timers tm) \<union> {a \<in> set as. tmr_recurring (the (tm_heap tm a))} \<and>
    tm_tickled tm' = tm_tickled tm \<and> tm_previous_use_time tm' = tm_previous_use_time tm"
  using assms
proof (induction as arbitrary: tm cbs)
  case Nil
  then show ?case by simp
next
  case (Cons a as)
  then obtain t where t: "tm_heap tm a = Some t" by auto
  define tm1 where "tm1 = (if tmr_recurring t
     then let h = (tm_heap tm)(a \<mapsto> t\<lparr>tmr_next := now + tmr_ms t\<rparr>) in
       tm\<lparr>tm_heap := h, tm_timers := set_insert (timer_less (deadline h)) a (tm_timers tm)\<rparr>
     else tm\<lparr>tm_heap := (tm_heap tm)(a \<mapsto> t\<lparr>tmr_cb := None\<rparr>)\<rparr>)"
  have h1: "tm_heap tm1 = (tm_heap tm)(a \<mapsto> fired now t)"
    by (simp add: tm1_def fired_def Let_def)
  have ts1: "set (tm_timers tm1) = set (tm_timers tm) \<union> (if tmr_recurring t then {a} else {})"
    by (simp add: tm1_def Let_def)
  have f1: "tm_tickled tm1 = tm_tickled tm" "tm_previous_use_time tm1 = tm_previous_use_time tm"
    by (simp_all add: tm1_def Let_def)
  have "a \<notin> set (tm_timers tm)" using Cons.prems(3) by simp
  then have s1: "sorted_wrt (timer_less (deadline (tm_heap tm1))) (tm_timers tm1)"
    using Cons.prems(1) t by (auto simp: tm1_def Let_def intro!: timer_order.sorted_set_insert)
  have "fire now (a # as) (tm, cbs) = fire now as (tm1, cbs @ [tmr_cb t])"
    using t by (simp add: tm1_def Let_def)
  moreover have "\<exists>tm2. fire now as (tm1, cbs @ [tmr_cb t]) =
      (tm2, (cbs @ [tmr_cb t]) @ map (\<lambda>b. tmr_cb (the (tm_heap tm1 b))) as) \<and>
    tm_heap tm2 = (\<lambda>b. if b \<in> set as then map_option (fired now) (tm_heap tm1 b) else tm_heap tm1 b) \<and>
    sorted_wrt (timer_less (deadline (tm_heap tm2))) (tm_timers tm2) \<and>
    set (tm_timers tm2) = set (tm_timers tm1) \<union> {b \<in> set as. tmr_recurring (the (tm_heap tm1 b))} \<and>
    tm_tickled tm2 = tm_tickled tm1 \<and> tm_previous_use_time tm2 = tm_previous_use_time tm1"
    by (rule Cons.IH [OF s1]) (use Cons.prems ts1 h1 in auto)
  then obtain tm2 where "fire now as (tm1, cbs @ [tmr_cb t]) =
      (tm2, (cbs @ [tmr_cb t]) @ map (\<lambda>b. tmr_cb (the (tm_heap tm1 b))) as)"
    "tm_heap tm2 = (\<lambda>b. if b \<in> set as then map_option (fired now) (tm_heap tm1 b) else tm_heap tm1 b)"
    "sorted_wrt (timer_less (deadline (tm_heap tm2))) (tm_timers tm2)"
    "set (tm_timers tm2) = set (tm_timers tm1) \<union> {b \<in> set as. tmr_recurring (the (tm_heap tm1 b))}"
    "tm_tickled tm2 = tm_tickled tm1" "tm_previous_use_time tm2 = tm_previous_use_time tm1"
    by blast
  moreover have "map (\<lambda>b. tmr_cb (the (tm_heap tm1 b))) as = map (\<lambda>b. tmr_cb (the (tm_heap tm b))) as"
    using Cons.prems(2) h1 by auto
  moreover have "{b \<in> set as. tmr_recurring (the (tm_heap tm1 b))} = {b \<in> set as. tmr_recurring (the (tm_heap tm b))}"
    using Cons.prems(2) h1 by auto
  ultimately show ?case
    using t h1 ts1 f1 Cons.prems(2) by (intro exI [of _ tm2]) (auto intro!: ext)
qed

lemma append_filter:
  "xs = ys @ zs \<Longrightarrow> \<forall>y \<in> set ys. P y \<Longrightarrow> \<forall>z \<in> set zs. \<not> P z \<Longrightarrow> ys = filter P xs \<and> zs = filter (\<lambda>x. \<not> P x) xs"
  by (auto simp: filter_empty_conv filter_id_conv)

text \<open>Without rollover the prefix taken is exactly the timers due by now.\<close>

lemma expired_count_ok:
  assumes s: "sorted_wrt (timer_less n) ts" and a: "now_addr \<notin> set ts"
  shows "take (expired_count n now_addr now False ts) ts = filter (\<lambda>b. n b \<le> now) ts \<and>
    drop (expired_count n now_addr now False ts) ts = filter (\<lambda>b. \<not> n b \<le> now) ts"
proof (rule append_filter)
  define m where "m = n(now_addr := now)"
  let ?it = "lower_bound (timer_less m) now_addr ts"
  let ?due = "takeWhile (\<lambda>b. n b = now) (drop ?it ts)" and ?later = "dropWhile (\<lambda>b. n b = now) (drop ?it ts)"
  have sm: "sorted_wrt (timer_less m) ts" using s a by (subst sorted_cong [of ts m n]) (auto simp: m_def)
  have c: "expired_count n now_addr now False ts = ?it + length ?due"
    by (simp add: expired_count_def m_def Let_def)
  show "ts = take (expired_count n now_addr now False ts) ts @ drop (expired_count n now_addr now False ts) ts"
    by simp
  have tk: "take (expired_count n now_addr now False ts) ts = take ?it ts @ ?due"
    unfolding c take_add by (simp flip: takeWhile_eq_take)
  have dr: "drop (expired_count n now_addr now False ts) ts = ?later"
    unfolding c dropWhile_eq_drop [of _ "drop ?it ts"] drop_drop by (rule arg_cong [of _ _ "\<lambda>i. drop i ts"]) (rule add.commute)
  have less: "b \<in> set ts \<Longrightarrow> timer_less m b now_addr \<longleftrightarrow> n b < now \<or> n b = now \<and> b < now_addr" for b
    using a by (auto simp: m_def timer_less_iff)
  have "\<forall>b \<in> set (take ?it ts). n b \<le> now"
    using timer_order.lower_bound_split(1) [OF sm, of now_addr] less by (metis in_set_takeD order_le_less)
  then show "\<forall>b \<in> set (take (expired_count n now_addr now False ts) ts). n b \<le> now"
    unfolding tk by (auto dest: set_takeWhileD)
  have ge: "\<forall>b \<in> set (drop ?it ts). now \<le> n b"
    using timer_order.lower_bound_split(2) [OF sm, of now_addr] less
    by (meson in_set_dropD not_le_imp_less)
  have sl: "sorted_wrt (timer_less n) ?later"
    using s by (metis append_take_drop_id sorted_wrt_append takeWhile_dropWhile_id)
  show "\<forall>b \<in> set (drop (expired_count n now_addr now False ts) ts). \<not> n b \<le> now"
    unfolding dr
  proof (cases ?later)
    case Nil
    then show "\<forall>b \<in> set ?later. \<not> n b \<le> now" by (simp only:) simp
  next
    case (Cons b bs)
    then have "n b \<noteq> now" by (metis (mono_tags, lifting) hd_dropWhile list.distinct(1) list.sel(1))
    moreover have "b \<in> set (drop ?it ts)" using Cons by (metis list.set_intros(1) set_dropWhileD)
    ultimately have "now < n b" using ge by (simp add: order_le_neq_trans)
    then show "\<forall>b \<in> set ?later. \<not> n b \<le> now" using sl Cons by (auto simp: timer_less_iff)
  qed
qed

lemma ListExpiredCb_ok:
  assumes ok: "tm_ok tm" and a: "tm_heap tm now_addr = None" and r: "\<not> fst (DetectClockRollover tm now)"
  defines "due \<equiv> filter (\<lambda>b. deadline (tm_heap tm) b \<le> now) (tm_timers tm)"
  shows "\<exists>tm'. ListExpiredCb tm now_addr now cbs = (tm', cbs @ map (\<lambda>b. tmr_cb (the (tm_heap tm b))) due) \<and>
    tm_ok tm' \<and>
    tm_heap tm' = (\<lambda>b. if b \<in> set due then map_option (fired now) (tm_heap tm b) else tm_heap tm b) \<and>
    set (tm_timers tm') = {b \<in> set (tm_timers tm). b \<in> set due \<longrightarrow> tmr_recurring (the (tm_heap tm b))}"
proof -
  let ?n = "deadline (tm_heap tm)" and ?ts = "tm_timers tm"
  let ?tm1 = "tm\<lparr>tm_previous_use_time := now\<rparr>"
  note s = tm_okD(1) [OF ok]
  have na: "now_addr \<notin> set ?ts" using tm_okD(2) [OF ok] a by auto
  have dcr: "DetectClockRollover tm now = (False, ?tm1)"
    using r by (auto simp: DetectClockRollover_def)
  note ec = expired_count_ok [OF s na, of now]
  consider "?ts = []" | "?ts \<noteq> []" "?n (hd ?ts) > now" | "?ts \<noteq> []" "\<not> ?n (hd ?ts) > now" by blast
  then show ?thesis
  proof cases
    case 1
    then show ?thesis using ok by (auto simp: ListExpiredCb_def due_def)
  next
    case 2
    then obtain b bs where ts: "?ts = b # bs" by (cases ?ts) auto
    have "due = []" using s 2(2) unfolding due_def ts by (auto simp: timer_less_iff filter_empty_conv)
    then show ?thesis using 2 r ok by (auto simp: ListExpiredCb_def DetectClockRollover_def tm_ok_def)
  next
    case 3
    let ?later = "filter (\<lambda>b. \<not> ?n b \<le> now) ?ts"
    define tm2 where "tm2 = ?tm1\<lparr>tm_timers := ?later\<rparr>"
    have tm2: "tm_heap tm2 = tm_heap tm" "tm_timers tm2 = ?later" by (simp_all add: tm2_def)
    have "ListExpiredCb tm now_addr now cbs = fire now due (tm2, cbs)"
      using 3 ec unfolding ListExpiredCb_def dcr due_def tm2_def by (simp add: Let_def)
    moreover have "sorted_wrt (timer_less (deadline (tm_heap tm2))) (tm_timers tm2)" "distinct due"
        "set due \<inter> set (tm_timers tm2) = {}" "\<forall>a \<in> set due. tm_heap tm2 a \<noteq> None"
      unfolding tm2 using s timer_order.sorted_distinct [OF s] tm_okD(2) [OF ok]
      by (auto simp: due_def sorted_wrt_filter)
    note fire_ok [OF this, of now cbs, unfolded tm2]
    ultimately obtain tm' where tm': "ListExpiredCb tm now_addr now cbs =
        (tm', cbs @ map (\<lambda>b. tmr_cb (the (tm_heap tm b))) due)"
      "tm_heap tm' = (\<lambda>b. if b \<in> set due then map_option (fired now) (tm_heap tm b) else tm_heap tm b)"
      "sorted_wrt (timer_less (deadline (tm_heap tm'))) (tm_timers tm')"
      "set (tm_timers tm') = set ?later \<union> {a \<in> set due. tmr_recurring (the (tm_heap tm a))}"
      by metis
    have "set (tm_timers tm') = {b \<in> set ?ts. b \<in> set due \<longrightarrow> tmr_recurring (the (tm_heap tm b))}"
      unfolding tm'(4) by (auto simp: due_def)
    moreover have "a \<in> set (tm_timers tm') \<longleftrightarrow> (\<exists>t. tm_heap tm' a = Some t \<and> tmr_cb t \<noteq> None)" for a
      using tm_okD(2) [OF ok, of a] unfolding calculation tm'(2)
      by (cases "tm_heap tm a"; cases "a \<in> set due") (auto simp: due_def)
    ultimately show ?thesis using tm'(1-3) unfolding tm_ok_def by blast
  qed
qed

inductive tm_reachable :: "'cb timer_manager \<Rightarrow> bool" where
  construct: "tm_reachable (TimerManager now)"
| add: "tm_reachable tm \<Longrightarrow> tm_heap tm a = None \<Longrightarrow> cb \<noteq> None \<Longrightarrow>
    tm_reachable (fst (AddTimer tm a now ms cb recurring))"
| cancel: "tm_reachable tm \<Longrightarrow> Cancel tm a = Inr (b, tm') \<Longrightarrow> tm_reachable tm'"
| refresh: "tm_reachable tm \<Longrightarrow> Refresh tm a now = Inr (b, tm') \<Longrightarrow> tm_reachable tm'"
| reset: "tm_reachable tm \<Longrightarrow> reset tm a ms from_now now = Inr (b, tm', f) \<Longrightarrow> tm_reachable tm'"
| next_timer: "tm_reachable tm \<Longrightarrow> tm_reachable (snd (GetNextTimer tm now))"
| expire: "tm_reachable tm \<Longrightarrow> tm_heap tm now_addr = None \<Longrightarrow> \<not> fst (DetectClockRollover tm now) \<Longrightarrow>
    ListExpiredCb tm now_addr now cbs = (tm', cbs') \<Longrightarrow> tm_reachable tm'"

lemma tm_reachable_ok: "tm_reachable tm \<Longrightarrow> tm_ok tm"
proof (induction rule: tm_reachable.induct)
  case (cancel tm a b tm')
  then show ?case using Cancel_cases [of tm a] by (cases "tm_heap tm a") (auto simp: Cancel_def)
next
  case (refresh tm a now b tm')
  then show ?case using Refresh_cases [of tm a _ now] by (cases "tm_heap tm a") (auto simp: Refresh_def)
next
  case (reset tm a ms from_now now b tm' f)
  then show ?case using reset_cases [of tm a _ ms from_now now] by (cases "tm_heap tm a") (auto simp: reset_def)
next
  case (next_timer tm now)
  then show ?case by (simp add: GetNextTimer_def Let_def tm_ok_def)
next
  case (expire tm now_addr now cbs tm' cbs')
  then show ?case using ListExpiredCb_ok [of tm now_addr now cbs] by auto
qed (auto intro: TimerManager_ok AddTimer_ok)

section \<open>Properties\<close>

text \<open>
  In every reachable state the set is sorted by deadline and a timer is in it exactly when its
  callback is set; so \<open>Cancel\<close> of any allocated timer never erases \<open>end()\<close>, reports whether the timer
  was pending, and leaves every other timer alone.
\<close>

theorem cancel_safe:
  assumes "tm_reachable tm" "tm_heap tm a = Some t"
  shows "\<exists>tm'. Cancel tm a = Inr (tmr_cb t \<noteq> None, tm') \<and> tm_ok tm' \<and>
    set (tm_timers tm') = set (tm_timers tm) - {a} \<and> tm_heap tm' = (tm_heap tm)(a \<mapsto> t\<lparr>tmr_cb := None\<rparr>) \<and>
    Cancel tm' a = Inr (False, tm')"
proof -
  obtain tm' where tm': "Cancel tm a = Inr (tmr_cb t \<noteq> None, tm')" "tm_ok tm'"
      "set (tm_timers tm') = set (tm_timers tm) - {a}" "tm_heap tm' = (tm_heap tm)(a \<mapsto> t\<lparr>tmr_cb := None\<rparr>)"
    using Cancel_cases [OF tm_reachable_ok [OF assms(1)] assms(2)] by blast
  then have "Cancel tm' a = Inr (False, tm')" by (simp add: Cancel_def)
  with tm' show ?thesis by blast
qed

definition one_timer :: "nat timer_manager" where
  "one_timer = fst (AddTimer (TimerManager 100) 1 100 50 (Some 7) False)"

lemma one_timer_eq:
  "one_timer = \<lparr>tm_heap = [1 \<mapsto> \<lparr>tmr_recurring = False, tmr_ms = 50, tmr_next = 150, tmr_cb = Some 7\<rparr>],
     tm_timers = [1], tm_tickled = True, tm_previous_use_time = 100\<rparr>"
  by (simp add: one_timer_def AddTimer_def AddTimer_locked_def TimerManager_def Timer_def Let_def
    set_find_def lower_bound_def timer_less_iff)

lemma one_timer_reachable: "tm_reachable one_timer"
  unfolding one_timer_def by (rule add [OF construct]) (simp_all add: TimerManager_def)

theorem cancel_safe_witness:
  "\<exists>tm'. Cancel one_timer 1 = Inr (True, tm') \<and> tm_timers tm' = []"
  using cancel_safe [OF one_timer_reachable, of 1] by (simp add: one_timer_eq) auto

text \<open>
  (C3) Expiry delivers exactly the callbacks of the timers whose deadline is not after the current time,
  each once and in the order of their deadlines; a recurring timer among them is rearmed for one
  period from now, a one-shot timer loses its callback, and every other timer is untouched. The
  clock has not been set back.
\<close>

theorem expiry_exact:
  assumes "tm_ok tm" "tm_heap tm now_addr = None" "\<not> fst (DetectClockRollover tm now)"
    "due = filter (\<lambda>b. deadline (tm_heap tm) b \<le> now) (tm_timers tm)"
  shows "\<exists>tm'. ListExpiredCb tm now_addr now cbs = (tm', cbs @ map (\<lambda>b. tmr_cb (the (tm_heap tm b))) due) \<and>
    tm_ok tm' \<and>
    tm_heap tm' = (\<lambda>b. if b \<in> set due then map_option (fired now) (tm_heap tm b) else tm_heap tm b) \<and>
    set (tm_timers tm') = {b \<in> set (tm_timers tm). b \<in> set due \<longrightarrow> tmr_recurring (the (tm_heap tm b))}"
  using ListExpiredCb_ok [OF assms(1-3)] unfolding assms(4) by simp

theorem expiry_exact_witness:
  "\<exists>tm'. ListExpiredCb one_timer 2 150 [] = (tm', [Some 7]) \<and> set (tm_timers tm') = {}"
  using expiry_exact [OF tm_reachable_ok [OF one_timer_reachable], of 2 150 "[1]" "[]"]
  by (auto simp: one_timer_eq deadline_def DetectClockRollover_def)

text \<open>
  The waiting time \<open>GetNextTimer\<close> reports is right: all ones without timers, zero exactly when a
  timer is due, and otherwise the least time after which one is: at \<open>now + d\<close> a timer is due
  and none is due before.
\<close>

theorem next_timer_exact:
  assumes "tm_ok tm" "GetNextTimer tm now = (d, tm')"
  shows "(tm_timers tm = [] \<longrightarrow> d = - 1) \<and>
    (tm_timers tm \<noteq> [] \<longrightarrow>
      (d = 0 \<longleftrightarrow> (\<exists>a \<in> set (tm_timers tm). deadline (tm_heap tm) a \<le> now)) \<and>
      (d \<noteq> 0 \<longrightarrow> (\<exists>a \<in> set (tm_timers tm). deadline (tm_heap tm) a = now + d) \<and>
        (\<forall>a \<in> set (tm_timers tm). unat now + unat d \<le> unat (deadline (tm_heap tm) a))))"
proof (cases "tm_timers tm")
  case Nil
  then show ?thesis using assms(2) by (auto simp: GetNextTimer_def Let_def)
next
  case (Cons a as)
  let ?n = "deadline (tm_heap tm)"
  have min: "?n a \<le> ?n b" if "b \<in> set (tm_timers tm)" for b
    using tm_okD(1) [OF assms(1)] that Cons by (auto simp: timer_less_iff)
  have d: "d = (if now \<ge> ?n a then 0 else ?n a - now)"
    using assms(2) Cons by (auto simp: GetNextTimer_def Let_def)
  show ?thesis
  proof (cases "now \<ge> ?n a")
    case True
    then show ?thesis using Cons d by auto
  next
    case False
    then have sum: "unat now + unat d = unat (?n a)" "d \<noteq> 0"
      using d by (auto simp: unat_sub word_le_nat_alt word_less_nat_alt)
    moreover have "?n a = now + d" using False d by simp
    moreover have "\<not> ?n b \<le> now" if "b \<in> set (tm_timers tm)" for b
      using min [OF that] False by simp
    ultimately show ?thesis using Cons min by (auto simp: word_le_nat_alt)
  qed
qed

theorem next_timer_exact_witness: "fst (GetNextTimer one_timer 120) = 30"
  using next_timer_exact [OF tm_reachable_ok [OF one_timer_reachable], of 120]
  by (simp add: one_timer_eq GetNextTimer_def deadline_def)

text \<open>
  A new timer wakes the waiting thread (\<open>OnTimerInsertedAtFront\<close>) exactly when it becomes the earliest
  one and no wake-up is already outstanding since the last \<open>GetNextTimer\<close>.
\<close>

theorem front_notified:
  assumes "tm_ok tm" "tm_heap tm a = None" "cb \<noteq> None"
    "AddTimer tm a now ms cb recurring = (tm', front)"
  shows "(front \<longleftrightarrow> \<not> tm_tickled tm \<and> (\<forall>b \<in> set (tm_timers tm).
      now + ms < deadline (tm_heap tm) b \<or> now + ms = deadline (tm_heap tm) b \<and> a < b)) \<and>
    tm_tickled tm' = (tm_tickled tm \<or> front) \<and> set (tm_timers tm') = insert a (set (tm_timers tm)) \<and> tm_ok tm'"
proof -
  have na: "a \<notin> set (tm_timers tm)" using tm_okD(2) [OF assms(1)] assms(2) by auto
  let ?tm = "tm\<lparr>tm_heap := (tm_heap tm)(a \<mapsto> Timer now ms cb recurring)\<rparr>"
  have "sorted_wrt (timer_less (deadline (tm_heap ?tm))) (tm_timers ?tm)"
    using tm_okD(1) [OF assms(1)] na by simp
  from AddTimer_locked_eq [OF this, of a] na assms(4)
  have e: "front \<longleftrightarrow> (\<forall>b \<in> set (tm_timers tm). timer_less (deadline (tm_heap ?tm)) a b) \<and> \<not> tm_tickled tm"
    "tm_tickled tm' = (tm_tickled tm \<or> front)" "set (tm_timers tm') = insert a (set (tm_timers tm))"
    by (auto simp: AddTimer_def Let_def)
  have "(\<forall>b \<in> set (tm_timers tm). timer_less (deadline (tm_heap ?tm)) a b) \<longleftrightarrow> (\<forall>b \<in> set (tm_timers tm).
      now + ms < deadline (tm_heap tm) b \<or> now + ms = deadline (tm_heap tm) b \<and> a < b)"
    using na by (intro ball_cong refl) (auto simp: timer_less_iff Timer_def)
  with e AddTimer_ok [OF assms(1-3), of now ms recurring] assms(4) show ?thesis by auto
qed

theorem front_notified_witness: "snd (AddTimer one_timer 2 100 10 (Some 8) True) = False"
  using front_notified [OF tm_reachable_ok [OF one_timer_reachable], of 2 "Some 8" 100 10 True]
  by (cases "AddTimer one_timer 2 100 10 (Some 8) True") (auto simp: one_timer_eq)

text \<open>
  Clock rollover: from the first hour on, a rollover is reported exactly when the clock went back by
  more than an hour; but while the previous time is below one hour the subtraction wraps, and any
  step back, even of one millisecond, counts as one.
\<close>

theorem rollover_threshold:
  "fst (DetectClockRollover tm now) \<longleftrightarrow>
    (if 3600000 \<le> unat (tm_previous_use_time tm)
     then unat now + 3600000 < unat (tm_previous_use_time tm)
     else now < tm_previous_use_time tm)"
proof -
  let ?p = "tm_previous_use_time tm"
  have p: "unat ?p < 2 ^ 64" using unsigned_less [of ?p] by simp
  show ?thesis
  proof (cases "3600000 \<le> unat ?p")
    case True
    then have "unat (?p - 3600000) = unat ?p - 3600000"
      by (subst unat_sub) (simp_all add: word_le_nat_alt)
    then show ?thesis using True by (auto simp: DetectClockRollover_def word_less_nat_alt)
  next
    case False
    then have "unat (?p - 3600000) = 2 ^ 64 + unat ?p - 3600000"
      using unat_sub_if' [of ?p 3600000] by (simp add: word_le_nat_alt)
    then show ?thesis using False p by (auto simp: DetectClockRollover_def word_less_nat_alt)
  qed
qed

end
