(* ===== verification/IO_Manager.thy ===== *)
theory IO_Manager
  imports Scheduler Timer
begin

text \<open>
  The I/O scheduler (\<open>net/iomanager.h\<close>, \<open>net/iomanager.cc\<close>): one context per file descriptor with the
  callbacks registered for reading and writing, their count, the treatment of what \<open>epoll_wait\<close> reports,
  and one round of the idle fiber. \<open>epoll_ctl\<close> is the kernel's: its return value is an argument,
  a function of the operation, the descriptor and the event mask. Scheduling goes to the
  scheduler recorded in the event context, named by a number; an operation returns the tasks it
  schedules. An operation is what the two locks make atomic.
\<close>

section \<open>Data\<close>

definition NONE :: u32 where "NONE = 0x0"
definition READ :: u32 where "READ = 0x1"
definition WRITE :: u32 where "WRITE = 0x4"

definition EPOLLIN :: u32 where "EPOLLIN = 0x1"
definition EPOLLOUT :: u32 where "EPOLLOUT = 0x4"
definition EPOLLERR :: u32 where "EPOLLERR = 0x8"
definition EPOLLHUP :: u32 where "EPOLLHUP = 0x10"
definition EPOLLET :: u32 where "EPOLLET = 0x80000000"

datatype epoll_op = EPOLL_CTL_ADD | EPOLL_CTL_MOD | EPOLL_CTL_DEL

type_synonym epoll_ctl = "epoll_op \<Rightarrow> int \<Rightarrow> u32 \<Rightarrow> int"

record 'cb event_context =
  ec_scheduler :: "nat option"
  ec_fiber :: "nat option"
  ec_cb :: "'cb option"

record 'cb fd_context =
  fc_read :: "'cb event_context"
  fc_write :: "'cb event_context"
  fc_fd :: nat
  fc_events :: u32

record 'cb iomanager =
  io_pending :: nat
  io_contexts :: "'cb fd_context list"

type_synonym 'cb wakeup = "nat \<times> 'cb schedule_task"

definition ResetEventContext :: "'cb event_context" where
  "ResetEventContext = \<lparr>ec_scheduler = None, ec_fiber = None, ec_cb = None\<rparr>"

definition FdContext :: "nat \<Rightarrow> 'cb fd_context" where
  "FdContext i = \<lparr>fc_read = ResetEventContext, fc_write = ResetEventContext, fc_fd = i, fc_events = NONE\<rparr>"

section \<open>Event contexts\<close>

definition GetEventContext :: "'cb fd_context \<Rightarrow> u32 \<Rightarrow> 'cb event_context result" where
  "GetEventContext fc event =
     (if event = READ then Inr (fc_read fc)
      else if event = WRITE then Inr (fc_write fc)
      else Inl Assertion_Failed)"

text \<open>Assignment through the reference \<open>GetEventContext\<close> returns.\<close>

definition put_event_context :: "'cb fd_context \<Rightarrow> u32 \<Rightarrow> 'cb event_context \<Rightarrow> 'cb fd_context" where
  "put_event_context fc event ctx =
     (if event = READ then fc\<lparr>fc_read := ctx\<rparr> else fc\<lparr>fc_write := ctx\<rparr>)"

definition TriggerEvent :: "'cb fd_context \<Rightarrow> u32 \<Rightarrow> ('cb fd_context \<times> 'cb wakeup) result" where
  "TriggerEvent fc event =
     rbind (guard (fc_events fc AND event \<noteq> 0) Assertion_Failed) (\<lambda>_.
     let fc1 = fc\<lparr>fc_events := fc_events fc AND NOT event\<rparr> in
     rbind (GetEventContext fc1 event) (\<lambda>ctx.
     case ec_scheduler ctx of
       None \<Rightarrow> Inl Null_Deref
     | Some s \<Rightarrow>
         let task = (case ec_cb ctx of
                       Some cb \<Rightarrow> ScheduleTask None (Some cb) (- 1)
                     | None \<Rightarrow> ScheduleTask (ec_fiber ctx) None (- 1))
         in Inr (put_event_context fc1 event ResetEventContext, (s, task))))"

section \<open>Operations\<close>

definition ContextResize :: "'cb iomanager \<Rightarrow> nat \<Rightarrow> 'cb iomanager" where
  "ContextResize io sz =
     (let old = take sz (io_contexts io) in
      io\<lparr>io_contexts := old @ map FdContext [length old..<sz]\<rparr>)"

definition IOManager :: "'cb iomanager" where
  "IOManager = ContextResize \<lparr>io_pending = 0, io_contexts = []\<rparr> 32"

text \<open>
  The descriptor's context, looked up under the read lock; where the table is too short it is resized
  under the write lock, without looking again. \<open>fd * 1.5\<close> is truncated.
\<close>

definition needs_resize :: "'cb iomanager \<Rightarrow> int \<Rightarrow> bool" where
  "needs_resize io fd \<longleftrightarrow> \<not> int (length (io_contexts io)) > fd"

definition resize_for :: "'cb iomanager \<Rightarrow> int \<Rightarrow> 'cb iomanager" where
  "resize_for io fd = ContextResize io (nat (fd * 3 div 2))"

definition context_at :: "'cb iomanager \<Rightarrow> int \<Rightarrow> 'cb fd_context result" where
  "context_at io fd =
     (if 0 \<le> fd \<and> nat fd < length (io_contexts io) then Inr (io_contexts io ! nat fd) else Inl Out_Of_Bounds)"

definition put_context :: "'cb iomanager \<Rightarrow> int \<Rightarrow> 'cb fd_context \<Rightarrow> 'cb iomanager" where
  "put_context io fd fc = io\<lparr>io_contexts := (io_contexts io)[nat fd := fc]\<rparr>"

text \<open>
  The rest of \<open>AddEvent\<close>, on the context found. \<open>this_scheduler\<close> is \<open>Scheduler::GetThis()\<close> and \<open>this_fiber\<close>
  \<open>Fiber::GetThis()\<close> with its state.
\<close>

definition AddEvent_context :: "epoll_ctl \<Rightarrow> nat option \<Rightarrow> nat \<times> state \<Rightarrow> 'cb iomanager \<Rightarrow> int \<Rightarrow> u32 \<Rightarrow>
    'cb option \<Rightarrow> (int \<times> 'cb iomanager) result" where
  "AddEvent_context epoll_ctl this_scheduler this_fiber io fd event cb =
     rbind (context_at io fd) (\<lambda>fc.
     rbind (guard (fc_events fc AND event = 0) Assertion_Failed) (\<lambda>_.
     let op = (if fc_events fc \<noteq> 0 then EPOLL_CTL_MOD else EPOLL_CTL_ADD);
         rt = epoll_ctl op fd (EPOLLET OR fc_events fc OR event) in
     if rt \<noteq> 0 then Inr (- 1, io)
     else
       let io1 = io\<lparr>io_pending := Suc (io_pending io)\<rparr>;
           fc1 = fc\<lparr>fc_events := fc_events fc OR event\<rparr> in
       rbind (GetEventContext fc1 event) (\<lambda>ctx.
       rbind (guard (ec_scheduler ctx = None \<and> ec_fiber ctx = None \<and> ec_cb ctx = None) Assertion_Failed) (\<lambda>_.
       case cb of
         Some c \<Rightarrow> Inr (0, put_context io1 fd (put_event_context fc1 event
                     \<lparr>ec_scheduler = this_scheduler, ec_fiber = None, ec_cb = Some c\<rparr>))
       | None \<Rightarrow>
           rbind (guard (snd this_fiber = RUNNING) Assertion_Failed) (\<lambda>_.
           Inr (0, put_context io1 fd (put_event_context fc1 event
                     \<lparr>ec_scheduler = this_scheduler, ec_fiber = Some (fst this_fiber), ec_cb = None\<rparr>)))))))"

definition AddEvent :: "epoll_ctl \<Rightarrow> nat option \<Rightarrow> nat \<times> state \<Rightarrow> 'cb iomanager \<Rightarrow> int \<Rightarrow> u32 \<Rightarrow>
    'cb option \<Rightarrow> (int \<times> 'cb iomanager) result" where
  "AddEvent epoll_ctl this_scheduler this_fiber io fd event cb =
     AddEvent_context epoll_ctl this_scheduler this_fiber
       (if needs_resize io fd then resize_for io fd else io) fd event cb"

definition DelEvent :: "epoll_ctl \<Rightarrow> 'cb iomanager \<Rightarrow> int \<Rightarrow> u32 \<Rightarrow> (bool \<times> 'cb iomanager) result" where
  "DelEvent epoll_ctl io fd event =
     (if int (length (io_contexts io)) \<le> fd then Inr (False, io)
      else rbind (context_at io fd) (\<lambda>fc.
        if fc_events fc AND event = 0 then Inr (False, io)
        else
          let new_events = fc_events fc AND NOT event;
              op = (if new_events \<noteq> 0 then EPOLL_CTL_MOD else EPOLL_CTL_DEL);
              rt = epoll_ctl op fd (EPOLLET OR new_events) in
          if rt \<noteq> 0 then Inr (False, io)
          else rbind (GetEventContext fc event) (\<lambda>_.
            Inr (True, put_context (io\<lparr>io_pending := sub64 (io_pending io) 1\<rparr>) fd
              (put_event_context (fc\<lparr>fc_events := new_events\<rparr>) event ResetEventContext)))))"

definition CancelEvent ::
  "epoll_ctl \<Rightarrow> 'cb iomanager \<Rightarrow> int \<Rightarrow> u32 \<Rightarrow> (bool \<times> 'cb iomanager \<times> 'cb wakeup list) result" where
  "CancelEvent epoll_ctl io fd event =
     (if int (length (io_contexts io)) \<le> fd then Inr (False, io, [])
      else rbind (context_at io fd) (\<lambda>fc.
        if fc_events fc AND event = 0 then Inr (False, io, [])
        else
          let new_events = fc_events fc AND NOT event;
              op = (if new_events \<noteq> 0 then EPOLL_CTL_MOD else EPOLL_CTL_DEL);
              rt = epoll_ctl op fd (EPOLLET OR new_events) in
          if rt \<noteq> 0 then Inr (False, io, [])
          else rbind (TriggerEvent fc event) (\<lambda>(fc', w).
            Inr (True, put_context (io\<lparr>io_pending := sub64 (io_pending io) 1\<rparr>) fd fc', [w]))))"

text \<open>\<open>if (fd_ctx->events & event) { TriggerEvent(event); --pending_event_count_; }\<close>\<close>

definition trigger_if :: "bool \<Rightarrow> u32 \<Rightarrow> 'cb fd_context \<times> nat \<times> 'cb wakeup list \<Rightarrow>
    ('cb fd_context \<times> nat \<times> 'cb wakeup list) result" where
  "trigger_if b event = (\<lambda>(fc, pending, ws).
     if b then rbind (TriggerEvent fc event) (\<lambda>(fc', w). Inr (fc', sub64 pending 1, ws @ [w]))
     else Inr (fc, pending, ws))"

definition CancelAll ::
  "epoll_ctl \<Rightarrow> 'cb iomanager \<Rightarrow> int \<Rightarrow> (bool \<times> 'cb iomanager \<times> 'cb wakeup list) result" where
  "CancelAll epoll_ctl io fd =
     (if int (length (io_contexts io)) \<le> fd then Inr (False, io, [])
      else rbind (context_at io fd) (\<lambda>fc.
        if fc_events fc = 0 then Inr (False, io, [])
        else if epoll_ctl EPOLL_CTL_DEL fd 0 \<noteq> 0 then Inr (False, io, [])
        else
          rbind (trigger_if (fc_events fc AND READ \<noteq> 0) READ (fc, io_pending io, [])) (\<lambda>(fc, pending, ws).
          rbind (trigger_if (fc_events fc AND WRITE \<noteq> 0) WRITE (fc, pending, ws)) (\<lambda>(fc, pending, ws).
          rbind (guard (fc_events fc = 0) Assertion_Failed) (\<lambda>_.
          Inr (True, put_context (io\<lparr>io_pending := pending\<rparr>) fd fc, ws))))))"

section \<open>Idle\<close>

text \<open>The treatment of one reported event for the context of descriptor \<open>fd\<close>.\<close>

definition real_events :: "u32 \<Rightarrow> u32 \<Rightarrow> u32" where
  "real_events registered reported =
     (let ev = (if reported AND (EPOLLERR OR EPOLLHUP) \<noteq> 0
                then reported OR ((EPOLLIN OR EPOLLOUT) AND registered) else reported)
      in (if ev AND EPOLLIN \<noteq> 0 then READ else 0) OR (if ev AND EPOLLOUT \<noteq> 0 then WRITE else 0))"

text \<open>The two triggers at the end of the treatment: reads first.\<close>

definition trigger_mask :: "u32 \<Rightarrow> 'cb fd_context \<Rightarrow> nat \<Rightarrow> ('cb fd_context \<times> nat \<times> 'cb wakeup list) result" where
  "trigger_mask real fc pending =
     rbind (trigger_if (real AND READ \<noteq> 0) READ (fc, pending, [])) (\<lambda>(fc, pending, ws).
     trigger_if (real AND WRITE \<noteq> 0) WRITE (fc, pending, ws))"

definition handle_event ::
  "epoll_ctl \<Rightarrow> 'cb iomanager \<Rightarrow> int \<Rightarrow> u32 \<Rightarrow> ('cb iomanager \<times> 'cb wakeup list) result" where
  "handle_event epoll_ctl io fd reported =
     rbind (context_at io fd) (\<lambda>fc.
     let real = real_events (fc_events fc) reported in
     if fc_events fc AND real = NONE then Inr (io, [])
     else
       let left = fc_events fc AND NOT real;
           op = (if left \<noteq> 0 then EPOLL_CTL_MOD else EPOLL_CTL_DEL) in
       if epoll_ctl op (int (fc_fd fc)) (EPOLLET OR left) \<noteq> 0 then Inr (io, [])
       else
         rbind (trigger_mask real fc (io_pending io)) (\<lambda>(fc, pending, ws).
         Inr (put_context (io\<lparr>io_pending := pending\<rparr>) fd fc, ws)))"

text \<open>
  What \<open>epoll_wait\<close> reports: the tickle pipe, whose bytes are read and dropped, or a descriptor's context
  with an event mask.
\<close>

datatype reported = Tickle_Pipe | Fd_Event int u32

fun handle_all :: "epoll_ctl \<Rightarrow> 'cb iomanager \<Rightarrow> reported list \<Rightarrow> ('cb iomanager \<times> 'cb wakeup list) result" where
  "handle_all epoll_ctl io [] = Inr (io, [])"
| "handle_all epoll_ctl io (Tickle_Pipe # es) = handle_all epoll_ctl io es"
| "handle_all epoll_ctl io (Fd_Event fd ev # es) =
     rbind (handle_event epoll_ctl io fd ev) (\<lambda>(io', ws).
     rbind (handle_all epoll_ctl io' es) (\<lambda>(io'', ws'). Inr (io'', ws @ ws')))"

text \<open>The timeout passed to \<open>epoll_wait\<close>: \<open>(int)next_timeout\<close> truncates to 32 bits, signed.\<close>

definition clamp_timeout :: "u64 \<Rightarrow> u64" where
  "clamp_timeout next_timeout =
     (if next_timeout \<noteq> - 1 then of_int (min (sint (ucast next_timeout :: u32)) 5000) else 5000)"

definition epoll_timeout :: "u64 \<Rightarrow> int" where
  "epoll_timeout next_timeout = sint (ucast (clamp_timeout next_timeout) :: u32)"

definition io_Stopping :: "'cb timer_manager \<Rightarrow> u64 \<Rightarrow> 'cb iomanager \<Rightarrow> 'cb scheduler \<Rightarrow> bool \<times> u64 \<times> 'cb timer_manager" where
  "io_Stopping tm now io sc =
     (let (timeout, tm') = GetNextTimer tm now in
      (timeout = - 1 \<and> io_pending io = 0 \<and> Stopping sc, timeout, tm'))"

text \<open>\<open>Tickle\<close> writes one byte if a worker idles; \<open>written\<close> is the return value of \<open>write\<close>.\<close>

definition io_Tickle :: "'cb scheduler \<Rightarrow> int \<Rightarrow> bool result" where
  "io_Tickle sc written =
     (if \<not> HasIdleThreads sc then Inr False
      else rbind (guard (written = 1) Assertion_Failed) (\<lambda>_. Inr True))"

text \<open>
  One round of \<open>Idle\<close>, from the test whether to stop to the yield: \<open>None\<close> when it leaves the loop; otherwise
  the timeout given to \<open>epoll_wait\<close>, the new state, the callbacks of expired timers it schedules on
  its own scheduler, and the wake-ups of the reported events. The clock is read twice.
\<close>

definition Idle_round :: "epoll_ctl \<Rightarrow> 'cb scheduler \<Rightarrow> 'cb timer_manager \<Rightarrow> 'cb iomanager \<Rightarrow> u64 \<Rightarrow> nat \<Rightarrow> u64 \<Rightarrow>
    reported list \<Rightarrow> (int \<times> 'cb timer_manager \<times> 'cb iomanager \<times> 'cb scheduler \<times> 'cb wakeup list) option result" where
  "Idle_round epoll_ctl sc tm io now1 now_addr now2 events =
     (let (stop, next_timeout, tm1) = io_Stopping tm now1 io sc in
      if stop then Inr None
      else
        let (tm2, cbs) = ListExpiredCb tm1 now_addr now2 [];
            sc1 = fold (\<lambda>cb sc. snd (Schedule sc (ScheduleTask None cb (- 1)))) cbs sc in
        rbind (handle_all epoll_ctl io events) (\<lambda>(io', ws).
        Inr (Some (epoll_timeout next_timeout, tm2, io', sc1, ws))))"

section \<open>The invariant\<close>

lemmas event_defs = NONE_def READ_def WRITE_def EPOLLIN_def EPOLLOUT_def EPOLLERR_def EPOLLHUP_def

lemma READ_WRITE [simp]: "READ \<noteq> WRITE" "WRITE \<noteq> READ"
  by (simp_all add: event_defs)

definition ctx_ok :: "bool \<Rightarrow> 'cb event_context \<Rightarrow> bool" where
  "ctx_ok registered ctx \<longleftrightarrow>
     (if registered then ec_scheduler ctx \<noteq> None \<and> (ec_cb ctx \<noteq> None \<or> ec_fiber ctx \<noteq> None)
      else ctx = ResetEventContext)"

text \<open>
  The event mask holds only the two events, and an event context is filled exactly when its event
  is registered.
\<close>

definition fc_ok :: "'cb fd_context \<Rightarrow> bool" where
  "fc_ok fc \<longleftrightarrow> fc_events fc \<in> {0, 1, 4, 5} \<and>
     ctx_ok (fc_events fc AND READ \<noteq> 0) (fc_read fc) \<and> ctx_ok (fc_events fc AND WRITE \<noteq> 0) (fc_write fc)"

definition event_count :: "'cb fd_context \<Rightarrow> nat" where
  "event_count fc = (if fc_events fc AND READ \<noteq> 0 then 1 else 0) + (if fc_events fc AND WRITE \<noteq> 0 then 1 else 0)"

definition io_ok :: "'cb iomanager \<Rightarrow> bool" where
  "io_ok io \<longleftrightarrow> (\<forall>i < length (io_contexts io). fc_ok (io_contexts io ! i) \<and> fc_fd (io_contexts io ! i) = i) \<and>
     io_pending io = sum_list (map event_count (io_contexts io))"

lemma fc_ok_FdContext [simp]: "fc_ok (FdContext i)" "event_count (FdContext i) = 0" "fc_fd (FdContext i) = i"
  by (simp_all add: fc_ok_def ctx_ok_def FdContext_def event_count_def NONE_def)

lemma sum_list_update_count:
  "i < length xs \<Longrightarrow> sum_list (map f (xs[i := v])) + f (xs ! i) = sum_list (map f xs) + (f v :: nat)"
  by (induction xs arbitrary: i) (auto simp: nth_Cons split: nat.splits)

lemma context_at_ok:
  "io_ok io \<Longrightarrow> context_at io fd = Inr fc \<Longrightarrow>
   0 \<le> fd \<and> nat fd < length (io_contexts io) \<and> fc = io_contexts io ! nat fd \<and> fc_ok fc \<and> fc_fd fc = nat fd"
  by (auto simp: context_at_def io_ok_def split: if_splits)

text \<open>Replacing one context, with the count adjusted.\<close>

lemma io_ok_put:
  assumes "io_ok io" "context_at io fd = Inr fc" "fc_ok fc'" "fc_fd fc' = fc_fd fc"
    "p + event_count fc = io_pending io + event_count fc'"
  shows "io_ok (put_context (io\<lparr>io_pending := p\<rparr>) fd fc')"
proof -
  note c = context_at_ok [OF assms(1,2)]
  have "sum_list (map event_count ((io_contexts io)[nat fd := fc'])) + event_count fc = io_pending io + event_count fc'"
    using sum_list_update_count [of "nat fd" "io_contexts io" event_count fc'] c assms(1) by (simp add: io_ok_def)
  then show ?thesis
    using assms c by (auto simp: io_ok_def put_context_def nth_list_update)
qed

lemma io_pending_le: "io_ok io \<Longrightarrow> context_at io fd = Inr fc \<Longrightarrow> event_count fc \<le> io_pending io"
  using context_at_ok [of io fd fc] by (auto simp: io_ok_def intro!: member_le_sum_list)

definition wakeup_of :: "'cb event_context \<Rightarrow> 'cb wakeup" where
  "wakeup_of ctx = (the (ec_scheduler ctx),
     (case ec_cb ctx of Some cb \<Rightarrow> ScheduleTask None (Some cb) (- 1) | None \<Rightarrow> ScheduleTask (ec_fiber ctx) None (- 1)))"

definition ctx_of :: "'cb fd_context \<Rightarrow> u32 \<Rightarrow> 'cb event_context" where
  "ctx_of fc event = (if event = READ then fc_read fc else fc_write fc)"

definition is_event :: "u32 \<Rightarrow> bool" where
  "is_event event \<longleftrightarrow> event = READ \<or> event = WRITE"

lemma wakeup_task_set: "ctx_ok True ctx \<Longrightarrow> task_set (snd (wakeup_of ctx))"
  by (auto simp: ctx_ok_def wakeup_of_def task_set_def ScheduleTask_def split: option.splits)

lemma TriggerEvent_ok:
  assumes "fc_ok fc" "is_event ev" "fc_events fc AND ev \<noteq> 0"
  shows "\<exists>fc'. TriggerEvent fc ev = Inr (fc', wakeup_of (ctx_of fc ev)) \<and> fc_ok fc' \<and> fc_fd fc' = fc_fd fc \<and>
    fc_events fc' = fc_events fc AND NOT ev \<and> event_count fc = Suc (event_count fc') \<and>
    task_set (snd (wakeup_of (ctx_of fc ev))) \<and> fc' = put_event_context (fc\<lparr>fc_events := fc_events fc AND NOT ev\<rparr>) ev ResetEventContext"
proof -
  have t: "task_set (snd (wakeup_of (ctx_of fc ev)))"
    using assms by (intro wakeup_task_set) (auto simp: fc_ok_def ctx_of_def is_event_def)
  from assms have "fc_events fc = 1 \<or> fc_events fc = 4 \<or> fc_events fc = 5" by (auto simp: fc_ok_def)
  then show ?thesis
    using assms t
    by (elim disjE) (auto simp: fc_ok_def ctx_ok_def is_event_def TriggerEvent_def GetEventContext_def
      put_event_context_def wakeup_of_def ctx_of_def event_count_def event_defs split: option.splits)
qed

lemma trigger_if_ok:
  assumes "fc_ok fc" "is_event ev" "b \<longleftrightarrow> fc_events fc AND ev \<noteq> 0" "event_count fc \<le> p"
  shows "\<exists>fc'. trigger_if b ev (fc, p, ws) = Inr (fc', p - (event_count fc - event_count fc'),
      ws @ (if b then [wakeup_of (ctx_of fc ev)] else [])) \<and>
    fc_ok fc' \<and> fc_fd fc' = fc_fd fc \<and> fc_events fc' = fc_events fc AND NOT ev \<and> event_count fc' \<le> event_count fc \<and>
    (\<forall>ev'. is_event ev' \<and> ev' \<noteq> ev \<longrightarrow> ctx_of fc' ev' = ctx_of fc ev')"
proof (cases b)
  case True
  with TriggerEvent_ok [OF assms(1,2)] assms(3) obtain fc' where
    "TriggerEvent fc ev = Inr (fc', wakeup_of (ctx_of fc ev))" "fc_ok fc'" "fc_fd fc' = fc_fd fc"
    "fc_events fc' = fc_events fc AND NOT ev" "event_count fc = Suc (event_count fc')"
    "fc' = put_event_context (fc\<lparr>fc_events := fc_events fc AND NOT ev\<rparr>) ev ResetEventContext" by blast
  with True assms(2,4) show ?thesis
    by (auto simp: trigger_if_def ctx_of_def put_event_context_def is_event_def event_defs)
next
  case False
  moreover have "fc_events fc AND NOT ev = fc_events fc"
    using False assms(1-3) by (auto simp: fc_ok_def is_event_def event_defs)
  ultimately show ?thesis using assms by (auto simp: trigger_if_def)
qed

section \<open>The operations keep the invariant\<close>

lemma ContextResize_grow:
  assumes "io_ok io" "length (io_contexts io) \<le> sz"
  shows "io_ok (ContextResize io sz)" "length (io_contexts (ContextResize io sz)) = sz"
proof -
  let ?xs = "io_contexts io"
  have e: "io_contexts (ContextResize io sz) = ?xs @ map FdContext [length ?xs..<sz]"
    using assms(2) by (simp add: ContextResize_def Let_def)
  then show l: "length (io_contexts (ContextResize io sz)) = sz" using assms(2) by simp
  have "sum_list (map event_count (map FdContext is)) = 0" for "is" by (induction "is") simp_all
  moreover have "fc_ok (io_contexts (ContextResize io sz) ! i) \<and> fc_fd (io_contexts (ContextResize io sz) ! i) = i"
    if "i < sz" for i
    using assms that unfolding e by (cases "i < length ?xs") (auto simp: io_ok_def nth_append)
  ultimately show "io_ok (ContextResize io sz)"
    using assms(1) l unfolding io_ok_def e by (simp add: ContextResize_def Let_def)
qed

text \<open>From the initial table of 32 on, one and a half times a descriptor beyond the table reaches past it.\<close>

lemma resize_for_ok:
  assumes "io_ok io" "32 \<le> length (io_contexts io)" "needs_resize io fd"
  shows "io_ok (resize_for io fd)" "fd < int (length (io_contexts (resize_for io fd)))"
    "32 \<le> length (io_contexts (resize_for io fd))"
proof -
  have fd: "int (length (io_contexts io)) \<le> fd" using assms(3) by (simp add: needs_resize_def)
  then have n: "length (io_contexts io) \<le> nat (fd * 3 div 2)" "fd < fd * 3 div 2" using assms(2) by linarith+
  show "io_ok (resize_for io fd)" using ContextResize_grow(1) [OF assms(1) n(1)] by (simp add: resize_for_def)
  show "fd < int (length (io_contexts (resize_for io fd)))" "32 \<le> length (io_contexts (resize_for io fd))"
    using ContextResize_grow(2) [OF assms(1) n(1)] n assms(2) fd by (simp_all add: resize_for_def)
qed

definition io_wf :: "'cb iomanager \<Rightarrow> bool" where
  "io_wf io \<longleftrightarrow> io_ok io \<and> 32 \<le> length (io_contexts io)"

lemma IOManager_wf: "io_wf (IOManager :: 'cb iomanager)"
proof -
  have "io_ok (\<lparr>io_pending = 0, io_contexts = []\<rparr> :: 'cb iomanager)" by (simp add: io_ok_def)
  from ContextResize_grow [OF this, of 32] show ?thesis by (simp add: io_wf_def IOManager_def)
qed

lemma io_wf_put:
  assumes "io_wf io" "context_at io fd = Inr fc" "fc_ok fc'" "fc_fd fc' = fc_fd fc"
    "p + event_count fc = io_pending io + event_count fc'"
  shows "io_wf (put_context (io\<lparr>io_pending := p\<rparr>) fd fc')"
  using assms io_ok_put [of io fd fc fc' p] by (simp add: io_wf_def put_context_def)

lemma add_fc_ok:
  assumes "fc_ok fc" "is_event ev" "fc_events fc AND ev = 0" "ctx_ok True ctx"
  shows "fc_ok (put_event_context (fc\<lparr>fc_events := fc_events fc OR ev\<rparr>) ev ctx)"
    "event_count (put_event_context (fc\<lparr>fc_events := fc_events fc OR ev\<rparr>) ev ctx) = Suc (event_count fc)"
    "GetEventContext (fc\<lparr>fc_events := fc_events fc OR ev\<rparr>) ev = Inr ResetEventContext"
  using assms by (auto simp: fc_ok_def is_event_def put_event_context_def event_count_def GetEventContext_def
    ctx_ok_def event_defs)

lemma del_fc_ok:
  assumes "fc_ok fc" "is_event ev" "fc_events fc AND ev \<noteq> 0"
  shows "fc_ok (put_event_context (fc\<lparr>fc_events := fc_events fc AND NOT ev\<rparr>) ev ResetEventContext)"
    "event_count fc = Suc (event_count (put_event_context (fc\<lparr>fc_events := fc_events fc AND NOT ev\<rparr>) ev ResetEventContext))"
  using TriggerEvent_ok [OF assms] by auto

text \<open>The context an event fills: the callback given, or else the running fiber.\<close>

definition new_ctx :: "nat \<Rightarrow> nat \<Rightarrow> 'cb option \<Rightarrow> 'cb event_context" where
  "new_ctx sched fiber cb =
     (case cb of Some c \<Rightarrow> \<lparr>ec_scheduler = Some sched, ec_fiber = None, ec_cb = Some c\<rparr>
      | None \<Rightarrow> \<lparr>ec_scheduler = Some sched, ec_fiber = Some fiber, ec_cb = None\<rparr>)"

lemma new_ctx_ok: "ctx_ok True (new_ctx s f cb)"
  by (simp add: ctx_ok_def new_ctx_def split: option.splits)

lemma AddEvent_context_ok:
  assumes "io_wf io" "context_at io fd = Inr fc" "is_event ev" "fc_events fc AND ev = 0"
  shows "AddEvent_context ectl (Some sched) (fiber, RUNNING) io fd ev cb =
    (if ectl (if fc_events fc \<noteq> 0 then EPOLL_CTL_MOD else EPOLL_CTL_ADD) fd (EPOLLET OR fc_events fc OR ev) \<noteq> 0
     then Inr (- 1, io)
     else Inr (0, put_context (io\<lparr>io_pending := Suc (io_pending io)\<rparr>) fd
       (put_event_context (fc\<lparr>fc_events := fc_events fc OR ev\<rparr>) ev (new_ctx sched fiber cb))))"
proof -
  have "fc_ok fc" using assms(1,2) context_at_ok unfolding io_wf_def by blast
  note g = add_fc_ok(3) [OF this assms(3,4) new_ctx_ok]
  show ?thesis
    using assms(2,4) g
    by (auto simp: AddEvent_context_def Let_def ResetEventContext_def new_ctx_def split: option.splits)
qed

lemma AddEvent_wf:
  assumes "io_wf io" "0 \<le> fd" "is_event ev"
    "AddEvent ectl (Some sched) (fiber, RUNNING) io fd ev cb = Inr (rt, io')"
  shows "io_wf io'"
proof -
  define io1 where "io1 = (if needs_resize io fd then resize_for io fd else io)"
  have wf: "io_wf io1" "fd < int (length (io_contexts io1))"
    using assms(1) resize_for_ok [of io fd] by (auto simp: io1_def io_wf_def needs_resize_def)
  then obtain fc where fc: "context_at io1 fd = Inr fc" using assms(2) by (auto simp: context_at_def nat_less_iff)
  have add: "AddEvent_context ectl (Some sched) (fiber, RUNNING) io1 fd ev cb = Inr (rt, io')"
    using assms(4) by (simp add: AddEvent_def io1_def)
  have free: "fc_events fc AND ev = 0" using add fc by (cases "fc_events fc AND ev = 0") (auto simp: AddEvent_context_def)
  have ok: "fc_ok fc" "fc_fd fc = nat fd" using wf(1) fc context_at_ok unfolding io_wf_def by blast+
  note new = add_fc_ok [OF ok(1) assms(3) free new_ctx_ok [of sched fiber cb]]
  have "io_wf (put_context (io1\<lparr>io_pending := Suc (io_pending io1)\<rparr>) fd
      (put_event_context (fc\<lparr>fc_events := fc_events fc OR ev\<rparr>) ev (new_ctx sched fiber cb)))"
    by (rule io_wf_put [OF wf(1) fc new(1)]) (use new(2) in \<open>simp_all add: put_event_context_def\<close>)
  with add AddEvent_context_ok [OF wf(1) fc assms(3) free] wf(1) show ?thesis by (auto split: if_splits)
qed

lemma pending_pos:
  assumes "io_wf io" "context_at io fd = Inr fc" "event_count fc = Suc n"
  shows "Suc 0 \<le> io_pending io"
  using io_pending_le [of io fd fc] assms by (simp add: io_wf_def)

lemma DelEvent_wf:
  assumes "io_wf io" "is_event ev" "DelEvent ectl io fd ev = Inr (b, io')"
  shows "io_wf io'"
proof (cases "b")
  case False
  then show ?thesis using assms(1,3)
    by (auto simp: DelEvent_def Let_def result_simps split: if_splits)
next
  case True
  then obtain fc where fc: "context_at io fd = Inr fc" "fc_events fc AND ev \<noteq> 0"
    "io' = put_context (io\<lparr>io_pending := sub64 (io_pending io) 1\<rparr>) fd
      (put_event_context (fc\<lparr>fc_events := fc_events fc AND NOT ev\<rparr>) ev ResetEventContext)"
    using assms(3) by (auto simp: DelEvent_def Let_def result_simps split: if_splits)
  have ok: "fc_ok fc" using assms(1) fc(1) context_at_ok unfolding io_wf_def by blast
  note d = del_fc_ok [OF ok assms(2) fc(2)]
  from pending_pos [OF assms(1) fc(1) d(2)] show ?thesis
    unfolding fc(3) by (intro io_wf_put [OF assms(1) fc(1) d(1)]) (use d(2) in \<open>auto simp: put_event_context_def\<close>)
qed

lemma CancelEvent_wf:
  assumes "io_wf io" "is_event ev" "CancelEvent ectl io fd ev = Inr (b, io', ws)"
  shows "io_wf io'"
proof (cases "b")
  case False
  then show ?thesis using assms(1,3)
    by (auto simp: CancelEvent_def Let_def result_simps split: if_splits)
next
  case True
  then obtain fc fc' w where fc: "context_at io fd = Inr fc" "fc_events fc AND ev \<noteq> 0" "TriggerEvent fc ev = Inr (fc', w)"
    "io' = put_context (io\<lparr>io_pending := sub64 (io_pending io) 1\<rparr>) fd fc'"
    using assms(3) by (auto simp: CancelEvent_def Let_def result_simps split: if_splits)
  have ok: "fc_ok fc" using assms(1) fc(1) context_at_ok unfolding io_wf_def by blast
  note t = TriggerEvent_ok [OF ok assms(2) fc(2)]
  then have d: "fc_ok fc'" "fc_fd fc' = fc_fd fc" "event_count fc = Suc (event_count fc')" using fc(3) by auto
  from pending_pos [OF assms(1) fc(1) d(3)] show ?thesis
    unfolding fc(4) by (intro io_wf_put [OF assms(1) fc(1) d(1,2)]) (use d(3) in auto)
qed

lemma trigger_mask_ok:
  assumes "fc_ok fc" "real \<in> {0, 1, 4, 5}" "real AND NOT (fc_events fc) = 0" "event_count fc \<le> p"
  shows "\<exists>fc'. trigger_mask real fc p = Inr (fc', p - (event_count fc - event_count fc'),
      (if real AND READ \<noteq> 0 then [wakeup_of (fc_read fc)] else []) @
      (if real AND WRITE \<noteq> 0 then [wakeup_of (fc_write fc)] else [])) \<and>
    fc_ok fc' \<and> fc_fd fc' = fc_fd fc \<and> fc_events fc' = fc_events fc AND NOT real \<and> event_count fc' \<le> event_count fc"
proof -
  have ev: "fc_events fc \<in> {0, 1, 4, 5}" using assms(1) by (simp add: fc_ok_def)
  from assms(2) consider "real = 0" | "real = 1" | "real = 4" | "real = 5" by auto
  then show ?thesis
  proof cases
    case 1
    then show ?thesis using assms by (auto simp: trigger_mask_def trigger_if_def)
  next
    case 2
    then have "fc_events fc AND READ \<noteq> 0" using assms(3) ev by (auto simp: READ_def)
    from TriggerEvent_ok [OF assms(1) _ this] 2 assms(4) show ?thesis
      by (auto simp: is_event_def trigger_mask_def trigger_if_def ctx_of_def READ_def WRITE_def)
  next
    case 3
    then have "fc_events fc AND WRITE \<noteq> 0" using assms(3) ev by (auto simp: WRITE_def)
    from TriggerEvent_ok [OF assms(1) _ this] 3 assms(4) show ?thesis
      by (auto simp: is_event_def trigger_mask_def trigger_if_def ctx_of_def READ_def WRITE_def)
  next
    case 4
    then have e5: "fc_events fc = 5" using assms(3) ev by auto
    then have "fc_events fc AND READ \<noteq> 0" by (simp add: READ_def)
    from TriggerEvent_ok [OF assms(1) _ this] obtain fc1 where 1:
      "TriggerEvent fc READ = Inr (fc1, wakeup_of (fc_read fc))" "fc_ok fc1" "fc_fd fc1 = fc_fd fc"
      "fc_events fc1 = fc_events fc AND NOT READ" "event_count fc = Suc (event_count fc1)" "fc_write fc1 = fc_write fc"
      by (auto simp: is_event_def ctx_of_def put_event_context_def)
    then have "fc_events fc1 AND WRITE \<noteq> 0" using e5 by (simp add: READ_def WRITE_def)
    from TriggerEvent_ok [OF 1(2) _ this] obtain fc2 where 2:
      "TriggerEvent fc1 WRITE = Inr (fc2, wakeup_of (fc_write fc))" "fc_ok fc2" "fc_fd fc2 = fc_fd fc"
      "fc_events fc2 = (fc_events fc AND NOT READ) AND NOT WRITE" "event_count fc1 = Suc (event_count fc2)"
      using 1 by (auto simp: is_event_def ctx_of_def)
    have m: "real AND READ \<noteq> 0" "real AND WRITE \<noteq> 0" using 4 by (simp_all add: READ_def WRITE_def)
    have p: "sub64 (sub64 p 1) 1 = p - (event_count fc - event_count fc2)"
      using 1(5) 2(5) assms(4) by simp
    have "trigger_mask real fc p = Inr (fc2, sub64 (sub64 p 1) 1, [wakeup_of (fc_read fc), wakeup_of (fc_write fc)])"
      using 1(1) 2(1) m by (simp add: trigger_mask_def trigger_if_def)
    with 1 2 4 m e5 show ?thesis unfolding p by (auto simp: READ_def WRITE_def)
  qed
qed

lemma mask_in: "e AND f \<in> {0, 1, 4, 5}" if "e \<in> {0, 1, 4, 5}" "f \<in> {0, 1, 4, 5}" for e f :: u32
  using that by auto

lemma real_events_in: "real_events e r \<in> {0, 1, 4, 5}"
  by (simp add: real_events_def READ_def WRITE_def Let_def)

text \<open>What \<open>handle_event\<close> does when only registered events, or an error, are reported.\<close>

lemma handle_event_ok:
  assumes "io_wf io" "context_at io fd = Inr fc" "real = real_events (fc_events fc) reported"
    "real AND NOT (fc_events fc) = 0"
  shows "\<exists>io' ws. handle_event ectl io fd reported = Inr (io', ws) \<and> io_wf io' \<and>
    (ws = [] \<and> io' = io \<or>
     ws = (if real AND READ \<noteq> 0 then [wakeup_of (fc_read fc)] else []) @
          (if real AND WRITE \<noteq> 0 then [wakeup_of (fc_write fc)] else []) \<and>
     (\<exists>fc'. context_at io' fd = Inr fc' \<and> fc_events fc' = fc_events fc AND NOT real))"
proof -
  have c: "0 \<le> fd" "nat fd < length (io_contexts io)" "fc_ok fc" "fc_fd fc = nat fd" "event_count fc \<le> io_pending io"
    using assms(1,2) context_at_ok [of io fd fc] io_pending_le [of io fd fc] unfolding io_wf_def by auto
  obtain fc' where t: "trigger_mask real fc (io_pending io) = Inr (fc', io_pending io - (event_count fc - event_count fc'),
      (if real AND READ \<noteq> 0 then [wakeup_of (fc_read fc)] else []) @
      (if real AND WRITE \<noteq> 0 then [wakeup_of (fc_write fc)] else []))"
    "fc_ok fc'" "fc_fd fc' = fc_fd fc" "fc_events fc' = fc_events fc AND NOT real" "event_count fc' \<le> event_count fc"
    using trigger_mask_ok [OF c(3) _ assms(4) c(5)] real_events_in unfolding assms(3) by blast
  let ?io = "put_context (io\<lparr>io_pending := io_pending io - (event_count fc - event_count fc')\<rparr>) fd fc'"
  have wf: "io_wf ?io"
    by (rule io_wf_put [OF assms(1,2) t(2,3)]) (use t(5) c(5) in auto)
  have at: "context_at ?io fd = Inr fc'" using c(1,2) by (simp add: context_at_def put_context_def)
  let ?ws = "(if real AND READ \<noteq> 0 then [wakeup_of (fc_read fc)] else []) @
          (if real AND WRITE \<noteq> 0 then [wakeup_of (fc_write fc)] else [])"
  have "handle_event ectl io fd reported = Inr (io, []) \<or> handle_event ectl io fd reported = Inr (?io, ?ws)"
    using t(1) assms(2) unfolding handle_event_def Let_def by (simp flip: assms(3))
  then show ?thesis using wf at t(4) assms(1) by blast
qed

text \<open>Clearing the read bit leaves the write bit, so that \<open>CancelAll\<close> triggers what was registered.\<close>

lemma trigger_read_keeps_write:
  "trigger_if b READ (fc, p, []) = Inr (f1, q, ws) \<Longrightarrow> fc_events f1 AND WRITE = fc_events fc AND WRITE"
  by (auto simp: trigger_if_def TriggerEvent_def GetEventContext_def put_event_context_def Let_def result_simps
    and.assoc split: if_splits option.splits) (simp_all add: READ_def WRITE_def)

lemma cancel_triggers:
  "rbind (trigger_if (fc_events fc AND READ \<noteq> 0) READ (fc, p, [])) (\<lambda>(fc, pending, ws).
     rbind (trigger_if (fc_events fc AND WRITE \<noteq> 0) WRITE (fc, pending, ws)) k) =
   rbind (trigger_mask (fc_events fc) fc p) k"
proof (cases "trigger_if (fc_events fc AND READ \<noteq> 0) READ (fc, p, [])")
  case (Inl e)
  then show ?thesis by (simp add: trigger_mask_def)
next
  case (Inr x)
  obtain f1 q ws where x: "x = (f1, q, ws)" by (cases x)
  with Inr trigger_read_keeps_write [of _ fc p f1 q ws] have "fc_events f1 AND WRITE = fc_events fc AND WRITE" by blast
  with Inr x show ?thesis by (simp add: trigger_mask_def)
qed

lemma CancelAll_ok:
  assumes "io_wf io" "context_at io fd = Inr fc"
  shows "\<exists>io' fc'. io_wf io' \<and> context_at io' fd = Inr fc' \<and> fc_events fc' = 0 \<and> CancelAll ectl io fd =
    (if fc_events fc = 0 \<or> ectl EPOLL_CTL_DEL fd 0 \<noteq> 0 then Inr (False, io, [])
     else Inr (True, io',
       (if fc_events fc AND READ \<noteq> 0 then [wakeup_of (fc_read fc)] else []) @
       (if fc_events fc AND WRITE \<noteq> 0 then [wakeup_of (fc_write fc)] else [])))"
proof -
  have c: "0 \<le> fd" "nat fd < length (io_contexts io)" "fc_ok fc" "fc_fd fc = nat fd" "event_count fc \<le> io_pending io"
    using assms(1,2) context_at_ok [of io fd fc] io_pending_le [of io fd fc] unfolding io_wf_def by auto
  have ev: "fc_events fc \<in> {0, 1, 4, 5}" using c(3) by (simp add: fc_ok_def)
  obtain fc' where t: "trigger_mask (fc_events fc) fc (io_pending io) =
      Inr (fc', io_pending io - (event_count fc - event_count fc'),
      (if fc_events fc AND READ \<noteq> 0 then [wakeup_of (fc_read fc)] else []) @
      (if fc_events fc AND WRITE \<noteq> 0 then [wakeup_of (fc_write fc)] else []))"
    "fc_ok fc'" "fc_fd fc' = fc_fd fc" "fc_events fc' = 0" "event_count fc' \<le> event_count fc"
    using trigger_mask_ok [OF c(3) ev _ c(5)] by auto
  let ?io = "put_context (io\<lparr>io_pending := io_pending io - (event_count fc - event_count fc')\<rparr>) fd fc'"
  have wf: "io_wf ?io" by (rule io_wf_put [OF assms(1,2) t(2,3)]) (use t(5) c(5) in auto)
  have at: "context_at ?io fd = Inr fc'" using c(1,2) by (simp add: context_at_def put_context_def)
  have "CancelAll ectl io fd =
    (if fc_events fc = 0 \<or> ectl EPOLL_CTL_DEL fd 0 \<noteq> 0 then Inr (False, io, [])
     else Inr (True, ?io,
       (if fc_events fc AND READ \<noteq> 0 then [wakeup_of (fc_read fc)] else []) @
       (if fc_events fc AND WRITE \<noteq> 0 then [wakeup_of (fc_write fc)] else [])))"
    using assms(2) c(1,2) t(1,4) unfolding CancelAll_def by (auto simp: cancel_triggers)
  with wf at t(4) show ?thesis by blast
qed

section \<open>Reachable states\<close>

text \<open>
  Any order of registrations (from a thread of a scheduler), removals, cancellations and reports of the
  kernel, whatever \<open>epoll_ctl\<close> answers. A report names only registered events, or an error.
\<close>

inductive io_reachable :: "'cb iomanager \<Rightarrow> bool" where
  start: "io_reachable IOManager"
| add: "io_reachable io \<Longrightarrow> 0 \<le> fd \<Longrightarrow> is_event ev \<Longrightarrow>
    AddEvent ectl (Some sched) (fiber, RUNNING) io fd ev cb = Inr (rt, io') \<Longrightarrow> io_reachable io'"
| del: "io_reachable io \<Longrightarrow> is_event ev \<Longrightarrow> DelEvent ectl io fd ev = Inr (b, io') \<Longrightarrow> io_reachable io'"
| cancel: "io_reachable io \<Longrightarrow> is_event ev \<Longrightarrow> CancelEvent ectl io fd ev = Inr (b, io', ws) \<Longrightarrow> io_reachable io'"
| cancel_all: "io_reachable io \<Longrightarrow> CancelAll ectl io fd = Inr (b, io', ws) \<Longrightarrow> io_reachable io'"
| report: "io_reachable io \<Longrightarrow> context_at io fd = Inr fc \<Longrightarrow>
    real_events (fc_events fc) reported AND NOT (fc_events fc) = 0 \<Longrightarrow>
    handle_event ectl io fd reported = Inr (io', ws) \<Longrightarrow> io_reachable io'"

lemma io_reachable_wf: "io_reachable io \<Longrightarrow> io_wf io"
proof (induction rule: io_reachable.induct)
  case (cancel_all io ectl fd b io' ws)
  show ?case
  proof (cases "context_at io fd")
    case (Inl e)
    then show ?thesis using cancel_all by (auto simp: CancelAll_def split: if_splits)
  next
    case (Inr fc)
    from CancelAll_ok [OF cancel_all.IH Inr, of ectl] cancel_all.hyps(2) cancel_all.IH show ?thesis
      by (auto split: if_splits)
  qed
next
  case (report io fd fc reported ectl io' ws)
  from handle_event_ok [OF report.IH report.hyps(2) refl report.hyps(3), of ectl] report.hyps(4) show ?case by auto
qed (auto intro: IOManager_wf AddEvent_wf DelEvent_wf CancelEvent_wf)

text \<open>Integers that fit 32 bits survive the conversions of the timeout.\<close>

lemma int_roundtrip: "- (2 ^ 31) \<le> k \<Longrightarrow> k < 2 ^ 31 \<Longrightarrow> sint (ucast (of_int k :: u64) :: u32) = k"
proof -
  assume k: "- (2 ^ 31) \<le> k" "k < 2 ^ 31"
  have "ucast (of_int k :: u64) = (of_int k :: u32)"
    by (rule bit_word_eqI) (simp add: bit_simps)
  moreover have "sint (of_int k :: u32) = k" using k by (simp add: int_word_sint)
  ultimately show ?thesis by simp
qed

lemma sint_u32: "sint (w :: u32) = (uint w + 2 ^ 31) mod 2 ^ 32 - 2 ^ 31"
  using int_word_sint [of "uint w", where 'a = 32] by simp

lemma sint_small: "uint (w :: u32) < 2 ^ 31 \<Longrightarrow> sint w = uint w"
  by (simp add: sint_u32)

lemma sint_big: "2 ^ 31 \<le> uint (w :: u32) \<Longrightarrow> sint w < 0"
proof -
  assume w: "2 ^ 31 \<le> uint w"
  have "uint w < 2 ^ 32" using unsigned_less [of w] by simp
  then have "(uint w + 2 ^ 31) mod 2 ^ 32 = uint w + 2 ^ 31 - 2 ^ 32"
    using w by (subst mod_pos_geq) simp_all
  with \<open>uint w < 2 ^ 32\<close> show ?thesis by (simp add: sint_u32)
qed

section \<open>Properties\<close>



text \<open>
  A registration followed by a cancellation of the same event wakes up exactly the callback (or the fiber)
  that was registered, once, on the scheduler it was registered from, and restores the
  manager's state; the task is never one \<open>Schedule\<close> would drop.
\<close>

theorem add_then_cancel:
  assumes "io_wf io" "context_at io fd = Inr fc" "is_event ev" "fc_events fc AND ev = 0"
    "\<forall>op e. ectl op fd e = 0"
  shows "\<exists>io1 w. AddEvent ectl (Some sched) (fiber, RUNNING) io fd ev cb = Inr (0, io1) \<and>
    CancelEvent ectl io1 fd ev = Inr (True, io, [w]) \<and> fst w = sched \<and> task_set (snd w) \<and>
    snd w = (case cb of Some c \<Rightarrow> ScheduleTask None (Some c) (- 1) | None \<Rightarrow> ScheduleTask (Some fiber) None (- 1))"
proof -
  have c: "0 \<le> fd" "nat fd < length (io_contexts io)" "fc = io_contexts io ! nat fd" "fc_ok fc"
    using assms(1,2) context_at_ok [of io fd fc] unfolding io_wf_def by auto
  have nr: "\<not> needs_resize io fd" using c by (auto simp: needs_resize_def)
  define fc1 where "fc1 = put_event_context (fc\<lparr>fc_events := fc_events fc OR ev\<rparr>) ev (new_ctx sched fiber cb)"
  define io1 where "io1 = put_context (io\<lparr>io_pending := Suc (io_pending io)\<rparr>) fd fc1"
  have add: "AddEvent ectl (Some sched) (fiber, RUNNING) io fd ev cb = Inr (0, io1)"
    using AddEvent_context_ok [OF assms(1-4)] assms(5) nr by (simp add: AddEvent_def fc1_def io1_def)
  note f1 = add_fc_ok [OF c(4) assms(3,4) new_ctx_ok [of sched fiber cb], folded fc1_def]
  have e1: "fc_events fc1 = fc_events fc OR ev" by (simp add: fc1_def put_event_context_def)
  have reg: "fc_events fc1 AND ev \<noteq> 0" using assms(3) c(4) e1 by (auto simp: fc_ok_def is_event_def event_defs)
  have restored: "put_event_context (fc1\<lparr>fc_events := fc_events fc1 AND NOT ev\<rparr>) ev ResetEventContext = fc"
    using assms(3,4) c(4) unfolding e1 unfolding fc1_def
    by (cases fc) (auto simp: fc_ok_def ctx_ok_def is_event_def put_event_context_def event_defs)
  have at: "context_at io1 fd = Inr fc1" using c by (simp add: context_at_def io1_def put_context_def)
  have w: "ctx_of fc1 ev = new_ctx sched fiber cb" using assms(3) by (auto simp: ctx_of_def fc1_def put_event_context_def is_event_def)
  have "put_context (io1\<lparr>io_pending := sub64 (io_pending io1) 1\<rparr>) fd fc = io"
    using c by (simp add: io1_def put_context_def)
  moreover have "\<not> int (length (io_contexts io1)) \<le> fd" using c by (auto simp: io1_def put_context_def)
  ultimately have "CancelEvent ectl io1 fd ev = Inr (True, io, [wakeup_of (new_ctx sched fiber cb)])"
    using TriggerEvent_ok [OF f1(1) assms(3) reg] at reg assms(5) w unfolding restored by (simp add: CancelEvent_def Let_def)
  moreover have "task_set (snd (wakeup_of (new_ctx sched fiber cb)))" by (rule wakeup_task_set [OF new_ctx_ok])
  ultimately show ?thesis using add by (auto simp: wakeup_of_def new_ctx_def split: option.splits)
qed

lemma IOManager_at: "context_at (IOManager :: 'cb iomanager) 3 = Inr (FdContext 3)"
  by (simp add: context_at_def IOManager_def ContextResize_def)

theorem add_then_cancel_witness:
  "\<exists>io1 w. AddEvent (\<lambda>_ _ _. 0) (Some 1) (9, RUNNING) (IOManager :: nat iomanager) 3 READ (Some 5) = Inr (0, io1) \<and>
    CancelEvent (\<lambda>_ _ _. 0) io1 3 READ = Inr (True, IOManager, [w]) \<and>
    snd w = ScheduleTask None (Some 5) (- 1)"
  using add_then_cancel [OF IOManager_wf IOManager_at, of READ "\<lambda>_ _ _. 0" 1 9 "Some 5"]
  by (force simp: is_event_def FdContext_def NONE_def)

text \<open>
  A report for a descriptor wakes up exactly the callbacks of the reported events, the read first, and
  leaves the others registered; on an error or hang-up all registered events are triggered. Nothing
  happens if no registered event is reported or the kernel refuses the new mask.
\<close>

theorem report_triggers:
  assumes "io_wf io" "context_at io fd = Inr fc" "real = real_events (fc_events fc) reported"
    "real AND NOT (fc_events fc) = 0"
  shows "(\<exists>io' ws. handle_event ectl io fd reported = Inr (io', ws) \<and> io_wf io' \<and>
    (ws = [] \<and> io' = io \<or>
     ws = (if real AND READ \<noteq> 0 then [wakeup_of (fc_read fc)] else []) @
          (if real AND WRITE \<noteq> 0 then [wakeup_of (fc_write fc)] else []) \<and>
     (\<exists>fc'. context_at io' fd = Inr fc' \<and> fc_events fc' = fc_events fc AND NOT real))) \<and>
    (reported AND (EPOLLERR OR EPOLLHUP) \<noteq> 0 \<longrightarrow> real = fc_events fc)"
proof
  have "fc_events fc \<in> {0, 1, 4, 5}" using assms(1,2) context_at_ok [of io fd fc] by (auto simp: io_wf_def fc_ok_def)
  then show "reported AND (EPOLLERR OR EPOLLHUP) \<noteq> 0 \<longrightarrow> real = fc_events fc"
    using assms(4) unfolding assms(3) real_events_def Let_def
    by (auto simp: event_defs bit.conj_disj_distrib2 split: if_splits)
qed (rule handle_event_ok [OF assms])

theorem report_triggers_witness:
  "\<exists>io' ws. handle_event (\<lambda>_ _ _. 0) (IOManager :: nat iomanager) 3 EPOLLHUP = Inr (io', ws)"
  using report_triggers [OF IOManager_wf IOManager_at refl, of EPOLLHUP "\<lambda>_ _ _. 0"]
  by (auto simp: real_events_def FdContext_def event_defs)

text \<open>
  A report that arrives after one of its events was removed (by \<open>DelEvent\<close> in another thread) makes the
  idle fiber fail an assertion: with a registered write event and a report of both, the read event is triggered
  although it is not registered.
\<close>

theorem late_report_fails:
  assumes "context_at io fd = Inr fc" "fc_events fc = WRITE" "reported = EPOLLIN OR EPOLLOUT"
    "\<forall>op e. ectl op (int (fc_fd fc)) e = 0"
  shows "handle_event ectl io fd reported = Inl Assertion_Failed"
  using assms by (simp add: handle_event_def real_events_def trigger_mask_def trigger_if_def TriggerEvent_def
    event_defs Let_def)

theorem late_report_fails_witness:
  "handle_event (\<lambda>_ _ _. 0) (put_context (IOManager :: nat iomanager) 3 ((FdContext 3)\<lparr>fc_events := WRITE\<rparr>)) 3
     (EPOLLIN OR EPOLLOUT) = Inl Assertion_Failed"
  by (rule late_report_fails)
    (auto simp: context_at_def put_context_def IOManager_def ContextResize_def)

text \<open>
  Two threads that both found the table too short race: each resizes to one and a half times its own
  descriptor without looking again, so the later one can shrink the table and drop the other's registered
  context, while its event stays counted.
\<close>

theorem resize_race:
  "needs_resize (IOManager :: nat iomanager) 100 \<and> needs_resize (IOManager :: nat iomanager) 40 \<and>
   (case AddEvent (\<lambda>_ _ _. 0) (Some 1) (9, RUNNING) (IOManager :: nat iomanager) 100 READ (Some 5) of
      Inl _ \<Rightarrow> False
    | Inr (rt, io1) \<Rightarrow>
        (case AddEvent_context (\<lambda>_ _ _. 0) (Some 1) (9, RUNNING) (resize_for io1 40) 40 READ (Some 6) of
           Inl _ \<Rightarrow> False
         | Inr (rt', io2) \<Rightarrow> rt = 0 \<and> rt' = 0 \<and> io_pending io2 = 2 \<and>
             sum_list (map event_count (io_contexts io2)) = 1 \<and> length (io_contexts io2) = 60))"
  by code_simp

text \<open>
  The timeout given to \<open>epoll_wait\<close> is the time to the next timer, at most five seconds, as long as
  that time is below \<open>2 ^ 31\<close> milliseconds; from there to \<open>2 ^ 32\<close> the conversion to \<open>int\<close> makes it
  negative, and \<open>epoll_wait\<close> waits without limit.
\<close>

theorem epoll_timeout_bounds:
  "(unat next < 2 ^ 31 \<longrightarrow> epoll_timeout next = min (int (unat next)) 5000) \<and>
   epoll_timeout (- 1) = 5000 \<and>
   (2 ^ 31 \<le> unat next \<and> unat next < 2 ^ 32 \<longrightarrow> epoll_timeout next < 0)"
proof (intro conjI impI)
  have e: "epoll_timeout next = min (sint (ucast next :: u32)) 5000" if "unat next < 2 ^ 32"
  proof -
    have "next \<noteq> - 1" using that by (auto simp: unsigned_minus_1_eq_mask mask_eq_exp_minus_1)
    moreover have "- (2 ^ 31) \<le> min (sint (ucast next :: u32)) 5000" "min (sint (ucast next :: u32)) 5000 < 2 ^ 31"
      using sint_greater_eq [of "ucast next :: u32"] by auto
    ultimately show ?thesis by (simp add: epoll_timeout_def clamp_timeout_def int_roundtrip)
  qed
  have u: "uint (ucast next :: u32) = int (unat next)" if "unat next < 2 ^ 32"
  proof -
    have "int (unat next) < int (2 ^ 32)" using that by (simp only: of_nat_less_iff)
    then have "uint next < 2 ^ 32" by simp
    then show ?thesis by (simp add: unsigned_ucast_eq take_bit_int_eq_self)
  qed
  show "epoll_timeout next = min (int (unat next)) 5000" if n: "unat next < 2 ^ 31"
  proof -
    have lt: "unat next < 2 ^ 32" using n by simp
    have "int (unat next) < int (2 ^ 31)" using n by (simp only: of_nat_less_iff)
    then have "uint (ucast next :: u32) < 2 ^ 31" unfolding u [OF lt] by simp
    then show ?thesis unfolding e [OF lt] by (simp only: sint_small u [OF lt])
  qed
  show "epoll_timeout (- 1) = 5000" by (simp add: epoll_timeout_def clamp_timeout_def)
  show "epoll_timeout next < 0" if n: "2 ^ 31 \<le> unat next \<and> unat next < 2 ^ 32"
  proof -
    have lt: "unat next < 2 ^ 32" using n by simp
    have "int (2 ^ 31) \<le> int (unat next)" using n by (simp only: of_nat_le_iff)
    then have "2 ^ 31 \<le> uint (ucast next :: u32)" unfolding u [OF lt] by simp
    then have "sint (ucast next :: u32) < 0" by (rule sint_big)
    then show ?thesis unfolding e [OF lt] by simp
  qed
qed

theorem epoll_timeout_bounds_witness: "epoll_timeout 100 = 100 \<and> epoll_timeout 0x80000000 < 0"
  using epoll_timeout_bounds [of 100] epoll_timeout_bounds [of "0x80000000"] by simp

text \<open>
  An I/O scheduler only stops when nothing is left to do: no timer, no registered event on any
  descriptor, no queued task and no worker inside a task.
\<close>

theorem io_stopping_idle:
  assumes "io_reachable io" "io_Stopping tm now io sc = (True, timeout, tm')"
    "\<forall>a \<in> set (tm_timers tm). deadline (tm_heap tm) a \<noteq> - 1"
  shows "tm_timers tm = [] \<and> (\<forall>fc \<in> set (io_contexts io). fc_events fc = 0) \<and> sc_tasks sc = [] \<and> sc_active sc = 0"
proof -
  from assms(2) have s: "fst (GetNextTimer tm now) = - 1" "io_pending io = 0" "Stopping sc"
    by (auto simp: io_Stopping_def split: prod.splits)
  have "tm_timers tm = []"
  proof (rule ccontr)
    assume ne: "tm_timers tm \<noteq> []"
    then obtain a as where ts: "tm_timers tm = a # as" by (cases "tm_timers tm") auto
    let ?n = "deadline (tm_heap tm) a"
    have n: "\<not> now \<ge> ?n" "?n - now = - 1"
      using s(1) ts by (auto simp: GetNextTimer_def Let_def split: if_splits)
    then have "unat ?n - unat now = unat (- 1 :: u64)"
      by (metis linear unat_sub)
    then have "unat (- 1 :: u64) \<le> unat ?n" by linarith
    then have "?n = - 1" by (metis word_le_nat_alt word_n1_ge word_order.extremum_uniqueI)
    with assms(3) ts show False by simp
  qed
  moreover have "fc_events fc = 0" if "fc \<in> set (io_contexts io)" for fc
  proof -
    have ok: "io_ok io" using io_reachable_wf [OF assms(1)] by (simp add: io_wf_def)
    then have "event_count fc = 0" using s(2) that by (simp add: io_ok_def)
    moreover have "fc_ok fc" using ok that by (auto simp: io_ok_def in_set_conv_nth)
    ultimately show ?thesis by (auto simp: event_count_def fc_ok_def event_defs split: if_splits)
  qed
  ultimately show ?thesis using s(3) by (simp add: Stopping_def)
qed

theorem io_stopping_idle_witness:
  "list_all (\<lambda>fc. fc_events fc = 0) (io_contexts (IOManager :: nat iomanager))"
  using io_stopping_idle [OF io_reachable.start, of "TimerManager 0 :: nat timer_manager" 0 "demo_sched\<lparr>sc_stopping := True\<rparr>"]
  by (simp add: list_all_iff io_Stopping_def GetNextTimer_def TimerManager_def Stopping_def demo_sched_def IOManager_def
      ContextResize_def)

end
