(* ===== verification/Hook.thy ===== *)
theory Hook
  imports Fd_Manager IO_Manager "HOL-Library.Signed_Division"
begin

text \<open>
  The hooked system calls (\<open>net/hook.cc\<close>). The original functions found by \<open>dlsym\<close> are the C library's:
  their results are arguments. \<open>do_io\<close> is run against a script: the outcomes of the successive calls
  of the original function (return value and \<open>errno\<close>), and for each wait the return value of
  \<open>AddEvent\<close>, the \<open>errno\<close> it leaves, and what \<open>cancelled\<close> is when the fiber runs again. A run that
  needs more than the script has not returned yet: \<open>None\<close>. What it does besides is a list of actions.
\<close>

section \<open>Error numbers\<close>

definition EINTR :: int where "EINTR = 4"
definition EBADF :: int where "EBADF = 9"
definition EAGAIN :: int where "EAGAIN = 11"
definition ETIMEDOUT :: int where "ETIMEDOUT = 110"
definition EINPROGRESS :: int where "EINPROGRESS = 115"

section \<open>Input and output\<close>

datatype io_action = Call_Origin | Add_Timer u64 | Add_Event u32 | Yield_Fiber | Cancel_Timer

record wait =
  wt_rt :: int
  wt_errno :: int
  wt_cancelled :: int

text \<open>From the label \<open>retry\<close> on.\<close>

fun do_io_retry :: "u64 \<Rightarrow> u32 \<Rightarrow> (int \<times> int) list \<Rightarrow> wait list \<Rightarrow> io_action list \<Rightarrow>
    (int \<times> int \<times> io_action list) option" where
  "do_io_retry to event [] ws tr = None"
| "do_io_retry to event ((n, errno) # cs) ws tr =
     (if n = - 1 \<and> errno = EINTR then do_io_retry to event cs ws (tr @ [Call_Origin])
      else if n = - 1 \<and> errno = EAGAIN then
        (case ws of
           [] \<Rightarrow> None
         | w # ws' \<Rightarrow>
             let timer = (to \<noteq> - 1);
                 cancel = (if timer then [Cancel_Timer] else []);
                 tr1 = tr @ [Call_Origin] @ (if timer then [Add_Timer to] else []) @ [Add_Event event] in
             if wt_rt w \<noteq> 0 then Some (- 1, wt_errno w, tr1 @ cancel)
             else
               let tr2 = tr1 @ [Yield_Fiber] @ cancel in
               if wt_cancelled w \<noteq> 0 then Some (- 1, wt_cancelled w, tr2)
               else do_io_retry to event cs ws' tr2)
      else Some (n, errno, tr @ [Call_Origin]))"

definition origin :: "(int \<times> int) list \<Rightarrow> (int \<times> int \<times> io_action list) option" where
  "origin cs = (case cs of [] \<Rightarrow> None | (n, errno) # _ \<Rightarrow> Some (n, errno, [Call_Origin]))"

definition do_io :: "bool \<Rightarrow> fd_manager \<Rightarrow> int \<Rightarrow> u32 \<Rightarrow> timeout_opt \<Rightarrow> (int \<times> int) list \<Rightarrow> wait list \<Rightarrow>
    (int \<times> int \<times> io_action list) option result" where
  "do_io hook_enable fm fd event timeout_so cs ws =
     (if \<not> hook_enable then Inr (origin cs)
      else rbind (fd_Get (\<lambda>_. None) (\<lambda>_. 0) fm fd False) (\<lambda>(ctx, _).
        case ctx of
          None \<Rightarrow> Inr (origin cs)
        | Some ctx \<Rightarrow>
            if is_closed ctx then Inr (Some (- 1, EBADF, []))
            else if \<not> is_socket ctx \<or> user_nonblock ctx then Inr (origin cs)
            else Inr (do_io_retry (GetTimeout ctx timeout_so) event cs ws [])))"

text \<open>The calls for reading and for writing, which differ in the original function only.\<close>

definition hook_read :: "bool \<Rightarrow> fd_manager \<Rightarrow> int \<Rightarrow> (int \<times> int) list \<Rightarrow> wait list \<Rightarrow>
    (int \<times> int \<times> io_action list) option result" where
  "hook_read hook_enable fm fd cs ws = do_io hook_enable fm fd READ SO_RCVTIMEO cs ws"

definition hook_write :: "bool \<Rightarrow> fd_manager \<Rightarrow> int \<Rightarrow> (int \<times> int) list \<Rightarrow> wait list \<Rightarrow>
    (int \<times> int \<times> io_action list) option result" where
  "hook_write hook_enable fm fd cs ws = do_io hook_enable fm fd WRITE SO_SNDTIMEO cs ws"

definition hook_accept :: "(int \<Rightarrow> bool option) \<Rightarrow> (int \<Rightarrow> u32) \<Rightarrow> bool \<Rightarrow> fd_manager \<Rightarrow> int \<Rightarrow> (int \<times> int) list \<Rightarrow>
    wait list \<Rightarrow> ((int \<times> int \<times> io_action list) option \<times> fd_manager) result" where
  "hook_accept fstat getfl hook_enable fm s cs ws =
     rbind (do_io hook_enable fm s READ SO_RCVTIMEO cs ws) (\<lambda>r.
     case r of
       None \<Rightarrow> Inr (None, fm)
     | Some (fd, errno, tr) \<Rightarrow>
         if fd \<ge> 0 then rbind (fd_Get fstat getfl fm fd True) (\<lambda>(_, fm'). Inr (Some (fd, errno, tr), fm'))
         else Inr (Some (fd, errno, tr), fm))"

definition hook_socket :: "(int \<Rightarrow> bool option) \<Rightarrow> (int \<Rightarrow> u32) \<Rightarrow> bool \<Rightarrow> fd_manager \<Rightarrow> int \<Rightarrow>
    (int \<times> fd_manager) result" where
  "hook_socket fstat getfl hook_enable fm fd =
     (if \<not> hook_enable then Inr (fd, fm)
      else if fd = - 1 then Inr (fd, fm)
      else rbind (fd_Get fstat getfl fm fd True) (\<lambda>(_, fm'). Inr (fd, fm')))"

text \<open>
  \<open>connect_with_timeout\<close>: \<open>call\<close> is the outcome of the original \<open>connect\<close>, \<open>w\<close> of the wait, and \<open>soerr\<close> the answer
  to \<open>SO_ERROR\<close>, \<open>None\<close> where \<open>getsockopt\<close> fails with the given \<open>errno\<close>.
\<close>

definition connect_with_timeout :: "bool \<Rightarrow> fd_manager \<Rightarrow> int \<Rightarrow> u64 \<Rightarrow> int \<times> int \<Rightarrow> wait \<Rightarrow> int option \<Rightarrow> int \<Rightarrow>
    (int \<times> int \<times> io_action list) result" where
  "connect_with_timeout hook_enable fm fd timeout_ms call w soerr gerrno =
     (if \<not> hook_enable then Inr (fst call, snd call, [Call_Origin])
      else rbind (fd_Get (\<lambda>_. None) (\<lambda>_. 0) fm fd False) (\<lambda>(ctx, _).
        case ctx of
          None \<Rightarrow> Inr (- 1, EBADF, [])
        | Some ctx \<Rightarrow>
            if is_closed ctx then Inr (- 1, EBADF, [])
            else if \<not> is_socket ctx \<or> user_nonblock ctx then Inr (fst call, snd call, [Call_Origin])
            else if fst call = 0 then Inr (0, snd call, [Call_Origin])
            else if fst call \<noteq> - 1 \<or> snd call \<noteq> EINPROGRESS then Inr (fst call, snd call, [Call_Origin])
            else
              let timer = (timeout_ms \<noteq> - 1);
                  cancel = (if timer then [Cancel_Timer] else []);
                  tr1 = [Call_Origin] @ (if timer then [Add_Timer timeout_ms] else []) @ [Add_Event WRITE];
                  finish = (\<lambda>tr. case soerr of
                      None \<Rightarrow> Inr (- 1, gerrno, tr)
                    | Some e \<Rightarrow> if e = 0 then Inr (0, gerrno, tr) else Inr (- 1, e, tr)) in
              if wt_rt w = 0 then
                (if wt_cancelled w \<noteq> 0 then Inr (- 1, wt_cancelled w, tr1 @ [Yield_Fiber] @ cancel)
                 else finish (tr1 @ [Yield_Fiber] @ cancel))
              else finish (tr1 @ cancel)))"

text \<open>
  The callback of the timer of \<open>do_io\<close> and \<open>connect_with_timeout\<close>: \<open>t\<close> is what locking the weak pointer gives; the
  second result says whether it cancels the event.
\<close>

definition on_timeout :: "int option \<Rightarrow> int option \<times> bool" where
  "on_timeout t =
     (case t of
        None \<Rightarrow> (None, False)
      | Some cancelled \<Rightarrow> if cancelled \<noteq> 0 then (Some cancelled, False) else (Some ETIMEDOUT, True))"

definition hook_connect :: "bool \<Rightarrow> fd_manager \<Rightarrow> int \<Rightarrow> u64 \<Rightarrow> int \<times> int \<Rightarrow> wait \<Rightarrow> int option \<Rightarrow> int \<Rightarrow>
    (int \<times> int \<times> io_action list) result" where
  "hook_connect hook_enable fm sockfd s_connect_timeout call w soerr gerrno =
     connect_with_timeout hook_enable fm sockfd s_connect_timeout call w soerr gerrno"

section \<open>Sleeping\<close>

text \<open>A sleep sets a timer that reschedules the fiber, and yields; C's integer division truncates.\<close>

definition hook_sleep :: "bool \<Rightarrow> u32 \<Rightarrow> io_action list" where
  "hook_sleep hook_enable seconds =
     (if \<not> hook_enable then [Call_Origin] else [Add_Timer (ucast (seconds * 1000)), Yield_Fiber])"

definition hook_usleep :: "bool \<Rightarrow> u32 \<Rightarrow> io_action list" where
  "hook_usleep hook_enable usec =
     (if \<not> hook_enable then [Call_Origin] else [Add_Timer (ucast (usec div 1000)), Yield_Fiber])"

definition hook_nanosleep :: "bool \<Rightarrow> int \<Rightarrow> int \<Rightarrow> io_action list" where
  "hook_nanosleep hook_enable tv_sec tv_nsec =
     (if \<not> hook_enable then [Call_Origin]
      else
        let timeout_ms = sint (of_int (tv_sec * 1000 + signed_divide (signed_divide tv_nsec 1000) 1000) :: u32)
        in [Add_Timer (of_int timeout_ms), Yield_Fiber])"

section \<open>Descriptor flags and options\<close>

text \<open>
  \<open>fcntl\<close>: the arguments of the call to the original function, and a function from its result to what is
  returned. The other commands are passed through; only the ones the source lists keep their argument.
\<close>

datatype fcntl_cmd = F_SETFL u32 | F_GETFL | F_OTHER int "int option"

definition fcntl_takes_arg :: "int \<Rightarrow> bool" where
  "fcntl_takes_arg cmd \<longleftrightarrow>
     cmd \<in> set [0, 1030, 2, 8, 10, 1024, 1026, 1031] \<or> cmd \<in> set [6, 7, 5] \<or> cmd \<in> set [16, 15]"

definition hook_fcntl :: "fd_manager \<Rightarrow> int \<Rightarrow> fcntl_cmd \<Rightarrow> (fcntl_cmd \<times> (u32 \<Rightarrow> u32) \<times> fd_manager) result" where
  "hook_fcntl fm fd cmd =
     (case cmd of
        F_SETFL arg \<Rightarrow>
          rbind (fd_Get (\<lambda>_. None) (\<lambda>_. 0) fm fd False) (\<lambda>(ctx, _).
          case ctx of
            None \<Rightarrow> Inr (F_SETFL arg, id, fm)
          | Some c \<Rightarrow>
              if is_closed c \<or> \<not> is_socket c then Inr (F_SETFL arg, id, fm)
              else
                let c' = c\<lparr>user_nonblock := (arg AND O_NONBLOCK \<noteq> 0)\<rparr>;
                    arg' = (if sys_nonblock c' then arg OR O_NONBLOCK else arg AND NOT O_NONBLOCK)
                in Inr (F_SETFL arg', id, fd_put fm fd c'))
      | F_GETFL \<Rightarrow>
          rbind (fd_Get (\<lambda>_. None) (\<lambda>_. 0) fm fd False) (\<lambda>(ctx, _).
          case ctx of
            None \<Rightarrow> Inr (F_GETFL, id, fm)
          | Some c \<Rightarrow>
              if is_closed c \<or> \<not> is_socket c then Inr (F_GETFL, id, fm)
              else if user_nonblock c then Inr (F_GETFL, \<lambda>r. r OR O_NONBLOCK, fm)
              else Inr (F_GETFL, \<lambda>r. r AND NOT O_NONBLOCK, fm))
      | F_OTHER c arg \<Rightarrow> Inr (F_OTHER c (if fcntl_takes_arg c then arg else None), id, fm))"

text \<open>\<open>ioctl\<close>: for \<open>FIONBIO\<close> the pointed-to value, which the kernel is then given unchanged.\<close>

definition hook_ioctl :: "fd_manager \<Rightarrow> int \<Rightarrow> bool \<Rightarrow> int \<Rightarrow> (int \<times> fd_manager) result" where
  "hook_ioctl fm d fionbio arg =
     (if fionbio then
        rbind (fd_Get (\<lambda>_. None) (\<lambda>_. 0) fm d False) (\<lambda>(ctx, _).
        case ctx of
          None \<Rightarrow> Inr (arg, fm)
        | Some c \<Rightarrow>
            if is_closed c \<or> \<not> is_socket c then Inr (arg, fm)
            else Inr (arg, fd_put fm d (c\<lparr>user_nonblock := (arg \<noteq> 0)\<rparr>)))
      else Inr (arg, fm))"

text \<open>\<open>setsockopt\<close> on \<open>SOL_SOCKET\<close> with a timeout option; the kernel is called in any case.\<close>

definition hook_setsockopt :: "bool \<Rightarrow> fd_manager \<Rightarrow> int \<Rightarrow> timeout_opt option \<Rightarrow> int \<Rightarrow> int \<Rightarrow> fd_manager result" where
  "hook_setsockopt hook_enable fm sockfd opt tv_sec tv_usec =
     (if \<not> hook_enable then Inr fm
      else case opt of
        None \<Rightarrow> Inr fm
      | Some so \<Rightarrow>
          rbind (fd_Get (\<lambda>_. None) (\<lambda>_. 0) fm sockfd False) (\<lambda>(ctx, _).
          case ctx of
            None \<Rightarrow> Inr fm
          | Some c \<Rightarrow> Inr (fd_put fm sockfd (SetTimeout c so (of_int (tv_sec * 1000 + signed_divide tv_usec 1000))))))"

text \<open>
  \<open>close\<close>, in a thread of an I/O scheduler or not: the wake-ups of \<open>CancelAll\<close>, and the state of the table and of
  the manager before the original \<open>close\<close>.
\<close>

definition hook_close :: "epoll_ctl \<Rightarrow> bool \<Rightarrow> fd_manager \<Rightarrow> 'cb iomanager option \<Rightarrow> int \<Rightarrow>
    ('cb wakeup list \<times> fd_manager \<times> 'cb iomanager option) result" where
  "hook_close epoll_ctl hook_enable fm iom fd =
     (if \<not> hook_enable then Inr ([], fm, iom)
      else rbind (fd_Get (\<lambda>_. None) (\<lambda>_. 0) fm fd False) (\<lambda>(ctx, _).
        case ctx of
          None \<Rightarrow> Inr ([], fm, iom)
        | Some _ \<Rightarrow>
            rbind (case iom of
                     None \<Rightarrow> Inr ([], None)
                   | Some io \<Rightarrow> rbind (CancelAll epoll_ctl io fd) (\<lambda>(_, io', ws). Inr (ws, Some io'))) (\<lambda>(ws, iom').
            rbind (fd_Del fm fd) (\<lambda>fm'. Inr (ws, fm', iom')))))"

section \<open>Runs of \<open>do_io\<close>\<close>

definition interrupted :: "int \<times> int \<Rightarrow> bool" where
  "interrupted c \<longleftrightarrow> fst c = - 1 \<and> (snd c = EINTR \<or> snd c = EAGAIN)"

definition must_wait :: "int \<times> int \<Rightarrow> bool" where
  "must_wait c \<longleftrightarrow> fst c = - 1 \<and> snd c = EAGAIN"

definition timers_added :: "io_action list \<Rightarrow> nat" where
  "timers_added tr = length (filter (\<lambda>a. case a of Add_Timer _ \<Rightarrow> True | _ \<Rightarrow> False) tr)"

definition timers_cancelled :: "io_action list \<Rightarrow> nat" where
  "timers_cancelled tr = length (filter (\<lambda>a. a = Cancel_Timer) tr)"

lemma timer_counts [simp]:
  "timers_added [] = 0" "timers_cancelled [] = 0"
  "timers_added (a # tr) = (case a of Add_Timer _ \<Rightarrow> 1 | _ \<Rightarrow> 0) + timers_added tr"
  "timers_cancelled (a # tr) = (if a = Cancel_Timer then 1 else 0) + timers_cancelled tr"
  "timers_added (tr @ tr') = timers_added tr + timers_added tr'"
  "timers_cancelled (tr @ tr') = timers_cancelled tr + timers_cancelled tr'"
  by (auto simp: timers_added_def timers_cancelled_def split: io_action.splits)

lemma errno_distinct [simp]: "EINTR \<noteq> EAGAIN" "EAGAIN \<noteq> EINTR"
  by (simp_all add: EINTR_def EAGAIN_def)

lemma do_io_retry_result:
  assumes "do_io_retry to event cs ws tr = Some (n, e, tr')" "timers_added tr = timers_cancelled tr"
  shows "timers_added tr' = timers_cancelled tr' \<and>
    ((n, e) \<in> set cs \<and> \<not> interrupted (n, e) \<or>
     n = - 1 \<and> (\<exists>w \<in> set ws. wt_rt w \<noteq> 0 \<and> e = wt_errno w \<or> wt_rt w = 0 \<and> wt_cancelled w \<noteq> 0 \<and> e = wt_cancelled w))"
  using assms
proof (induction cs arbitrary: ws tr)
  case (Cons c cs)
  obtain m errno where c: "c = (m, errno)" by (cases c)
  consider "\<not> interrupted c" | "m = - 1" "errno = EINTR" | "m = - 1" "errno = EAGAIN"
    using c by (auto simp: interrupted_def)
  then show ?case
  proof cases
    case 1
    then show ?thesis using Cons.prems c by (auto simp: interrupted_def split: if_splits)
  next
    case 2
    then show ?thesis using Cons.IH [of ws "tr @ [Call_Origin]"] Cons.prems c by auto
  next
    case 3
    from Cons.prems(1) 3 c obtain w ws' where ws: "ws = w # ws'" by (cases ws) auto
    define tr1 where "tr1 = tr @ [Call_Origin] @ (if to \<noteq> - 1 then [Add_Timer to] else []) @ [Add_Event event]"
    define off where "off = (if to \<noteq> - 1 then [Cancel_Timer] else [])"
    have bal: "timers_added (tr1 @ off) = timers_cancelled (tr1 @ off)"
      "timers_added (tr1 @ [Yield_Fiber] @ off) = timers_cancelled (tr1 @ [Yield_Fiber] @ off)"
      using Cons.prems(2) by (auto simp: tr1_def off_def)
    have step: "do_io_retry to event (c # cs) ws tr =
        (if wt_rt w \<noteq> 0 then Some (- 1, wt_errno w, tr1 @ off)
         else if wt_cancelled w \<noteq> 0 then Some (- 1, wt_cancelled w, tr1 @ [Yield_Fiber] @ off)
         else do_io_retry to event cs ws' (tr1 @ [Yield_Fiber] @ off))"
      using 3 c ws by (simp add: Let_def tr1_def off_def)
    note run = Cons.prems(1) [unfolded step]
    show ?thesis
    proof (cases "wt_rt w \<noteq> 0 \<or> wt_cancelled w \<noteq> 0")
      case True
      then show ?thesis using run bal ws by (auto simp del: timer_counts split: if_splits)
    next
      case False
      then have "do_io_retry to event cs ws' (tr1 @ [Yield_Fiber] @ off) = Some (n, e, tr')" using run by simp
      from Cons.IH [OF this bal(2)] show ?thesis unfolding ws by auto
    qed
  qed
qed simp

lemma do_io_retry_completes:
  assumes "\<forall>c \<in> set cs. interrupted c" "\<not> interrupted (n, e)" "length (filter must_wait cs) \<le> length ws"
    "\<forall>w \<in> set (take (length (filter must_wait cs)) ws). wt_rt w = 0 \<and> wt_cancelled w = 0"
  shows "\<exists>tr'. do_io_retry to event (cs @ (n, e) # rest) ws tr = Some (n, e, tr')"
  using assms
proof (induction cs arbitrary: ws tr)
  case Nil
  then show ?case by (auto simp: interrupted_def)
next
  case (Cons c cs)
  obtain m errno where c: "c = (m, errno)" by (cases c)
  show ?case
  proof (cases "errno = EINTR")
    case True
    then show ?thesis using Cons c by (auto simp: interrupted_def must_wait_def)
  next
    case False
    then have again: "m = - 1" "errno = EAGAIN" using Cons.prems(1) c by (auto simp: interrupted_def)
    then obtain w ws' where ws: "ws = w # ws'" using Cons.prems(3) c by (cases ws) (auto simp: must_wait_def)
    with again c Cons.prems have "wt_rt w = 0" "wt_cancelled w = 0" by (auto simp: must_wait_def)
    with Cons.IH [of ws'] Cons.prems again c ws show ?thesis by (auto simp: Let_def must_wait_def)
  qed
qed

lemma unat_widen: "unat (ucast (w :: u32) :: u64) = unat w"
proof -
  have "unat w < 2 ^ 32" using unsigned_less [of w] by simp
  then show ?thesis by (simp add: unsigned_ucast_eq take_bit_nat_eq_self)
qed

lemma signed_divide_pos: "0 \<le> (a :: int) \<Longrightarrow> 0 < b \<Longrightarrow> signed_divide a b = a div b"
  by (cases "a = 0") (simp_all add: signed_divide_int_def)

lemma hook_nanosleep_ms:
  assumes "0 \<le> sec" "0 \<le> nsec" "sec * 1000 + nsec div 1000000 < 2 ^ 31"
  shows "\<exists>ms. hook_nanosleep True sec nsec = [Add_Timer ms, Yield_Fiber] \<and> uint ms = sec * 1000 + nsec div 1000000"
proof -
  define k where "k = sec * 1000 + nsec div 1000000"
  have k: "0 \<le> k" "k < 2 ^ 31" using assms by (auto simp: k_def)
  have d: "signed_divide (signed_divide nsec 1000) 1000 = nsec div 1000000"
    using assms by (simp add: signed_divide_pos zdiv_zmult2_eq [symmetric] pos_imp_zdiv_nonneg_iff)
  have "sint (of_int k :: u32) = k" using k by (simp add: int_word_sint)
  then have "hook_nanosleep True sec nsec = [Add_Timer (of_int k), Yield_Fiber]"
    by (simp add: hook_nanosleep_def d k_def [symmetric])
  moreover have "uint (of_int k :: u64) = k" using k by (simp add: uint_word_of_int take_bit_int_eq_self)
  ultimately show ?thesis by (simp add: k_def)
qed

section \<open>Properties\<close>

text \<open>
  (C10) A hooked read or write on a socket behaves like a blocking call: it never returns because of an
  interruption or because data is not ready; it returns what some call of the original function
  returned, or \<open>-1\<close> because the wait could not be set up or was cancelled (a timeout); and every timer
  it starts is cancelled before it goes on. If the original function eventually succeeds or fails for another
  reason and no wait fails, the call returns that outcome.
\<close>

theorem do_io_blocking:
  assumes "fd_Get (\<lambda>_. None) (\<lambda>_. 0) fm fd False = Inr (Some ctx, fm)" "is_socket ctx" "\<not> user_nonblock ctx" "\<not> is_closed ctx"
  shows "(\<forall>n e tr. do_io True fm fd event so cs ws = Inr (Some (n, e, tr)) \<longrightarrow>
      timers_added tr = timers_cancelled tr \<and>
      ((n, e) \<in> set cs \<and> \<not> interrupted (n, e) \<or>
       n = - 1 \<and> (\<exists>w \<in> set ws. wt_rt w \<noteq> 0 \<and> e = wt_errno w \<or> wt_rt w = 0 \<and> wt_cancelled w \<noteq> 0 \<and> e = wt_cancelled w))) \<and>
    (\<forall>cs' n e rest. cs = cs' @ (n, e) # rest \<and> (\<forall>c \<in> set cs'. interrupted c) \<and> \<not> interrupted (n, e) \<and>
      length (filter must_wait cs') \<le> length ws \<and>
      (\<forall>w \<in> set (take (length (filter must_wait cs')) ws). wt_rt w = 0 \<and> wt_cancelled w = 0) \<longrightarrow>
      (\<exists>tr. do_io True fm fd event so cs ws = Inr (Some (n, e, tr))))"
proof -
  have e: "do_io True fm fd event so cs ws = Inr (do_io_retry (GetTimeout ctx so) event cs ws [])"
    using assms by (simp add: do_io_def)
  show ?thesis
    unfolding e using do_io_retry_result [of "GetTimeout ctx so" event cs ws "[]"] do_io_retry_completes by auto
qed

definition sock_ctx :: fd_ctx where
  "sock_ctx = \<lparr>is_init = True, is_socket = True, sys_nonblock = True, user_nonblock = False, is_closed = False,
     ctx_fd = 3, recv_timeout = - 1, send_timeout = - 1\<rparr>"

definition sock_table :: fd_manager where
  "sock_table = FdManager[3 := Some sock_ctx]"

lemma sock_table_Get: "fd_Get fstat getfl sock_table 3 False = Inr (Some sock_ctx, sock_table)"
  by (simp add: fd_Get_def Get_lookup_def datas_at_def sock_table_def FdManager_def)

theorem do_io_blocking_witness:
  "\<exists>tr. hook_read True sock_table 3 [(- 1, EINTR), (- 1, EAGAIN), (5, 0)] [\<lparr>wt_rt = 0, wt_errno = 0, wt_cancelled = 0\<rparr>] =
     Inr (Some (5, 0, tr))"
proof -
  let ?cs = "[(- 1, EINTR), (- 1, EAGAIN)]" and ?ws = "[\<lparr>wt_rt = 0, wt_errno = 0, wt_cancelled = 0\<rparr>]"
  have s: "is_socket sock_ctx" "\<not> user_nonblock sock_ctx" "\<not> is_closed sock_ctx" by (simp_all add: sock_ctx_def)
  have "?cs @ (5, 0) # [] = ?cs @ (5, 0) # [] \<and> (\<forall>c \<in> set ?cs. interrupted c) \<and>
    \<not> interrupted (5, 0) \<and> length (filter must_wait ?cs) \<le> length ?ws \<and>
    (\<forall>w \<in> set (take (length (filter must_wait ?cs)) ?ws). wt_rt w = 0 \<and> wt_cancelled w = 0)"
    by (auto simp: interrupted_def must_wait_def)
  from do_io_blocking [OF sock_table_Get s, of READ SO_RCVTIMEO "?cs @ (5, 0) # []" ?ws,
      THEN conjunct2, THEN spec, THEN spec, THEN spec, THEN spec, THEN mp, OF this]
  show ?thesis by (simp only: hook_read_def append_Cons append_Nil)
qed

text \<open>
  For a managed socket \<open>fcntl\<close> keeps two views apart: whatever flags the user sets, the kernel's descriptor
  stays non-blocking, and \<open>F_GETFL\<close> gives the user back exactly the flags that were set.
\<close>

theorem fcntl_two_views:
  assumes "fd_lookup fm fd = Some c" "0 \<le> fd" "is_socket c" "sys_nonblock c" "\<not> is_closed c"
  shows "\<exists>fm' f. hook_fcntl fm fd (F_SETFL arg) = Inr (F_SETFL (arg OR O_NONBLOCK), id, fm') \<and>
    hook_fcntl fm' fd F_GETFL = Inr (F_GETFL, f, fm') \<and> f (arg OR O_NONBLOCK) = arg \<and>
    (\<forall>fd'. fd' \<noteq> fd \<longrightarrow> fd_lookup fm' fd' = fd_lookup fm fd')"
proof -
  let ?c = "c\<lparr>user_nonblock := (arg AND O_NONBLOCK \<noteq> 0)\<rparr>"
  have n: "nat fd < length fm" using assms(1) by (auto simp: fd_lookup_def split: if_splits)
  have look: "fd_lookup (fd_put fm fd ?c) fd' = (if fd' = fd then Some ?c else fd_lookup fm fd')" for fd'
    using fd_lookup_update [OF assms(2) n] by (simp add: fd_put_def)
  let ?f = "if arg AND O_NONBLOCK \<noteq> 0 then (\<lambda>r. r OR O_NONBLOCK) else (\<lambda>r. r AND NOT O_NONBLOCK)"
  have "hook_fcntl fm fd (F_SETFL arg) = Inr (F_SETFL (arg OR O_NONBLOCK), id, fd_put fm fd ?c)"
    using assms by (simp add: hook_fcntl_def fd_Get_plain Let_def)
  moreover have "hook_fcntl (fd_put fm fd ?c) fd F_GETFL = Inr (F_GETFL, ?f, fd_put fm fd ?c)"
    using assms look by (simp add: hook_fcntl_def fd_Get_plain)
  moreover have "?f (arg OR O_NONBLOCK) = arg"
  proof -
    have b: "bit O_NONBLOCK j \<longleftrightarrow> j = 11" for j
    proof -
      have e: "O_NONBLOCK = push_bit 11 1" by (simp add: O_NONBLOCK_def push_bit_eq_mult)
      show ?thesis by (simp only: e bit_simps) auto
    qed
    have s: "arg AND O_NONBLOCK = 0 \<longleftrightarrow> \<not> bit arg 11"
    proof
      assume "arg AND O_NONBLOCK = 0"
      then have "\<not> bit (arg AND O_NONBLOCK) 11" by simp
      then show "\<not> bit arg 11" by (simp add: bit_and_iff b)
    next
      assume "\<not> bit arg 11"
      then show "arg AND O_NONBLOCK = 0" by (intro bit_word_eqI) (auto simp: bit_and_iff b)
    qed
    show ?thesis by (rule bit_word_eqI) (auto simp: s bit_or_iff bit_and_iff bit_not_iff b)
  qed
  ultimately show ?thesis using look by auto
qed

theorem fcntl_two_views_witness:
  "\<exists>fm'. hook_fcntl sock_table 3 (F_SETFL 2) = Inr (F_SETFL (2 OR O_NONBLOCK), id, fm')"
  using fcntl_two_views [of sock_table 3 sock_ctx 2]
  by (auto simp: sock_table_def fd_lookup_def FdManager_def sock_ctx_def)

text \<open>
  \<open>ioctl\<close> with \<open>FIONBIO\<close> does not keep the views apart: asking for blocking mode is passed to the kernel
  unchanged, so a managed socket really blocks while the framework still believes it non-blocking.
\<close>

theorem ioctl_breaks_nonblock:
  assumes "fd_lookup fm fd = Some c" "0 \<le> fd" "is_socket c" "sys_nonblock c" "\<not> is_closed c"
  shows "\<exists>fm' c'. hook_ioctl fm fd True 0 = Inr (0, fm') \<and> fd_lookup fm' fd = Some c' \<and> sys_nonblock c' \<and> \<not> user_nonblock c'"
proof -
  have n: "nat fd < length fm" using assms(1) by (auto simp: fd_lookup_def split: if_splits)
  then show ?thesis using assms fd_lookup_update [OF assms(2) n] by (simp add: hook_ioctl_def fd_Get_plain fd_put_def)
qed

theorem ioctl_breaks_nonblock_witness: "\<exists>fm'. hook_ioctl sock_table 3 True 0 = Inr (0, fm')"
  using ioctl_breaks_nonblock [of sock_table 3 sock_ctx]
  by (auto simp: sock_table_def fd_lookup_def FdManager_def sock_ctx_def)

text \<open>
  The hooked sleeps wait the time asked for, in whole milliseconds, while the millisecond count fits the
  types: \<open>sleep\<close> below 4294968 seconds and \<open>nanosleep\<close> below \<open>2 ^ 31\<close> milliseconds. Beyond that \<open>sleep\<close> wraps:
  \<open>sleep(4294968)\<close> waits 704 milliseconds.
\<close>

theorem sleep_milliseconds:
  "(unat s < 4294968 \<longrightarrow> (\<exists>ms. hook_sleep True s = [Add_Timer ms, Yield_Fiber] \<and> unat ms = unat s * 1000)) \<and>
   (\<exists>ms. hook_usleep True us = [Add_Timer ms, Yield_Fiber] \<and> unat ms = unat us div 1000) \<and>
   (0 \<le> sec \<and> 0 \<le> nsec \<and> sec * 1000 + nsec div 1000000 < 2 ^ 31 \<longrightarrow>
      (\<exists>ms. hook_nanosleep True sec nsec = [Add_Timer ms, Yield_Fiber] \<and> uint ms = sec * 1000 + nsec div 1000000)) \<and>
   hook_sleep True 4294968 = [Add_Timer 704, Yield_Fiber]"
proof (intro conjI impI)
  show "\<exists>ms. hook_sleep True s = [Add_Timer ms, Yield_Fiber] \<and> unat ms = unat s * 1000" if "unat s < 4294968"
  proof -
    have "unat s * unat (1000 :: u32) < 2 ^ LENGTH(32)" using that by simp
    then have "unat (s * 1000) = unat s * unat (1000 :: u32)" by (rule unat_mult_lem [THEN iffD1])
    then show ?thesis by (simp add: hook_sleep_def unat_widen)
  qed
  show "\<exists>ms. hook_usleep True us = [Add_Timer ms, Yield_Fiber] \<and> unat ms = unat us div 1000"
    by (simp add: hook_usleep_def unat_div unat_widen)
  show "\<exists>ms. hook_nanosleep True sec nsec = [Add_Timer ms, Yield_Fiber] \<and> uint ms = sec * 1000 + nsec div 1000000"
    if h: "0 \<le> sec \<and> 0 \<le> nsec \<and> sec * 1000 + nsec div 1000000 < 2 ^ 31"
    using hook_nanosleep_ms h by blast
  show "hook_sleep True 4294968 = [Add_Timer 704, Yield_Fiber]" by (simp add: hook_sleep_def)
qed

theorem sleep_milliseconds_witness:
  "(\<exists>ms. hook_sleep True 2 = [Add_Timer ms, Yield_Fiber] \<and> unat ms = 2000) \<and>
   (\<exists>ms. hook_nanosleep True 1 5000000 = [Add_Timer ms, Yield_Fiber] \<and> uint ms = 1005)"
  using sleep_milliseconds [of 2 0 1 5000000] by simp

text \<open>
  If the write event of a connection in progress cannot be registered, \<open>connect\<close> does not report it: with no
  pending socket error it returns success although the connection is not established.
\<close>

theorem connect_false_success:
  assumes "fd_lookup fm fd = Some c" "0 \<le> fd" "is_socket c" "\<not> user_nonblock c" "\<not> is_closed c" "wt_rt w \<noteq> 0"
  shows "\<exists>tr. connect_with_timeout True fm fd ms (- 1, EINPROGRESS) w (Some 0) e = Inr (0, e, tr) \<and> Yield_Fiber \<notin> set tr"
  using assms by (simp add: connect_with_timeout_def fd_Get_plain Let_def)

theorem connect_false_success_witness:
  "\<exists>tr. connect_with_timeout True sock_table 3 5000 (- 1, EINPROGRESS) \<lparr>wt_rt = - 1, wt_errno = 0, wt_cancelled = 0\<rparr> (Some 0) 0 =
     Inr (0, 0, tr)"
  using connect_false_success [of sock_table 3 sock_ctx "\<lparr>wt_rt = - 1, wt_errno = 0, wt_cancelled = 0\<rparr>" 5000 0]
  by (auto simp: sock_table_def fd_lookup_def FdManager_def sock_ctx_def)

text \<open>
  Closing a managed descriptor wakes up every fiber or callback waiting for it before the descriptor is
  closed, leaves none registered, and removes its context from the table.
\<close>

theorem close_wakes_waiters:
  assumes "io_wf io" "context_at io fd = Inr fc" "fd_lookup fm fd = Some c" "fc_events fc \<noteq> 0" "epoll_ctl EPOLL_CTL_DEL fd 0 = 0"
  shows "\<exists>ws fm' io' fc'. hook_close epoll_ctl True fm (Some io) fd = Inr (ws, fm', Some io') \<and>
    ws = (if fc_events fc AND READ \<noteq> 0 then [wakeup_of (fc_read fc)] else []) @
      (if fc_events fc AND WRITE \<noteq> 0 then [wakeup_of (fc_write fc)] else []) \<and>
    fd_lookup fm' fd = None \<and> context_at io' fd = Inr fc' \<and> fc_events fc' = 0 \<and> io_wf io'"
proof -
  have fd: "0 \<le> fd" using assms(3) by (auto simp: fd_lookup_def split: if_splits)
  from fd_Del_ok [OF fd, of fm] obtain fm' where "fd_Del fm fd = Inr fm'" "fd_lookup fm' fd = None" by auto
  with CancelAll_ok [OF assms(1,2), of epoll_ctl] assms(3-5) fd show ?thesis
    by (auto simp: hook_close_def fd_Get_plain)
qed

theorem close_wakes_waiters_witness:
  "\<exists>io1 ws r. AddEvent (\<lambda>_ _ _. 0) (Some 1) (9, RUNNING) (IOManager :: nat iomanager) 3 READ (Some 5) = Inr (0, io1) \<and>
     hook_close (\<lambda>_ _ _. 0) True sock_table (Some io1) 3 = Inr (ws, r) \<and> length ws = 1"
proof -
  let ?e = "\<lambda>_ _ _. 0" and ?io = "IOManager :: nat iomanager"
  let ?fc = "put_event_context ((FdContext 3 :: nat fd_context)\<lparr>fc_events := fc_events (FdContext 3 :: nat fd_context) OR READ\<rparr>) READ (new_ctx 1 9 (Some 5))"
  let ?io1 = "put_context (?io\<lparr>io_pending := Suc (io_pending ?io)\<rparr>) 3 ?fc"
  have ev: "fc_events ?fc = READ" by (simp add: put_event_context_def FdContext_def NONE_def)
  have nr: "\<not> needs_resize ?io 3" by (simp add: needs_resize_def IOManager_def ContextResize_def)
  have add: "AddEvent ?e (Some 1) (9, RUNNING) ?io 3 READ (Some 5) = Inr (0, ?io1)"
    using AddEvent_context_ok [OF IOManager_wf IOManager_at, of READ ?e 1 9 "Some 5"] nr
    by (simp add: AddEvent_def is_event_def FdContext_def NONE_def)
  have wf: "io_wf ?io1" by (rule AddEvent_wf [OF IOManager_wf _ _ add]) (simp_all add: is_event_def)
  have at: "context_at ?io1 3 = Inr ?fc"
    by (simp add: context_at_def put_context_def IOManager_def ContextResize_def)
  have t: "fd_lookup sock_table 3 = Some sock_ctx" by (simp add: sock_table_def fd_lookup_def FdManager_def)
  have "READ AND READ \<noteq> 0" "READ AND WRITE = 0" "READ \<noteq> 0" by (simp_all add: READ_def WRITE_def)
  with close_wakes_waiters [OF wf at t, of ?e] add ev show ?thesis by fastforce
qed

end
