(* ===== verification/Socket.thy ===== *)
theory Socket
  imports Address Hook
begin

text \<open>
  Sockets (\<open>net/socket.h\<close>, \<open>net/socket.cc\<close>). The system calls a socket makes, hooked or not, are a record of operations on
  a world: which descriptors are open, and the descriptor table. The laws of the calls are the locale \<open>net_kernel\<close>; they
  hold of the hooked calls of \<open>net/hook.cc\<close>, on which it is interpreted.
\<close>

section \<open>Operations of the system\<close>

datatype sock_opt = Opt_ReuseAddr | Opt_NoDelay | Opt_Timeout timeout_opt int int

record 'w net_api =
  api_socket :: "'w \<Rightarrow> u16 \<Rightarrow> int \<Rightarrow> int \<Rightarrow> int \<times> 'w"
  api_close :: "'w \<Rightarrow> int \<Rightarrow> 'w"
  api_bind :: "'w \<Rightarrow> int \<Rightarrow> address \<Rightarrow> bool \<times> 'w"
  api_connect :: "'w \<Rightarrow> int \<Rightarrow> address \<Rightarrow> u64 \<Rightarrow> bool \<times> 'w"
  api_listen :: "'w \<Rightarrow> int \<Rightarrow> int \<Rightarrow> bool \<times> 'w"
  api_accept :: "'w \<Rightarrow> int \<Rightarrow> int \<times> 'w"
  api_setsockopt :: "'w \<Rightarrow> int \<Rightarrow> sock_opt \<Rightarrow> bool \<times> 'w"
  api_getsockname :: "'w \<Rightarrow> int \<Rightarrow> address \<Rightarrow> address option"
  api_getpeername :: "'w \<Rightarrow> int \<Rightarrow> address \<Rightarrow> address option"
  api_unlink :: "'w \<Rightarrow> string \<Rightarrow> 'w"
  api_fdctx :: "'w \<Rightarrow> int \<Rightarrow> fd_ctx option"

section \<open>Sockets\<close>

definition TCP :: int where "TCP = 1"
definition UDP :: int where "UDP = 2"

record socket =
  sk_sock :: int
  sk_family :: u16
  sk_type :: int
  sk_protocol :: int
  sk_connected :: bool
  sk_local :: "address option"
  sk_remote :: "address option"

definition new_Socket :: "u16 \<Rightarrow> int \<Rightarrow> int \<Rightarrow> socket" where
  "new_Socket family type protocol =
     \<lparr>sk_sock = - 1, sk_family = family, sk_type = type, sk_protocol = protocol, sk_connected = False,
      sk_local = None, sk_remote = None\<rparr>"

definition IsValid :: "socket \<Rightarrow> bool" where
  "IsValid s \<longleftrightarrow> sk_sock s \<noteq> - 1"

definition SetOption :: "'w net_api \<Rightarrow> 'w \<Rightarrow> socket \<Rightarrow> sock_opt \<Rightarrow> bool \<times> 'w" where
  "SetOption api w s opt = api_setsockopt api w (sk_sock s) opt"

definition InitSock :: "'w net_api \<Rightarrow> 'w \<Rightarrow> socket \<Rightarrow> 'w" where
  "InitSock api w s =
     (let w1 = snd (SetOption api w s Opt_ReuseAddr) in
      if sk_type s = TCP then snd (SetOption api w1 s Opt_NoDelay) else w1)"

definition NewSock :: "'w net_api \<Rightarrow> 'w \<Rightarrow> socket \<Rightarrow> socket \<times> 'w" where
  "NewSock api w s =
     (let (fd, w1) = api_socket api w (sk_family s) (sk_type s) (sk_protocol s);
          s1 = s\<lparr>sk_sock := fd\<rparr>
      in if fd \<noteq> - 1 then (s1, InitSock api w1 s1) else (s1, w1))"

definition CreateTCP :: "address \<Rightarrow> socket" where
  "CreateTCP addr = new_Socket (GetFamily addr) TCP 0"

definition CreateUDP :: "'w net_api \<Rightarrow> 'w \<Rightarrow> address \<Rightarrow> socket \<times> 'w" where
  "CreateUDP api w addr =
     (let (s, w1) = NewSock api w (new_Socket (GetFamily addr) UDP 0) in (s\<lparr>sk_connected := True\<rparr>, w1))"

definition CreateTCPSocket :: "u16 \<Rightarrow> socket" where
  "CreateTCPSocket family = new_Socket family TCP 0"

definition CreateUDPSocket :: "'w net_api \<Rightarrow> 'w \<Rightarrow> u16 \<Rightarrow> socket \<times> 'w" where
  "CreateUDPSocket api w family =
     (let (s, w1) = NewSock api w (new_Socket family UDP 0) in (s\<lparr>sk_connected := True\<rparr>, w1))"

definition CreateUnixTCPSocket :: socket where
  "CreateUnixTCPSocket = new_Socket AF_UNIX TCP 0"

definition CreateUnixUDPSocket :: socket where
  "CreateUnixUDPSocket = new_Socket AF_UNIX UDP 0"

definition Socket_close :: "'w net_api \<Rightarrow> 'w \<Rightarrow> socket \<Rightarrow> bool \<times> socket \<times> 'w" where
  "Socket_close api w s =
     (if \<not> sk_connected s \<and> sk_sock s = - 1 then (True, s, w)
      else
        let s1 = s\<lparr>sk_connected := False\<rparr> in
        if sk_sock s \<noteq> - 1 then (False, s1\<lparr>sk_sock := - 1\<rparr>, api_close api w (sk_sock s))
        else (False, s1, w))"

text \<open>The destructor closes the socket.\<close>

definition Socket_destroy :: "'w net_api \<Rightarrow> 'w \<Rightarrow> socket \<Rightarrow> 'w" where
  "Socket_destroy api w s = snd (snd (Socket_close api w s))"

definition blank_address :: "u16 \<Rightarrow> address" where
  "blank_address family =
     (if family = AF_INET then IPv4Address (new_IPv4Address 0 0)
      else if family = AF_INET6 then IPv6Address new_IPv6Address
      else if family = AF_UNIX then new_UnixAddress
      else new_UnknownAddress family)"

definition GetRemoteAddress :: "'w net_api \<Rightarrow> 'w \<Rightarrow> socket \<Rightarrow> address \<times> socket" where
  "GetRemoteAddress api w s =
     (case sk_remote s of
        Some a \<Rightarrow> (a, s)
      | None \<Rightarrow>
          (case api_getpeername api w (sk_sock s) (blank_address (sk_family s)) of
             None \<Rightarrow> (new_UnknownAddress (sk_family s), s)
           | Some a \<Rightarrow> (a, s\<lparr>sk_remote := Some a\<rparr>)))"

definition GetLocalAddress :: "'w net_api \<Rightarrow> 'w \<Rightarrow> socket \<Rightarrow> address \<times> socket" where
  "GetLocalAddress api w s =
     (case sk_local s of
        Some a \<Rightarrow> (a, s)
      | None \<Rightarrow>
          (case api_getsockname api w (sk_sock s) (blank_address (sk_family s)) of
             None \<Rightarrow> (new_UnknownAddress (sk_family s), s)
           | Some a \<Rightarrow> (a, s\<lparr>sk_local := Some a\<rparr>)))"

definition Socket_Init :: "'w net_api \<Rightarrow> 'w \<Rightarrow> socket \<Rightarrow> int \<Rightarrow> bool \<times> socket \<times> 'w" where
  "Socket_Init api w s sock =
     (case api_fdctx api w sock of
        None \<Rightarrow> (False, s, w)
      | Some ctx \<Rightarrow>
          if is_socket ctx \<and> \<not> is_closed ctx then
            let s1 = s\<lparr>sk_sock := sock, sk_connected := True\<rparr>;
                w1 = InitSock api w s1;
                s2 = snd (GetLocalAddress api w1 s1);
                s3 = snd (GetRemoteAddress api w1 s2)
            in (True, s3, w1)
          else (False, s, w))"

definition Socket_accept :: "'w net_api \<Rightarrow> 'w \<Rightarrow> socket \<Rightarrow> socket option \<times> 'w" where
  "Socket_accept api w s =
     (let sock = new_Socket (sk_family s) (sk_type s) (sk_protocol s);
          (newsock, w1) = api_accept api w (sk_sock s) in
      if newsock = - 1 then (None, w1)
      else
        let (ok, sock', w2) = Socket_Init api w1 sock newsock in
        if ok then (Some sock', w2) else (None, Socket_destroy api w2 sock'))"

definition Socket_connect :: "'w net_api \<Rightarrow> 'w \<Rightarrow> socket \<Rightarrow> address \<Rightarrow> u64 \<Rightarrow> bool \<times> socket \<times> 'w" where
  "Socket_connect api w s addr timeout_ms =
     (let s1 = s\<lparr>sk_remote := Some addr\<rparr>;
          (s2, w2) = (if \<not> IsValid s1 then NewSock api w s1 else (s1, w)) in
      if \<not> IsValid s2 then (False, s2, w2)
      else if GetFamily addr \<noteq> sk_family s2 then (False, s2, w2)
      else
        let (ok, w3) = api_connect api w2 (sk_sock s2) addr timeout_ms in
        if \<not> ok then
          let (_, s3, w4) = Socket_close api w3 s2 in (False, s3, w4)
        else
          let s3 = s2\<lparr>sk_connected := True\<rparr>;
              s4 = snd (GetRemoteAddress api w3 s3);
              s5 = snd (GetLocalAddress api w3 s4)
          in (True, s5, w3))"

definition Socket_reconnect :: "'w net_api \<Rightarrow> 'w \<Rightarrow> socket \<Rightarrow> u64 \<Rightarrow> bool \<times> socket \<times> 'w" where
  "Socket_reconnect api w s timeout_ms =
     (case sk_remote s of
        None \<Rightarrow> (False, s, w)
      | Some addr \<Rightarrow> Socket_connect api w (s\<lparr>sk_local := None\<rparr>) addr timeout_ms)"

text \<open>The path of a Unix domain address is first tried with a socket of its own, destroyed at the end of the block.\<close>

definition unix_in_use :: "'w net_api \<Rightarrow> 'w \<Rightarrow> address \<Rightarrow> bool \<times> 'w" where
  "unix_in_use api w addr =
     (case addr of
        UnixAddress u len \<Rightarrow>
          let (ok, s, w1) = Socket_connect api w CreateUnixTCPSocket addr (- 1) in
          if ok then (True, Socket_destroy api w1 s)
          else (False, Socket_destroy api (api_unlink api w1 (Unix_GetPath u len)) s)
      | _ \<Rightarrow> (False, w))"

definition Socket_bind :: "'w net_api \<Rightarrow> 'w \<Rightarrow> socket \<Rightarrow> address \<Rightarrow> bool \<times> socket \<times> 'w" where
  "Socket_bind api w s addr =
     (let s1 = s\<lparr>sk_local := Some addr\<rparr>;
          (s2, w2) = (if \<not> IsValid s1 then NewSock api w s1 else (s1, w)) in
      if \<not> IsValid s2 then (False, s2, w2)
      else if GetFamily addr \<noteq> sk_family s2 then (False, s2, w2)
      else
        let (in_use, w3) = unix_in_use api w2 addr in
        if in_use then (False, s2, w3)
        else
          let (ok, w4) = api_bind api w3 (sk_sock s2) addr in
          if \<not> ok then (False, s2, w4) else (True, snd (GetLocalAddress api w4 s2), w4))"

definition Socket_listen :: "'w net_api \<Rightarrow> 'w \<Rightarrow> socket \<Rightarrow> int \<Rightarrow> bool \<times> 'w" where
  "Socket_listen api w s backlog =
     (if \<not> IsValid s then (False, w) else api_listen api w (sk_sock s) backlog)"

text \<open>Sending and receiving: \<open>sys\<close> is the system call on the descriptor with the other arguments applied.\<close>

definition Socket_send :: "(int \<Rightarrow> int) \<Rightarrow> socket \<Rightarrow> int" where
  "Socket_send sys s = (if sk_connected s then sys (sk_sock s) else - 1)"

definition Socket_SendTo :: "(int \<Rightarrow> address \<Rightarrow> int) \<Rightarrow> socket \<Rightarrow> address \<Rightarrow> int" where
  "Socket_SendTo sys s to = (if sk_connected s then sys (sk_sock s) to else - 1)"

definition Socket_recv :: "(int \<Rightarrow> int) \<Rightarrow> socket \<Rightarrow> int" where
  "Socket_recv sys s = (if sk_connected s then sys (sk_sock s) else - 1)"

definition Socket_RecvFrom :: "(int \<Rightarrow> address \<Rightarrow> int) \<Rightarrow> socket \<Rightarrow> address \<Rightarrow> int" where
  "Socket_RecvFrom sys s from = (if sk_connected s then sys (sk_sock s) from else - 1)"

text \<open>Timeouts in milliseconds, a signed 64-bit number; C's division truncates.\<close>

definition SetSendTimeout :: "'w net_api \<Rightarrow> 'w \<Rightarrow> socket \<Rightarrow> int \<Rightarrow> 'w" where
  "SetSendTimeout api w s v =
     snd (SetOption api w s (Opt_Timeout SO_SNDTIMEO (c_int (signed_divide v 1000)) (c_int (signed_modulo v 1000 * 1000))))"

definition SetRecvTimeout :: "'w net_api \<Rightarrow> 'w \<Rightarrow> socket \<Rightarrow> int \<Rightarrow> 'w" where
  "SetRecvTimeout api w s v =
     snd (SetOption api w s (Opt_Timeout SO_RCVTIMEO (c_int (signed_divide v 1000)) (c_int (signed_modulo v 1000 * 1000))))"

definition GetSendTimeout :: "'w net_api \<Rightarrow> 'w \<Rightarrow> socket \<Rightarrow> int" where
  "GetSendTimeout api w s =
     (case api_fdctx api w (sk_sock s) of Some ctx \<Rightarrow> sint (GetTimeout ctx SO_SNDTIMEO) | None \<Rightarrow> - 1)"

definition GetRecvTimeout :: "'w net_api \<Rightarrow> 'w \<Rightarrow> socket \<Rightarrow> int" where
  "GetRecvTimeout api w s =
     (case api_fdctx api w (sk_sock s) of Some ctx \<Rightarrow> sint (GetTimeout ctx SO_RCVTIMEO) | None \<Rightarrow> - 1)"

definition GetError :: "int + int \<Rightarrow> int" where
  "GetError getopt = (case getopt of Inl errno \<Rightarrow> errno | Inr error \<Rightarrow> error)"

definition show_bool :: "bool \<Rightarrow> string" where
  "show_bool b = (if b then ''1'' else ''0'')"

definition Socket_Dump :: "socket \<Rightarrow> string" where
  "Socket_Dump s =
     ''[Socket sock='' @ show_int (sk_sock s) @ '' is_connected='' @ show_bool (sk_connected s) @
     '' family='' @ show_nat (unat (sk_family s)) @ '' type='' @ show_int (sk_type s) @
     '' protocol='' @ show_int (sk_protocol s) @
     (case sk_local s of None \<Rightarrow> '''' | Some a \<Rightarrow> '' local_address='' @ Address_ToString a) @
     (case sk_remote s of None \<Rightarrow> '''' | Some a \<Rightarrow> '' remote_address='' @ Address_ToString a) @ '']''"

text \<open>Cancelling goes to the I/O scheduler of the thread.\<close>

definition CancelRead :: "epoll_ctl \<Rightarrow> 'cb iomanager option \<Rightarrow> socket \<Rightarrow> (bool \<times> 'cb iomanager \<times> 'cb wakeup list) result" where
  "CancelRead epoll_ctl iom s =
     (case iom of None \<Rightarrow> Inl Null_Deref | Some io \<Rightarrow> CancelEvent epoll_ctl io (sk_sock s) READ)"

definition CancelWrite :: "epoll_ctl \<Rightarrow> 'cb iomanager option \<Rightarrow> socket \<Rightarrow> (bool \<times> 'cb iomanager \<times> 'cb wakeup list) result" where
  "CancelWrite epoll_ctl iom s =
     (case iom of None \<Rightarrow> Inl Null_Deref | Some io \<Rightarrow> CancelEvent epoll_ctl io (sk_sock s) WRITE)"

definition CancelAccept :: "epoll_ctl \<Rightarrow> 'cb iomanager option \<Rightarrow> socket \<Rightarrow> (bool \<times> 'cb iomanager \<times> 'cb wakeup list) result" where
  "CancelAccept epoll_ctl iom s =
     (case iom of None \<Rightarrow> Inl Null_Deref | Some io \<Rightarrow> CancelEvent epoll_ctl io (sk_sock s) READ)"

definition Socket_CancelAll :: "epoll_ctl \<Rightarrow> 'cb iomanager option \<Rightarrow> socket \<Rightarrow> (bool \<times> 'cb iomanager \<times> 'cb wakeup list) result" where
  "Socket_CancelAll epoll_ctl iom s =
     (case iom of None \<Rightarrow> Inl Null_Deref | Some io \<Rightarrow> CancelAll epoll_ctl io (sk_sock s))"

section \<open>Descriptors\<close>

definition owned :: "socket \<Rightarrow> int set" where
  "owned s = {sk_sock s} - {- 1}"

lemma owned_simps [simp]:
  "owned (s\<lparr>sk_local := a\<rparr>) = owned s" "owned (s\<lparr>sk_remote := a\<rparr>) = owned s" "owned (s\<lparr>sk_connected := b\<rparr>) = owned s"
  "owned (s\<lparr>sk_sock := - 1\<rparr>) = {}" "owned (new_Socket f t p) = {}"
  by (simp_all add: owned_def new_Socket_def)

lemma owned_valid: "IsValid s \<Longrightarrow> owned s = {sk_sock s}" "\<not> IsValid s \<Longrightarrow> owned s = {}"
  by (simp_all add: owned_def IsValid_def)

lemma GetRemoteAddress_keeps [simp]:
  "sk_sock (snd (GetRemoteAddress api w s)) = sk_sock s" "sk_connected (snd (GetRemoteAddress api w s)) = sk_connected s"
  "owned (snd (GetRemoteAddress api w s)) = owned s"
  by (simp_all add: GetRemoteAddress_def split: option.splits)

lemma GetLocalAddress_keeps [simp]:
  "sk_sock (snd (GetLocalAddress api w s)) = sk_sock s" "sk_connected (snd (GetLocalAddress api w s)) = sk_connected s"
  "owned (snd (GetLocalAddress api w s)) = owned s"
  by (simp_all add: GetLocalAddress_def split: option.splits)

text \<open>
  The laws of the system calls: a new descriptor is one that was not open, \<open>close\<close> closes its descriptor only, and the other calls
  neither open nor close any.
\<close>

locale net_kernel =
  fixes api :: "'w net_api" and opened :: "'w \<Rightarrow> int set"
  assumes socket_opens: "api_socket api w f t p = (fd, w') \<Longrightarrow>
      fd = - 1 \<and> opened w' = opened w \<or> fd \<noteq> - 1 \<and> fd \<notin> opened w \<and> opened w' = insert fd (opened w)"
    and accept_opens: "api_accept api w s = (fd, w') \<Longrightarrow>
      fd = - 1 \<and> opened w' = opened w \<or> fd \<noteq> - 1 \<and> fd \<notin> opened w \<and> opened w' = insert fd (opened w)"
    and close_closes: "opened (api_close api w fd) = opened w - {fd}"
    and bind_keeps: "opened (snd (api_bind api w fd a)) = opened w"
    and connect_keeps: "opened (snd (api_connect api w fd a ms)) = opened w"
    and listen_keeps: "opened (snd (api_listen api w fd n)) = opened w"
    and setsockopt_keeps: "opened (snd (api_setsockopt api w fd opt)) = opened w"
    and unlink_keeps: "opened (api_unlink api w path) = opened w"
begin

lemma InitSock_keeps: "opened (InitSock api w s) = opened w"
  by (simp add: InitSock_def SetOption_def setsockopt_keeps Let_def)

lemma NewSock_owned:
  assumes "\<not> IsValid s" "NewSock api w s = (s', w')"
  shows "opened w' = opened w \<union> owned s' \<and> owned s' \<inter> opened w = {}"
proof -
  obtain fd w1 where f: "api_socket api w (sk_family s) (sk_type s) (sk_protocol s) = (fd, w1)" by fastforce
  then have "sk_sock s' = fd" "opened w' = opened w1"
    using assms(2) by (auto simp: NewSock_def Let_def InitSock_keeps split: if_splits)
  with socket_opens [OF f] show ?thesis by (auto simp: owned_def)
qed

lemma close_owned:
  assumes "Socket_close api w s = (r, s', w')"
  shows "owned s' = {} \<and> \<not> sk_connected s' \<and> opened w' = opened w - owned s"
  using assms by (auto simp: Socket_close_def owned_def Let_def close_closes split: if_splits)

lemma destroy_owned: "opened (Socket_destroy api w s) = opened w - owned s"
proof -
  obtain r s' w' where "Socket_close api w s = (r, s', w')" by (cases "Socket_close api w s") auto
  then show ?thesis using close_owned by (simp add: Socket_destroy_def)
qed

lemma ensure_owned:
  assumes "owned s \<subseteq> opened w" "(if \<not> IsValid s then NewSock api w s else (s, w)) = (s', w')"
  shows "owned s' \<subseteq> opened w' \<and> opened w' - owned s' = opened w - owned s"
proof (cases "IsValid s")
  case False
  then have "owned s = {}" by (rule owned_valid)
  moreover from False assms(2) have "NewSock api w s = (s', w')" by simp
  ultimately show ?thesis using NewSock_owned [OF False] by blast
qed (use assms in auto)

lemma connect_owned:
  assumes "owned s \<subseteq> opened w" "Socket_connect api w s a ms = (r, s', w')"
  shows "owned s' \<subseteq> opened w' \<and> opened w' - owned s' = opened w - owned s"
proof -
  let ?s1 = "s\<lparr>sk_remote := Some a\<rparr>"
  obtain s2 w2 where e: "(if \<not> IsValid ?s1 then NewSock api w ?s1 else (?s1, w)) = (s2, w2)" by fastforce
  have 2: "owned s2 \<subseteq> opened w2 \<and> opened w2 - owned s2 = opened w - owned s"
    using ensure_owned [OF _ e] assms(1) by simp
  obtain ok w3 where c: "api_connect api w2 (sk_sock s2) a ms = (ok, w3)" by fastforce
  have 3: "opened w3 = opened w2" using connect_keeps [of w2 "sk_sock s2" a ms] c by simp
  obtain x s3 w4 where cl: "Socket_close api w3 s2 = (x, s3, w4)" by (cases "Socket_close api w3 s2") auto
  note 4 = close_owned [OF cl]
  show ?thesis
    using assms(2) 2 3 4 unfolding Socket_connect_def Let_def e by (auto simp: c cl split: if_splits)
qed

lemma unix_in_use_keeps: "opened (snd (unix_in_use api w a)) = opened w"
proof (cases a)
  case (UnixAddress u len)
  obtain r s' w' where c: "Socket_connect api w CreateUnixTCPSocket a (- 1) = (r, s', w')"
    by (cases "Socket_connect api w CreateUnixTCPSocket a (- 1)") auto
  have "owned CreateUnixTCPSocket = {}" by (simp add: CreateUnixTCPSocket_def)
  with connect_owned [OF _ c] show ?thesis using c UnixAddress
    by (simp add: unix_in_use_def destroy_owned unlink_keeps)
qed (simp_all add: unix_in_use_def)

lemma bind_owned:
  assumes "owned s \<subseteq> opened w" "Socket_bind api w s a = (r, s', w')"
  shows "owned s' \<subseteq> opened w' \<and> opened w' - owned s' = opened w - owned s \<and> (r \<longrightarrow> IsValid s')"
proof -
  let ?s1 = "s\<lparr>sk_local := Some a\<rparr>"
  obtain s2 w2 where e: "(if \<not> IsValid ?s1 then NewSock api w ?s1 else (?s1, w)) = (s2, w2)" by fastforce
  have 2: "owned s2 \<subseteq> opened w2 \<and> opened w2 - owned s2 = opened w - owned s"
    using ensure_owned [OF _ e] assms(1) by simp
  obtain u w3 where i: "unix_in_use api w2 a = (u, w3)" by fastforce
  have 3: "opened w3 = opened w2" using unix_in_use_keeps [of w2 a] i by simp
  obtain ok w4 where b: "api_bind api w3 (sk_sock s2) a = (ok, w4)" by fastforce
  have 4: "opened w4 = opened w3" using bind_keeps [of w3 "sk_sock s2" a] b by simp
  show ?thesis
    using assms(2) 2 3 4 unfolding Socket_bind_def Let_def e by (auto simp: i b IsValid_def split: if_splits)
qed

lemma listen_owned: "opened (snd (Socket_listen api w s n)) = opened w"
  by (simp add: Socket_listen_def listen_keeps)

lemma accept_owned:
  assumes "Socket_accept api w s = (r, w')"
  shows "case r of
      Some c \<Rightarrow> IsValid c \<and> sk_connected c \<and> owned c \<inter> opened w = {} \<and> opened w' = opened w \<union> owned c
    | None \<Rightarrow> opened w' = opened w \<or>
        (\<exists>fd w1. api_accept api w (sk_sock s) = (fd, w1) \<and> fd \<notin> opened w \<and> opened w' = insert fd (opened w) \<and>
          (\<forall>ctx. api_fdctx api w1 fd = Some ctx \<longrightarrow> \<not> is_socket ctx \<or> is_closed ctx))"
proof -
  obtain fd w1 where a: "api_accept api w (sk_sock s) = (fd, w1)" by fastforce
  let ?n = "new_Socket (sk_family s) (sk_type s) (sk_protocol s)"
  show ?thesis
  proof (cases "\<exists>ctx. api_fdctx api w1 fd = Some ctx \<and> is_socket ctx \<and> \<not> is_closed ctx")
    case True
    then show ?thesis using assms accept_opens [OF a] a
      by (auto simp: Socket_accept_def Socket_Init_def Let_def InitSock_keeps IsValid_def owned_def split: if_splits)
  next
    case False
    then have i: "Socket_Init api w1 ?n fd = (False, ?n, w1)" by (auto simp: Socket_Init_def split: option.splits)
    then show ?thesis using assms accept_opens [OF a] a False
      by (auto simp: Socket_accept_def destroy_owned split: if_splits)
  qed
qed

end

section \<open>Timeouts\<close>

lemma timeout_parts:
  assumes "v = - 1 \<or> 0 \<le> v \<and> v < 2 ^ 31 * 1000"
  shows "c_int (signed_divide v 1000) * 1000 + signed_divide (c_int (signed_modulo v 1000 * 1000)) 1000 = v"
proof (cases "v = - 1")
  case True
  then show ?thesis by (simp add: signed_divide_int_def signed_modulo_int_def c_int_small)
next
  case False
  then have v: "0 \<le> v" "v < 2 ^ 31 * 1000" using assms by auto
  have d: "signed_divide v 1000 = v div 1000" using v by (simp add: signed_divide_pos)
  have m: "signed_modulo v 1000 = v mod 1000" using v by (simp add: signed_modulo_int_def sgn_if)
  have "c_int (v div 1000) = v div 1000" using v by (intro c_int_small) (simp_all add: div_less_iff_less_mult)
  moreover have "c_int (v mod 1000 * 1000) = v mod 1000 * 1000"
  proof (rule c_int_small)
    have "0 \<le> v mod 1000" "v mod 1000 < 1000" by simp_all
    then show "- (2 ^ 31) \<le> v mod 1000 * 1000" "v mod 1000 * 1000 < 2 ^ 31" by simp_all
  qed
  ultimately show ?thesis unfolding d m by (simp add: signed_divide_pos)
qed

section \<open>The hooked calls\<close>

text \<open>
  The world behind the hooked calls: the open descriptors and the table of \<open>FdManager\<close>. What the kernel answers is given by an
  environment; a new descriptor is the lowest one that is not open.
\<close>

record hook_world =
  hw_open :: "int list"
  hw_fm :: fd_manager

record net_env =
  ne_fstat :: "int \<Rightarrow> bool option"
  ne_getfl :: "int \<Rightarrow> u32"
  ne_socket :: "u16 \<Rightarrow> int \<Rightarrow> int \<Rightarrow> bool"
  ne_bind :: "int \<Rightarrow> address \<Rightarrow> bool"
  ne_connect :: "int \<Rightarrow> address \<Rightarrow> (int \<times> int) \<times> wait \<times> int option \<times> int"
  ne_connect_timeout :: u64
  ne_listen :: "int \<Rightarrow> bool"
  ne_accept :: "int \<Rightarrow> bool"
  ne_setsockopt :: "int \<Rightarrow> sock_opt \<Rightarrow> bool"
  ne_sockname :: "int \<Rightarrow> address \<Rightarrow> address option"
  ne_peername :: "int \<Rightarrow> address \<Rightarrow> address option"

definition fresh_fd :: "int list \<Rightarrow> int" where
  "fresh_fd os = int (hd (filter (\<lambda>n. int n \<notin> set os) [0..<Suc (length os)]))"

definition world_socket :: "net_env \<Rightarrow> hook_world \<Rightarrow> u16 \<Rightarrow> int \<Rightarrow> int \<Rightarrow> int \<times> hook_world" where
  "world_socket env w f t p =
     (if ne_socket env f t p then
        let fd = fresh_fd (hw_open w) in
        (case hook_socket (ne_fstat env) (ne_getfl env) True (hw_fm w) fd of
           Inr (fd, fm) \<Rightarrow> (fd, w\<lparr>hw_open := fd # hw_open w, hw_fm := fm\<rparr>)
         | Inl _ \<Rightarrow> (- 1, w))
      else (- 1, w))"

definition world_accept :: "net_env \<Rightarrow> hook_world \<Rightarrow> int \<Rightarrow> int \<times> hook_world" where
  "world_accept env w s =
     (if ne_accept env s then
        let fd = fresh_fd (hw_open w) in
        (case hook_accept (ne_fstat env) (ne_getfl env) True (hw_fm w) s [(fd, 0)] [] of
           Inr (Some (n, _), fm) \<Rightarrow> if n = fd then (fd, w\<lparr>hw_open := fd # hw_open w, hw_fm := fm\<rparr>) else (- 1, w)
         | _ \<Rightarrow> (- 1, w))
      else (- 1, w))"

definition world_close :: "hook_world \<Rightarrow> int \<Rightarrow> hook_world" where
  "world_close w fd =
     (case hook_close (\<lambda>_ _ _. 0) True (hw_fm w) (None :: unit iomanager option) fd of
        Inr (_, fm, _) \<Rightarrow> w\<lparr>hw_open := removeAll fd (hw_open w), hw_fm := fm\<rparr>
      | Inl _ \<Rightarrow> w\<lparr>hw_open := removeAll fd (hw_open w)\<rparr>)"

definition world_connect :: "net_env \<Rightarrow> hook_world \<Rightarrow> int \<Rightarrow> address \<Rightarrow> u64 \<Rightarrow> bool \<times> hook_world" where
  "world_connect env w fd a ms =
     (let (call, wt, soerr, gerrno) = ne_connect env fd a in
      (case (if ms = - 1 then hook_connect True (hw_fm w) fd (ne_connect_timeout env) call wt soerr gerrno
             else connect_with_timeout True (hw_fm w) fd ms call wt soerr gerrno) of
         Inr (n, _) \<Rightarrow> n = 0
       | Inl _ \<Rightarrow> False, w))"

definition world_setsockopt :: "net_env \<Rightarrow> hook_world \<Rightarrow> int \<Rightarrow> sock_opt \<Rightarrow> bool \<times> hook_world" where
  "world_setsockopt env w fd opt =
     (ne_setsockopt env fd opt,
      case opt of
        Opt_Timeout so sec usec \<Rightarrow>
          (case hook_setsockopt True (hw_fm w) fd (Some so) sec usec of Inr fm \<Rightarrow> w\<lparr>hw_fm := fm\<rparr> | Inl _ \<Rightarrow> w)
      | _ \<Rightarrow> w)"

definition world_fdctx :: "hook_world \<Rightarrow> int \<Rightarrow> fd_ctx option" where
  "world_fdctx w fd =
     (case fd_Get (\<lambda>_. None) (\<lambda>_. 0) (hw_fm w) fd False of Inr (ctx, _) \<Rightarrow> ctx | Inl _ \<Rightarrow> None)"

definition hooked_api :: "net_env \<Rightarrow> hook_world net_api" where
  "hooked_api env =
     \<lparr>api_socket = world_socket env, api_close = world_close, api_bind = (\<lambda>w fd a. (ne_bind env fd a, w)),
      api_connect = world_connect env, api_listen = (\<lambda>w fd n. (ne_listen env fd, w)), api_accept = world_accept env,
      api_setsockopt = world_setsockopt env, api_getsockname = (\<lambda>w. ne_sockname env),
      api_getpeername = (\<lambda>w. ne_peername env), api_unlink = (\<lambda>w path. w), api_fdctx = world_fdctx\<rparr>"

abbreviation open_fds :: "hook_world \<Rightarrow> int set" where
  "open_fds w \<equiv> set (hw_open w)"

lemma fresh_fd_new: "fresh_fd os \<notin> set os \<and> 0 \<le> fresh_fd os"
proof -
  have "\<exists>n \<in> set [0..<Suc (length os)]. int n \<notin> set os"
  proof (rule ccontr)
    assume "\<not> ?thesis"
    then have "int ` {0..<Suc (length os)} \<subseteq> set os" by (auto simp del: upt_Suc)
    then have "card (int ` {0..<Suc (length os)}) \<le> card (set os)" by (intro card_mono) auto
    also have "\<dots> \<le> length os" by (rule card_length)
    finally show False by (simp add: card_image)
  qed
  then have "filter (\<lambda>n. int n \<notin> set os) [0..<Suc (length os)] \<noteq> []" by (auto simp: filter_empty_conv)
  from hd_in_set [OF this] show ?thesis by (simp add: fresh_fd_def del: upt_Suc)
qed

interpretation hooked: net_kernel "hooked_api env" open_fds for env
proof
  fix w :: hook_world and w' f t p fd s
  show "fd = - 1 \<and> open_fds w' = open_fds w \<or> fd \<noteq> - 1 \<and> fd \<notin> open_fds w \<and> open_fds w' = insert fd (open_fds w)"
    if "api_socket (hooked_api env) w f t p = (fd, w')"
    using that fresh_fd_new [of "hw_open w"]
    by (auto simp: hooked_api_def world_socket_def hook_socket_def Let_def result_simps
        split: if_splits sum.splits prod.splits)
  show "fd = - 1 \<and> open_fds w' = open_fds w \<or> fd \<noteq> - 1 \<and> fd \<notin> open_fds w \<and> open_fds w' = insert fd (open_fds w)"
    if "api_accept (hooked_api env) w s = (fd, w')"
    using that fresh_fd_new [of "hw_open w"]
    by (auto simp: hooked_api_def world_accept_def Let_def split: if_splits sum.splits prod.splits option.splits)
qed (auto simp: hooked_api_def world_close_def world_connect_def world_setsockopt_def split: sum.splits prod.splits sock_opt.splits)

text \<open>An accepted socket is one of the descriptor table, and open there.\<close>

lemma InitSock_world: "InitSock (hooked_api env) w s = w"
  by (simp add: InitSock_def SetOption_def hooked_api_def world_setsockopt_def Let_def)

lemma world_fdctx_lookup: "world_fdctx w fd = Some ctx \<Longrightarrow> fd_lookup (hw_fm w) fd = Some ctx"
  by (cases "0 \<le> fd")
    (auto simp: world_fdctx_def fd_lookup_def fd_Get_def Get_lookup_def datas_at_def result_simps split: if_splits sum.splits option.splits)

lemma accept_managed:
  assumes "Socket_accept (hooked_api env) w s = (Some c, w')"
  shows "(\<exists>ctx. fd_lookup (hw_fm w') (sk_sock c) = Some ctx \<and> is_socket ctx \<and> \<not> is_closed ctx) \<and>
    world_accept env w (sk_sock s) = (sk_sock c, w')"
proof -
  let ?n = "new_Socket (sk_family s) (sk_type s) (sk_protocol s)"
  obtain fd w1 where a: "api_accept (hooked_api env) w (sk_sock s) = (fd, w1)" by fastforce
  from assms have i: "Socket_Init (hooked_api env) w1 ?n fd = (True, c, w')"
    unfolding Socket_accept_def Let_def a by (auto split: if_splits prod.splits)
  have api: "api_fdctx (hooked_api env) = world_fdctx" by (simp add: hooked_api_def)
  from i obtain ctx where "world_fdctx w1 fd = Some ctx" "is_socket ctx" "\<not> is_closed ctx"
    unfolding Socket_Init_def api by (auto split: option.splits if_splits)
  moreover from this i have "sk_sock c = fd" "w' = w1"
    unfolding Socket_Init_def api by (auto simp: InitSock_world Let_def)
  moreover have "api_accept (hooked_api env) = world_accept env" by (simp add: hooked_api_def)
  ultimately show ?thesis using world_fdctx_lookup a by auto
qed

lemma hook_accept_Get:
  assumes "hook_accept fstat getfl en fm s cs ws = Inr (Some (n, r), fm')" "0 \<le> n"
  shows "\<exists>c. fd_Get fstat getfl fm n True = Inr (c, fm')"
proof -
  obtain q where q: "do_io en fm s READ SO_RCVTIMEO cs ws = Inr q" using assms(1) by (auto simp: hook_accept_def result_simps)
  show ?thesis
  proof (cases q)
    case (Some p)
    then show ?thesis using assms q by (cases p) (auto simp: hook_accept_def result_simps split: if_splits)
  qed (use assms q in \<open>simp add: hook_accept_def\<close>)
qed

text \<open>The descriptor of an accepted socket that had no context has a new one, which the user has not made non-blocking.\<close>

lemma world_accept_ctx:
  assumes "world_accept env w s = (fd, w')" "fd \<noteq> - 1" "2 \<le> length (hw_fm w)" "fd_lookup (hw_fm w) fd = None"
  shows "fd_lookup (hw_fm w') fd = Some (fst (FdCtx (ne_fstat env) (ne_getfl env) fd))"
proof -
  let ?fd = "fresh_fd (hw_open w)"
  have f: "0 \<le> ?fd" using fresh_fd_new by blast
  have w': "fd = ?fd" "\<exists>n e fm. hook_accept (ne_fstat env) (ne_getfl env) True (hw_fm w) s [(?fd, 0)] [] = Inr (Some (n, e), fm) \<and> n = ?fd \<and> hw_fm w' = fm"
    using assms(1, 2) by (auto simp: world_accept_def Let_def split: if_splits sum.splits prod.splits option.splits)
  then obtain c where "fd_Get (ne_fstat env) (ne_getfl env) (hw_fm w) ?fd True = Inr (c, hw_fm w')"
    using hook_accept_Get f by blast
  moreover obtain fm' where "fd_Get (ne_fstat env) (ne_getfl env) (hw_fm w) ?fd True =
      Inr (Some (fst (FdCtx (ne_fstat env) (ne_getfl env) ?fd)), fm')" "fd_lookup fm' ?fd = Some (fst (FdCtx (ne_fstat env) (ne_getfl env) ?fd))"
    using fd_Get_auto [OF f assms(3)] assms(4) w'(1) by fastforce
  ultimately show ?thesis using w'(1) by simp
qed

section \<open>Properties\<close>

text \<open>
  (C28) Sockets over the hooked calls own their descriptors: whatever a connection attempt, a binding or a closing does, every descriptor
  it opens is closed again or owned by the socket, and no other descriptor is touched.
\<close>

theorem socket_ownership:
  assumes "owned s \<subseteq> open_fds w"
  shows "(\<forall>r s' w'. Socket_connect (hooked_api env) w s a ms = (r, s', w') \<longrightarrow>
      owned s' \<subseteq> open_fds w' \<and> open_fds w' - owned s' = open_fds w - owned s) \<and>
    (\<forall>r s' w'. Socket_bind (hooked_api env) w s a = (r, s', w') \<longrightarrow>
      owned s' \<subseteq> open_fds w' \<and> open_fds w' - owned s' = open_fds w - owned s \<and> (r \<longrightarrow> IsValid s')) \<and>
    (\<forall>r s' w'. Socket_close (hooked_api env) w s = (r, s', w') \<longrightarrow>
      owned s' = {} \<and> \<not> sk_connected s' \<and> open_fds w' = open_fds w - owned s)"
  by (intro conjI allI impI; blast dest: hooked.connect_owned [OF assms] hooked.bind_owned [OF assms] hooked.close_owned)

definition plain_env :: net_env where
  "plain_env =
     \<lparr>ne_fstat = \<lambda>_. Some True, ne_getfl = \<lambda>_. 0, ne_socket = \<lambda>_ _ _. True, ne_bind = \<lambda>_ _. True,
      ne_connect = \<lambda>_ _. ((0, 0), \<lparr>wt_rt = 0, wt_errno = 0, wt_cancelled = 0\<rparr>, None, 0), ne_connect_timeout = 5000,
      ne_listen = \<lambda>_. True, ne_accept = \<lambda>_. True, ne_setsockopt = \<lambda>_ _. True, ne_sockname = \<lambda>_ a. Some a,
      ne_peername = \<lambda>_ a. Some a\<rparr>"

definition plain_world :: hook_world where
  "plain_world = \<lparr>hw_open = [0, 1, 2], hw_fm = FdManager\<rparr>"

theorem socket_ownership_witness:
  "\<exists>r s' w'. Socket_connect (hooked_api plain_env) plain_world (CreateTCPSocket AF_INET) (IPv4Address (new_IPv4Address 1 80)) 100 =
     (r, s', w') \<and> open_fds w' - owned s' = open_fds plain_world"
proof -
  let ?s = "CreateTCPSocket AF_INET" and ?a = "IPv4Address (new_IPv4Address 1 80)"
  have o: "owned ?s = {}" by (simp add: CreateTCPSocket_def)
  obtain r s' w' where c: "Socket_connect (hooked_api plain_env) plain_world ?s ?a 100 = (r, s', w')"
    by (cases "Socket_connect (hooked_api plain_env) plain_world ?s ?a 100") auto
  with socket_ownership [of ?s plain_world plain_env ?a 100] o show ?thesis by auto
qed



text \<open>What setting a timeout leaves in the descriptor table.\<close>

lemma timeout_stored:
  assumes "fd_lookup (hw_fm w) (sk_sock s) = Some ctx" "v = - 1 \<or> 0 \<le> v \<and> v < 2 ^ 31 * 1000"
  shows "fd_lookup (hw_fm (SetRecvTimeout (hooked_api env) w s v)) (sk_sock s) = Some (SetTimeout ctx SO_RCVTIMEO (of_int v))"
    "fd_lookup (hw_fm (SetSendTimeout (hooked_api env) w s v)) (sk_sock s) = Some (SetTimeout ctx SO_SNDTIMEO (of_int v))"
proof -
  have fd: "0 \<le> sk_sock s" "nat (sk_sock s) < length (hw_fm w)" using assms(1) by (auto simp: fd_lookup_def split: if_splits)
  define sec usec where "sec = c_int (signed_divide v 1000)" and "usec = c_int (signed_modulo v 1000 * 1000)"
  have ms: "sec * 1000 + signed_divide usec 1000 = v"
    unfolding sec_def usec_def by (rule timeout_parts [OF assms(2)])
  have stored: "fd_lookup (hw_fm (snd (api_setsockopt (hooked_api env) w (sk_sock s) (Opt_Timeout so sec usec)))) (sk_sock s) =
      Some (SetTimeout ctx so (of_int v))" for so
    using assms(1) fd fd_lookup_update [OF fd]
    by (simp add: hooked_api_def world_setsockopt_def hook_setsockopt_def fd_Get_plain fd_put_def ms [symmetric])
  then show "fd_lookup (hw_fm (SetRecvTimeout (hooked_api env) w s v)) (sk_sock s) = Some (SetTimeout ctx SO_RCVTIMEO (of_int v))"
    "fd_lookup (hw_fm (SetSendTimeout (hooked_api env) w s v)) (sk_sock s) = Some (SetTimeout ctx SO_SNDTIMEO (of_int v))"
    by (simp_all add: SetRecvTimeout_def SetSendTimeout_def SetOption_def sec_def usec_def)
qed

lemma timeout_read_back:
  assumes "fd_lookup (hw_fm w) (sk_sock s) = Some ctx" "v = - 1 \<or> 0 \<le> v \<and> v < 2 ^ 31 * 1000"
  shows "GetRecvTimeout (hooked_api env) (SetRecvTimeout (hooked_api env) w s v) s = v"
    "GetSendTimeout (hooked_api env) (SetSendTimeout (hooked_api env) w s v) s = v"
    "GetSendTimeout (hooked_api env) (SetRecvTimeout (hooked_api env) w s v) s = GetSendTimeout (hooked_api env) w s"
proof -
  have "0 \<le> sk_sock s" using assms(1) by (auto simp: fd_lookup_def split: if_splits)
  then have ctx: "api_fdctx (hooked_api env) w' (sk_sock s) = fd_lookup (hw_fm w') (sk_sock s)" for w'
    by (simp add: hooked_api_def world_fdctx_def fd_Get_plain)
  have same: "sint (of_int v :: u64) = v" using assms(2) by (auto simp: int_word_sint)
  note defs = GetRecvTimeout_def GetSendTimeout_def ctx timeout_stored [OF assms] SetTimeout_def GetTimeout_def
  show "GetRecvTimeout (hooked_api env) (SetRecvTimeout (hooked_api env) w s v) s = v"
    "GetSendTimeout (hooked_api env) (SetSendTimeout (hooked_api env) w s v) s = v"
    "GetSendTimeout (hooked_api env) (SetRecvTimeout (hooked_api env) w s v) s = GetSendTimeout (hooked_api env) w s"
    using same assms(1) by (simp_all add: defs)
qed

text \<open>
  A timeout set on a managed socket is read back: in milliseconds, up to \<open>2 ^ 31\<close> seconds, and \<open>-1\<close> for none; setting
  one of the two timeouts leaves the other.
\<close>

theorem timeout_roundtrip:
  assumes "fd_lookup (hw_fm w) (sk_sock s) = Some ctx" "v = - 1 \<or> 0 \<le> v \<and> v < 2 ^ 31 * 1000"
  shows "GetRecvTimeout (hooked_api env) (SetRecvTimeout (hooked_api env) w s v) s = v \<and>
    GetSendTimeout (hooked_api env) (SetSendTimeout (hooked_api env) w s v) s = v \<and>
    GetSendTimeout (hooked_api env) (SetRecvTimeout (hooked_api env) w s v) s = GetSendTimeout (hooked_api env) w s"
  using timeout_read_back [OF assms] by simp

theorem timeout_roundtrip_witness:
  "GetRecvTimeout (hooked_api plain_env)
     (SetRecvTimeout (hooked_api plain_env) \<lparr>hw_open = [3], hw_fm = sock_table\<rparr> ((CreateTCPSocket AF_INET)\<lparr>sk_sock := 3\<rparr>) 120000)
     ((CreateTCPSocket AF_INET)\<lparr>sk_sock := 3\<rparr>) = 120000"
  by (rule timeout_roundtrip [where ctx = sock_ctx, THEN conjunct1])
    (simp_all add: CreateTCPSocket_def new_Socket_def sock_table_def fd_lookup_def FdManager_def)

end
