(* ===== verification/Tcp_Server.thy ===== *)
theory Tcp_Server
  imports Socket
begin

text \<open>
  The TCP server (\<open>tcp/tcp_server.h\<close>, \<open>tcp/tcp_server.cc\<close>). Sockets are shared objects: the server, a task waiting in the queue of a
  scheduler and a running accept loop may hold the same one, and a socket is destroyed when nobody holds it. So the objects live in a
  store and the server, the tasks and the loops name them by address. The two workers are pointers to schedulers, possibly to one.
\<close>

section \<open>Data\<close>

datatype tcp_task = StartAccept_task nat | HandleClient_task nat | Stop_task

record 'w tcp_world =
  tw_net :: 'w
  tw_socks :: "socket list"
  tw_workers :: "tcp_task scheduler list"
  tw_accepting :: "nat list"

record tcp_server =
  ts_socks :: "nat list"
  ts_io_worker :: "nat option"
  ts_accept_worker :: "nat option"
  ts_recv_timeout :: u64
  ts_name :: string
  ts_type :: string
  ts_stop :: bool

text \<open>\<open>read_timeout\<close> is the configured value, by default two minutes.\<close>

definition tcp_server_read_timeout :: u64 where
  "tcp_server_read_timeout = 60 * 1000 * 2"

definition TcpServer :: "nat option \<Rightarrow> nat option \<Rightarrow> u64 \<Rightarrow> tcp_server" where
  "TcpServer io_worker accept_worker read_timeout =
     \<lparr>ts_socks = [], ts_io_worker = io_worker, ts_accept_worker = accept_worker, ts_recv_timeout = read_timeout,
      ts_name = ''1.0.0'', ts_type = ''tcp'', ts_stop = True\<rparr>"

definition Tcp_SetRecvTimeout :: "tcp_server \<Rightarrow> u64 \<Rightarrow> tcp_server" where
  "Tcp_SetRecvTimeout sv v = sv\<lparr>ts_recv_timeout := v\<rparr>"

definition Tcp_SetName :: "tcp_server \<Rightarrow> string \<Rightarrow> tcp_server" where
  "Tcp_SetName sv v = sv\<lparr>ts_name := v\<rparr>"

section \<open>Shared sockets\<close>

definition task_holds :: "nat \<Rightarrow> tcp_task schedule_task \<Rightarrow> bool" where
  "task_holds a t = (case st_cb t of Some (StartAccept_task b) \<Rightarrow> a = b | Some (HandleClient_task b) \<Rightarrow> a = b | _ \<Rightarrow> False)"

definition held :: "'w tcp_world \<Rightarrow> nat \<Rightarrow> bool" where
  "held tw a \<longleftrightarrow> a \<in> set (tw_accepting tw) \<or> list_ex (\<lambda>sc. list_ex (task_holds a) (sc_tasks sc)) (tw_workers tw)"

definition close_at :: "'w net_api \<Rightarrow> 'w tcp_world \<Rightarrow> nat \<Rightarrow> 'w tcp_world" where
  "close_at api tw a =
     (let (_, s, w) = Socket_close api (tw_net tw) (tw_socks tw ! a) in tw\<lparr>tw_net := w, tw_socks := (tw_socks tw)[a := s]\<rparr>)"

text \<open>One holder lets go of the socket; no other pointer of the server is left when this is called.\<close>

definition release :: "'w net_api \<Rightarrow> nat \<Rightarrow> 'w tcp_world \<Rightarrow> 'w tcp_world" where
  "release api a tw = (if held tw a then tw else close_at api tw a)"

definition worker_schedule :: "'w tcp_world \<Rightarrow> nat option \<Rightarrow> tcp_task \<Rightarrow> 'w tcp_world result" where
  "worker_schedule tw wk task =
     (case wk of
        None \<Rightarrow> Inl Null_Deref
      | Some k \<Rightarrow>
          if k < length (tw_workers tw)
          then Inr (tw\<lparr>tw_workers := (tw_workers tw)[k := snd (Schedule (tw_workers tw ! k) (ScheduleTask None (Some task) (- 1)))]\<rparr>)
          else Inl Out_Of_Bounds)"

section \<open>Binding\<close>

definition SOMAXCONN :: int where "SOMAXCONN = 4096"

definition bind_one :: "'w net_api \<Rightarrow> address \<Rightarrow> 'w tcp_world \<times> tcp_server \<times> address list \<Rightarrow> 'w tcp_world \<times> tcp_server \<times> address list" where
  "bind_one api addr st =
     (case st of (tw, sv, fails) \<Rightarrow>
        let (ok, sock, w1) = Socket_bind api (tw_net tw) (CreateTCP addr) addr in
        if \<not> ok then (tw\<lparr>tw_net := Socket_destroy api w1 sock\<rparr>, sv, fails @ [addr])
        else
          let (ok, w2) = Socket_listen api w1 sock SOMAXCONN in
          if \<not> ok then (tw\<lparr>tw_net := Socket_destroy api w2 sock\<rparr>, sv, fails @ [addr])
          else (tw\<lparr>tw_net := w2, tw_socks := tw_socks tw @ [sock]\<rparr>, sv\<lparr>ts_socks := ts_socks sv @ [length (tw_socks tw)]\<rparr>, fails))"

definition Tcp_bind_all :: "'w net_api \<Rightarrow> 'w tcp_world \<Rightarrow> tcp_server \<Rightarrow> address list \<Rightarrow> address list \<Rightarrow>
    bool \<times> 'w tcp_world \<times> tcp_server \<times> address list" where
  "Tcp_bind_all api tw sv addrs fails =
     (let (tw1, sv1, fails1) = fold (bind_one api) addrs (tw, sv, fails) in
      if fails1 \<noteq> [] then (False, fold (release api) (ts_socks sv1) tw1, sv1\<lparr>ts_socks := []\<rparr>, fails1)
      else (True, tw1, sv1, fails1))"

definition Tcp_bind :: "'w net_api \<Rightarrow> 'w tcp_world \<Rightarrow> tcp_server \<Rightarrow> address \<Rightarrow> bool \<times> 'w tcp_world \<times> tcp_server" where
  "Tcp_bind api tw sv addr =
     (let (ok, tw1, sv1, _) = Tcp_bind_all api tw sv [addr] [] in (ok, tw1, sv1))"

section \<open>Running\<close>

fun schedule_accepts :: "'w tcp_world \<Rightarrow> nat option \<Rightarrow> nat list \<Rightarrow> 'w tcp_world result" where
  "schedule_accepts tw wk [] = Inr tw"
| "schedule_accepts tw wk (a # as) =
     rbind (worker_schedule tw wk (StartAccept_task a)) (\<lambda>tw. schedule_accepts tw wk as)"

definition Tcp_Start :: "'w tcp_world \<Rightarrow> tcp_server \<Rightarrow> (bool \<times> 'w tcp_world \<times> tcp_server) result" where
  "Tcp_Start tw sv =
     (if \<not> ts_stop sv then Inr (True, tw, sv)
      else rbind (schedule_accepts tw (ts_accept_worker sv) (ts_socks sv)) (\<lambda>tw. Inr (True, tw, sv\<lparr>ts_stop := False\<rparr>)))"

definition Tcp_Stop :: "'w tcp_world \<Rightarrow> tcp_server \<Rightarrow> ('w tcp_world \<times> tcp_server) result" where
  "Tcp_Stop tw sv =
     rbind (worker_schedule tw (ts_accept_worker sv) Stop_task) (\<lambda>tw. Inr (tw, sv\<lparr>ts_stop := True\<rparr>))"

text \<open>
  The closure \<open>Stop\<close> schedules, run in a thread with the I/O scheduler \<open>iom\<close>: each listening socket has its events
  cancelled, which wakes the fibers waiting in \<open>accept\<close>, and is closed.
\<close>

fun stop_socks :: "epoll_ctl \<Rightarrow> 'w net_api \<Rightarrow> nat list \<Rightarrow> 'cb iomanager option \<Rightarrow> 'w tcp_world \<Rightarrow>
    ('cb iomanager option \<times> 'w tcp_world \<times> 'cb wakeup list) result" where
  "stop_socks ctl api [] iom tw = Inr (iom, tw, [])"
| "stop_socks ctl api (a # as) iom tw =
     rbind (Socket_CancelAll ctl iom (tw_socks tw ! a)) (\<lambda>(_, io, wakes).
     rbind (stop_socks ctl api as (Some io) (close_at api tw a)) (\<lambda>(iom', tw', wakes').
     Inr (iom', tw', wakes @ wakes')))"

definition run_Stop_task :: "epoll_ctl \<Rightarrow> 'w net_api \<Rightarrow> 'cb iomanager option \<Rightarrow> 'w tcp_world \<Rightarrow> tcp_server \<Rightarrow>
    ('cb iomanager option \<times> 'w tcp_world \<times> tcp_server \<times> 'cb wakeup list) result" where
  "run_Stop_task ctl api iom tw sv =
     rbind (stop_socks ctl api (ts_socks sv) iom tw) (\<lambda>(iom', tw', wakes). Inr (iom', tw', sv\<lparr>ts_socks := []\<rparr>, wakes))"

text \<open>
  One round of the loop of \<open>StartAccept\<close> on the socket at \<open>a\<close>, and whether the loop goes on. When it ends, it lets go of the socket.
\<close>

definition StartAccept_round :: "'w net_api \<Rightarrow> 'w tcp_world \<Rightarrow> tcp_server \<Rightarrow> nat \<Rightarrow> (bool \<times> 'w tcp_world) result" where
  "StartAccept_round api tw sv a =
     (if ts_stop sv then
        let tw1 = tw\<lparr>tw_accepting := remove1 a (tw_accepting tw)\<rparr> in
        Inr (False, if a \<in> set (ts_socks sv) then tw1 else release api a tw1)
      else
        let (client, w1) = Socket_accept api (tw_net tw) (tw_socks tw ! a) in
        case client of
          None \<Rightarrow> Inr (True, tw\<lparr>tw_net := w1\<rparr>)
        | Some c \<Rightarrow>
            let w2 = SetRecvTimeout api w1 c (sint (ts_recv_timeout sv));
                b = length (tw_socks tw)
            in rbind (worker_schedule (tw\<lparr>tw_net := w2, tw_socks := tw_socks tw @ [c]\<rparr>) (ts_io_worker sv) (HandleClient_task b))
                 (\<lambda>tw2. Inr (True, tw2)))"

text \<open>The handler of the base class only logs; the client socket is then held by nobody else and destroyed.\<close>

definition HandleClient :: "'w net_api \<Rightarrow> 'w tcp_world \<Rightarrow> nat \<Rightarrow> string list \<times> 'w tcp_world" where
  "HandleClient api tw b = ([''HandleClient: '' @ Socket_Dump (tw_socks tw ! b)], release api b tw)"

definition Tcp_ToString :: "'w tcp_world \<Rightarrow> tcp_server \<Rightarrow> string \<Rightarrow> string" where
  "Tcp_ToString tw sv prefix =
     (let wname = (\<lambda>wk. case wk of Some k \<Rightarrow> sc_name (tw_workers tw ! k) | None \<Rightarrow> '''');
          pfx = (if prefix = [] then ''    '' else prefix) in
      prefix @ ''[type='' @ ts_type sv @ '' name='' @ ts_name sv @
      '' io_worker='' @ wname (ts_io_worker sv) @ '' accept='' @ wname (ts_accept_worker sv) @
      '' recv_timeout='' @ show_nat (unat (ts_recv_timeout sv)) @ '']'' @ [CHR 0x0A] @
      concat (map (\<lambda>a. pfx @ pfx @ Socket_Dump (tw_socks tw ! a) @ [CHR 0x0A]) (ts_socks sv)))"

definition Tcp_destroy :: "'w net_api \<Rightarrow> 'w tcp_world \<Rightarrow> tcp_server \<Rightarrow> 'w tcp_world" where
  "Tcp_destroy api tw sv = fold (\<lambda>a tw. close_at api tw a) (ts_socks sv) tw"

section \<open>Descriptors of the server\<close>

definition socks_of :: "'w tcp_world \<Rightarrow> nat list \<Rightarrow> socket list" where
  "socks_of tw as = map ((!) (tw_socks tw)) as"

text \<open>Every address held by a task or a loop is one of the store.\<close>

definition tcp_wf :: "'w tcp_world \<Rightarrow> bool" where
  "tcp_wf tw \<longleftrightarrow> list_all (\<lambda>a. a < length (tw_socks tw)) (tw_accepting tw) \<and>
     list_all (\<lambda>sc. list_all (\<lambda>t. case st_cb t of
         Some (StartAccept_task b) \<Rightarrow> b < length (tw_socks tw) | Some (HandleClient_task b) \<Rightarrow> b < length (tw_socks tw) | _ \<Rightarrow> True)
       (sc_tasks sc)) (tw_workers tw)"

lemma tcp_wf_held:
  assumes "tcp_wf tw" "held tw a"
  shows "a < length (tw_socks tw)"
proof (cases "a \<in> set (tw_accepting tw)")
  case True
  then show ?thesis using assms(1) by (simp add: tcp_wf_def list_all_iff)
next
  case False
  with assms(2) obtain sc t where "sc \<in> set (tw_workers tw)" "t \<in> set (sc_tasks sc)" "task_holds a t"
    by (auto simp: held_def list_ex_iff)
  moreover from this(1, 2) assms(1) have "case st_cb t of
      Some (StartAccept_task b) \<Rightarrow> b < length (tw_socks tw) | Some (HandleClient_task b) \<Rightarrow> b < length (tw_socks tw) | _ \<Rightarrow> True"
    by (simp add: tcp_wf_def list_all_iff)
  ultimately show ?thesis by (auto simp: task_holds_def split: option.splits tcp_task.splits)
qed

lemma held_cong: "tw_workers tw' = tw_workers tw \<Longrightarrow> tw_accepting tw' = tw_accepting tw \<Longrightarrow> held tw' a = held tw a"
  by (simp add: held_def)

lemma close_at_keeps [simp]:
  "tw_workers (close_at api tw a) = tw_workers tw" "tw_accepting (close_at api tw a) = tw_accepting tw"
  "length (tw_socks (close_at api tw a)) = length (tw_socks tw)" "b \<noteq> a \<Longrightarrow> tw_socks (close_at api tw a) ! b = tw_socks tw ! b"
  by (simp_all add: close_at_def split: prod.splits)

lemma Socket_bind_local:
  "Socket_bind api w s a = (ok, s', w') \<Longrightarrow> ok \<longrightarrow> sk_local s' = Some a"
  by (auto simp: Socket_bind_def Let_def NewSock_def GetLocalAddress_def split: if_splits prod.splits)

lemma CancelAll_total:
  assumes "io_wf io" "0 \<le> fd"
  shows "\<exists>b io' ws. CancelAll ctl io fd = Inr (b, io', ws) \<and> io_wf io'"
proof (cases "context_at io fd")
  case (Inl e)
  then show ?thesis using assms by (auto simp: CancelAll_def context_at_def split: if_splits)
next
  case (Inr fc)
  from CancelAll_ok [OF assms(1) Inr, of ctl] assms(1) show ?thesis by (auto split: if_splits)
qed

definition bound :: "'w tcp_world \<Rightarrow> tcp_server \<Rightarrow> 'w tcp_world \<Rightarrow> tcp_server \<Rightarrow> socket list \<Rightarrow> bool" where
  "bound tw sv tw' sv' new \<longleftrightarrow>
     tw_socks tw' = tw_socks tw @ new \<and> tw_workers tw' = tw_workers tw \<and> tw_accepting tw' = tw_accepting tw \<and>
     sv' = sv\<lparr>ts_socks := ts_socks sv @ [length (tw_socks tw)..<length (tw_socks tw) + length new]\<rparr>"

lemma bound_snoc:
  assumes "bound tw sv tw1 sv1 xs" "bound tw1 sv1 tw2 sv2 ys"
  shows "bound tw sv tw2 sv2 (xs @ ys)"
proof -
  have "[n..<n + (j + k)] = [n..<n + j] @ [n + j..<n + j + k]" for n j k :: nat
    using upt_add_eq_append [of n "n + j" k] by (simp add: add.assoc)
  then show ?thesis using assms by (simp add: bound_def)
qed

context net_kernel
begin

lemma close_at_opened: "opened (tw_net (close_at api tw a)) = opened (tw_net tw) - owned (tw_socks tw ! a)"
proof -
  obtain r s w where "Socket_close api (tw_net tw) (tw_socks tw ! a) = (r, s, w)" by (cases "Socket_close api (tw_net tw) (tw_socks tw ! a)") auto
  with close_owned [OF this] show ?thesis by (simp add: close_at_def)
qed

lemma release_all_opened:
  assumes "distinct as" "\<forall>a \<in> set as. \<not> held tw a"
  shows "opened (tw_net (fold (release api) as tw)) = opened (tw_net tw) - \<Union> (owned ` set (socks_of tw as))"
  using assms
proof (induction as arbitrary: tw)
  case (Cons a as)
  have r: "release api a tw = close_at api tw a" using Cons.prems(2) by (simp add: release_def)
  have "socks_of (close_at api tw a) as = socks_of tw as"
    using Cons.prems(1) by (auto simp: socks_of_def intro!: close_at_keeps(4))
  moreover have "\<forall>b \<in> set as. \<not> held (close_at api tw a) b"
    using Cons.prems(2) held_cong [of "close_at api tw a" tw] by simp
  ultimately show ?case using Cons by (simp add: r close_at_opened socks_of_def Diff_eq Int_assoc)
qed (simp add: socks_of_def)

lemma close_all_opened:
  assumes "distinct as"
  shows "opened (tw_net (fold (\<lambda>a tw. close_at api tw a) as tw)) = opened (tw_net tw) - \<Union> (owned ` set (socks_of tw as))"
  using assms
proof (induction as arbitrary: tw)
  case (Cons a as)
  have "socks_of (close_at api tw a) as = socks_of tw as"
    using Cons.prems(1) by (auto simp: socks_of_def intro!: close_at_keeps(4))
  then show ?case using Cons by (simp add: close_at_opened socks_of_def Diff_eq Int_assoc)
qed (simp add: socks_of_def)

text \<open>The closure of \<open>Stop\<close> always gets to its end on a well-formed I/O scheduler, and closes the sockets of the server.\<close>

lemma stop_socks_opened:
  assumes "distinct as" "io_wf io" "list_all IsValid (socks_of tw as)" "list_all (\<lambda>s. 0 \<le> sk_sock s) (socks_of tw as)"
  shows "\<exists>io' tw' ws. stop_socks ctl api as (Some io) tw = Inr (Some io', tw', ws) \<and> io_wf io' \<and>
    opened (tw_net tw') = opened (tw_net tw) - \<Union> (owned ` set (socks_of tw as))"
  using assms
proof (induction as arbitrary: io tw)
  case (Cons a as)
  have s: "socks_of (close_at api tw a) as = socks_of tw as"
    using Cons.prems(1) by (auto simp: socks_of_def intro!: close_at_keeps(4))
  obtain b io1 ws1 where c: "Socket_CancelAll ctl (Some io) (tw_socks tw ! a) = Inr (b, io1, ws1)" "io_wf io1"
    using CancelAll_total [OF Cons.prems(2)] Cons.prems(4) by (fastforce simp: Socket_CancelAll_def socks_of_def)
  have "distinct as" "list_all IsValid (socks_of tw as)" "list_all (\<lambda>s. 0 \<le> sk_sock s) (socks_of tw as)"
    using Cons.prems by (simp_all add: socks_of_def)
  from Cons.IH [of io1 "close_at api tw a", unfolded s, OF this(1) c(2) this(2, 3)]
  obtain io' tw' ws where "stop_socks ctl api as (Some io1) (close_at api tw a) = Inr (Some io', tw', ws)" "io_wf io'"
    "opened (tw_net tw') = opened (tw_net (close_at api tw a)) - \<Union> (owned ` set (socks_of tw as))"
    by blast
  then show ?case by (simp add: c(1) close_at_opened) (auto simp: socks_of_def)
qed (simp add: socks_of_def)

text \<open>One address: either a socket of its own is added, bound and listening, or the address failed and nothing stays open.\<close>

lemma bind_one_cases:
  assumes "bind_one api a (tw, sv, fails) = (tw', sv', fails')"
  shows "(\<exists>s. bound tw sv tw' sv' [s] \<and> fails' = fails \<and> IsValid s \<and> sk_local s = Some a \<and> sk_sock s \<notin> opened (tw_net tw) \<and>
      opened (tw_net tw') = insert (sk_sock s) (opened (tw_net tw))) \<or>
    bound tw sv tw' sv' [] \<and> fails' = fails @ [a] \<and> opened (tw_net tw') = opened (tw_net tw)"
proof -
  obtain ok s w1 where b: "Socket_bind api (tw_net tw) (CreateTCP a) a = (ok, s, w1)"
    by (cases "Socket_bind api (tw_net tw) (CreateTCP a) a") auto
  have o: "owned (CreateTCP a) = {}" by (simp add: CreateTCP_def)
  have 1: "owned s \<subseteq> opened w1" "opened w1 - owned s = opened (tw_net tw)" "ok \<longrightarrow> IsValid s"
    using bind_owned [OF _ b] o by auto
  have l: "ok \<longrightarrow> sk_local s = Some a" using b by (rule Socket_bind_local)
  obtain ok2 w2 where li: "Socket_listen api w1 s SOMAXCONN = (ok2, w2)" by fastforce
  have 2: "opened w2 = opened w1" using listen_owned [of w1 s SOMAXCONN] li by simp
  show ?thesis
  proof (cases "ok \<and> ok2")
    case True
    then have "owned s = {sk_sock s}" using 1(3) owned_valid(1) by blast
    then show ?thesis using assms True 1 2 l b li by (auto simp: bind_one_def bound_def)
  next
    case False
    then show ?thesis using assms 1 2 b li by (auto simp: bind_one_def bound_def destroy_owned split: if_splits)
  qed
qed

lemma bind_loop:
  assumes "fold (bind_one api) addrs (tw, sv, fails) = (tw', sv', fails')"
  shows "\<exists>new failed. bound tw sv tw' sv' new \<and> fails' = fails @ failed \<and> mset (map Some failed) + mset (map sk_local new) = mset (map Some addrs) \<and>
    list_all IsValid new \<and> distinct (map sk_sock new) \<and> set (map sk_sock new) \<inter> opened (tw_net tw) = {} \<and>
    opened (tw_net tw') = opened (tw_net tw) \<union> set (map sk_sock new)"
  using assms
proof (induction addrs arbitrary: tw sv fails)
  case Nil
  then show ?case by (auto simp: bound_def)
next
  case (Cons a addrs)
  obtain tw1 sv1 fails1 where 1: "bind_one api a (tw, sv, fails) = (tw1, sv1, fails1)" by (cases "bind_one api a (tw, sv, fails)") auto
  with Cons.prems have "fold (bind_one api) addrs (tw1, sv1, fails1) = (tw', sv', fails')" by simp
  from Cons.IH [OF this] obtain new failed where ih: "bound tw1 sv1 tw' sv' new" "fails' = fails1 @ failed"
    "mset (map Some failed) + mset (map sk_local new) = mset (map Some addrs)" "list_all IsValid new" "distinct (map sk_sock new)"
    "set (map sk_sock new) \<inter> opened (tw_net tw1) = {}" "opened (tw_net tw') = opened (tw_net tw1) \<union> set (map sk_sock new)"
    by blast
  from bind_one_cases [OF 1] show ?case
  proof (elim disjE exE)
    fix s assume s: "bound tw sv tw1 sv1 [s] \<and> fails1 = fails \<and> IsValid s \<and> sk_local s = Some a \<and> sk_sock s \<notin> opened (tw_net tw) \<and>
      opened (tw_net tw1) = insert (sk_sock s) (opened (tw_net tw))"
    then have "bound tw sv tw' sv' (s # new)" using bound_snoc ih(1) by fastforce
    with s ih show ?thesis by (intro exI [of _ "s # new"] exI [of _ failed]) auto
  next
    assume f: "bound tw sv tw1 sv1 [] \<and> fails1 = fails @ [a] \<and> opened (tw_net tw1) = opened (tw_net tw)"
    then have "bound tw sv tw' sv' new" using bound_snoc ih(1) by fastforce
    with f ih show ?thesis by (intro exI [of _ new] exI [of _ "a # failed"]) auto
  qed
qed

end

section \<open>Properties\<close>



lemma worker_schedule_appends:
  assumes "worker_schedule tw (Some k) task = Inr tw'"
  shows "k < length (tw_workers tw) \<and> tw_net tw' = tw_net tw \<and> tw_socks tw' = tw_socks tw \<and> tw_accepting tw' = tw_accepting tw \<and>
    map sc_tasks (tw_workers tw') = (map sc_tasks (tw_workers tw))[k := sc_tasks (tw_workers tw ! k) @ [ScheduleTask None (Some task) (- 1)]] \<and>
    length (tw_workers tw') = length (tw_workers tw) \<and>
    sc_tasks (tw_workers tw' ! k) = sc_tasks (tw_workers tw ! k) @ [ScheduleTask None (Some task) (- 1)]"
  using assms by (auto simp: worker_schedule_def Schedule_def ScheduleNoLock_def ScheduleTask_def task_set_def Let_def map_update split: if_splits)

lemma small_timeout:
  assumes "(v :: u64) < 2 ^ 31 * 1000"
  shows "sint v = uint v" "uint v < 2 ^ 31 * 1000"
proof -
  show u: "uint v < 2 ^ 31 * 1000" using assms by (simp add: word_less_alt)
  have "- (2 ^ 63) \<le> uint v" by (rule order_trans [OF _ uint_ge_0]) simp
  then show "sint v = uint v" using u by (simp add: sint_uint signed_take_bit_int_eq_self)
qed

lemma accept_round:
  assumes "\<not> ts_stop sv" "ts_io_worker sv = Some k" "k < length (tw_workers tw)"
    "Socket_accept api (tw_net tw) (tw_socks tw ! a) = (Some c, w)"
  shows "\<exists>tw'. StartAccept_round api tw sv a = Inr (True, tw') \<and> tw_net tw' = SetRecvTimeout api w c (sint (ts_recv_timeout sv)) \<and>
    tw_socks tw' = tw_socks tw @ [c] \<and>
    map sc_tasks (tw_workers tw') = (map sc_tasks (tw_workers tw))
      [k := sc_tasks (tw_workers tw ! k) @ [ScheduleTask None (Some (HandleClient_task (length (tw_socks tw)))) (- 1)]]"
proof -
  define w2 where "w2 = SetRecvTimeout api w c (sint (ts_recv_timeout sv))"
  let ?tw = "tw\<lparr>tw_net := w2, tw_socks := tw_socks tw @ [c]\<rparr>"
  obtain tw' where s: "worker_schedule ?tw (Some k) (HandleClient_task (length (tw_socks tw))) = Inr tw'"
    using assms(3) by (simp add: worker_schedule_def)
  have "StartAccept_round api tw sv a = Inr (True, tw')"
    using assms(1, 2, 4) s by (simp add: StartAccept_round_def w2_def)
  then show ?thesis using worker_schedule_appends [OF s] by (intro exI [of _ tw']) (simp add: w2_def)
qed

lemma schedule_accepts_appends:
  assumes "k < length (tw_workers tw)"
  shows "\<exists>tw'. schedule_accepts tw (Some k) as = Inr tw' \<and> tw_net tw' = tw_net tw \<and> tw_socks tw' = tw_socks tw \<and>
    length (tw_workers tw') = length (tw_workers tw) \<and>
    sc_tasks (tw_workers tw' ! k) = sc_tasks (tw_workers tw ! k) @ map (\<lambda>a. ScheduleTask None (Some (StartAccept_task a)) (- 1)) as"
  using assms
proof (induction as arbitrary: tw)
  case (Cons a as)
  obtain tw1 where 1: "worker_schedule tw (Some k) (StartAccept_task a) = Inr tw1" using Cons.prems by (simp add: worker_schedule_def)
  note w = worker_schedule_appends [OF 1]
  then show ?case using Cons.IH [of tw1] Cons.prems 1 by auto
qed simp

text \<open>
  (C31) A connection that the accept loop accepts is handed over exactly once: one task for the new client socket, which is a new object
  with a descriptor of its own, is added at the end of the queue of the I/O worker; the other queues and the listening sockets do not change,
  and reads from the client time out after what the server is set to.
\<close>

theorem tcp_accept_hands_over:
  assumes "\<not> ts_stop sv" "ts_io_worker sv = Some k" "k < length (tw_workers tw)" "ts_recv_timeout sv < 2 ^ 31 * 1000"
    "Socket_accept (hooked_api env) (tw_net tw) (tw_socks tw ! a) = (Some c, w)"
  shows "\<exists>tw'. StartAccept_round (hooked_api env) tw sv a = Inr (True, tw') \<and> tw_socks tw' = tw_socks tw @ [c] \<and>
    IsValid c \<and> sk_sock c \<notin> open_fds (tw_net tw) \<and>
    map sc_tasks (tw_workers tw') = (map sc_tasks (tw_workers tw))
      [k := sc_tasks (tw_workers tw ! k) @ [ScheduleTask None (Some (HandleClient_task (length (tw_socks tw)))) (- 1)]] \<and>
    GetRecvTimeout (hooked_api env) (tw_net tw') c = uint (ts_recv_timeout sv)"
proof -
  obtain tw' where r: "StartAccept_round (hooked_api env) tw sv a = Inr (True, tw')"
    "tw_net tw' = SetRecvTimeout (hooked_api env) w c (sint (ts_recv_timeout sv))" "tw_socks tw' = tw_socks tw @ [c]"
    "map sc_tasks (tw_workers tw') = (map sc_tasks (tw_workers tw))
      [k := sc_tasks (tw_workers tw ! k) @ [ScheduleTask None (Some (HandleClient_task (length (tw_socks tw)))) (- 1)]]"
    using accept_round [OF assms(1, 2, 3, 5)] by blast
  note v = small_timeout [OF assms(4)]
  obtain ctx where "fd_lookup (hw_fm w) (sk_sock c) = Some ctx" using accept_managed [OF assms(5)] by blast
  from timeout_read_back(1) [OF this, of "sint (ts_recv_timeout sv)" env] v r(2)
  have t: "GetRecvTimeout (hooked_api env) (tw_net tw') c = uint (ts_recv_timeout sv)" by simp
  have c: "IsValid c" "sk_sock c \<notin> open_fds (tw_net tw)"
    using hooked.accept_owned [OF assms(5)] owned_valid(1) [of c] by auto
  show ?thesis using r t c by (intro exI [of _ tw']) simp
qed

definition accept_world :: "hook_world tcp_world" where
  "accept_world = \<lparr>tw_net = plain_world, tw_socks = [(CreateTCPSocket AF_INET)\<lparr>sk_sock := 2\<rparr>],
     tw_workers = [\<lparr>sc_name = ''io'', sc_threads = [], sc_tasks = [], sc_thread_ids = [], sc_thread_count = 1, sc_active = 0, sc_idle = 0,
       sc_use_caller = False, sc_root_fiber = False, sc_root_thread = - 1, sc_stopping = False\<rparr>], tw_accepting = [0]\<rparr>"

definition accept_server :: tcp_server where
  "accept_server = (TcpServer (Some 0) (Some 0) tcp_server_read_timeout)\<lparr>ts_socks := [0], ts_stop := False\<rparr>"

theorem tcp_accept_hands_over_witness:
  "\<exists>c tw'. StartAccept_round (hooked_api plain_env) accept_world accept_server 0 = Inr (True, tw') \<and>
     GetRecvTimeout (hooked_api plain_env) (tw_net tw') c = 120000"
proof -
  have "case Socket_accept (hooked_api plain_env) (tw_net accept_world) (tw_socks accept_world ! 0) of
      (None, _) \<Rightarrow> False | (Some _, _) \<Rightarrow> True" by code_simp
  then obtain c w where a: "Socket_accept (hooked_api plain_env) (tw_net accept_world) (tw_socks accept_world ! 0) = (Some c, w)"
    by (auto split: prod.splits option.splits)
  have "\<not> ts_stop accept_server" "ts_io_worker accept_server = Some 0" "0 < length (tw_workers accept_world)"
    "ts_recv_timeout accept_server < 2 ^ 31 * 1000" "uint (ts_recv_timeout accept_server) = 120000"
    by (simp_all add: accept_server_def accept_world_def TcpServer_def tcp_server_read_timeout_def)
  with tcp_accept_hands_over [OF this(1-4) a] show ?thesis by auto
qed



end
