(* ===== verification/Lexical_Cast.thy ===== *)
theory Lexical_Cast
  imports Std_Set Std_String
begin

text \<open>
  The conversions between strings and the values of configuration variables (\<open>LexicalCast\<close> of \<open>config/config.h\<close>). The conversions of
  scalars (\<open>boost::lexical_cast\<close>) and the YAML library are arguments: reading a document, writing a node, and the two ways of
  walking over a node. A conversion that throws gives no value.
\<close>

section \<open>Nodes and the library\<close>

datatype yaml = YNull | Scalar string | Sequence "yaml list" | YMap "(string \<times> yaml) list"

text \<open>
  \<open>y_items\<close> are the nodes \<open>node[0], ..., node[size - 1]\<close>, \<open>y_pairs\<close> what iterating over a node gives as \<open>first.Scalar()\<close> and \<open>second\<close>.
\<close>

record yaml_lib =
  y_load :: "string \<Rightarrow> yaml option"
  y_emit :: "yaml \<Rightarrow> string"
  y_items :: "yaml \<Rightarrow> yaml list option"
  y_pairs :: "yaml \<Rightarrow> (string \<times> yaml) list option"

type_synonym 'a from_str = "string \<Rightarrow> 'a option"
type_synonym 'a to_str = "'a \<Rightarrow> string option"

section \<open>From strings\<close>

text \<open>The loop over the items, with the container's way to take in an element.\<close>

fun cast_items :: "yaml_lib \<Rightarrow> 'a from_str \<Rightarrow> ('a \<Rightarrow> 'c \<Rightarrow> 'c) \<Rightarrow> yaml list \<Rightarrow> 'c \<Rightarrow> 'c option" where
  "cast_items lib f put [] vec = Some vec"
| "cast_items lib f put (n # ns) vec =
     (case f (y_emit lib n) of None \<Rightarrow> None | Some x \<Rightarrow> cast_items lib f put ns (put x vec))"

definition items_from :: "yaml_lib \<Rightarrow> 'a from_str \<Rightarrow> ('a \<Rightarrow> 'a list \<Rightarrow> 'a list) \<Rightarrow> string \<Rightarrow> 'a list option" where
  "items_from lib f put v =
     (case y_load lib v of
        None \<Rightarrow> None
      | Some node \<Rightarrow> (case y_items lib node of None \<Rightarrow> None | Some ns \<Rightarrow> cast_items lib f put ns []))"

definition push_back :: "'a \<Rightarrow> 'a list \<Rightarrow> 'a list" where
  "push_back x xs = xs @ [x]"

definition hash_insert :: "'a \<Rightarrow> 'a list \<Rightarrow> 'a list" where
  "hash_insert x xs = (if x \<in> set xs then xs else xs @ [x])"

definition vector_from_string :: "yaml_lib \<Rightarrow> 'a from_str \<Rightarrow> 'a list from_str" where
  "vector_from_string lib f v = items_from lib f push_back v"

definition list_from_string :: "yaml_lib \<Rightarrow> 'a from_str \<Rightarrow> 'a list from_str" where
  "list_from_string lib f v = items_from lib f push_back v"

text \<open>A \<open>std::set\<close> as its elements in order, a \<open>std::unordered_set\<close> in the order of insertion.\<close>

definition set_from_string :: "('a \<Rightarrow> 'a \<Rightarrow> bool) \<Rightarrow> yaml_lib \<Rightarrow> 'a from_str \<Rightarrow> 'a list from_str" where
  "set_from_string lt lib f v = items_from lib f (set_insert lt) v"

definition unordered_set_from_string :: "yaml_lib \<Rightarrow> 'a from_str \<Rightarrow> 'a list from_str" where
  "unordered_set_from_string lib f v = items_from lib f hash_insert v"

text \<open>\<open>insert\<close> of a map keeps the value a key already has.\<close>

fun cast_pairs :: "yaml_lib \<Rightarrow> 'a from_str \<Rightarrow> (string \<times> 'a \<Rightarrow> 'c \<Rightarrow> 'c) \<Rightarrow> (string \<times> yaml) list \<Rightarrow> 'c \<Rightarrow> 'c option" where
  "cast_pairs lib f put [] vec = Some vec"
| "cast_pairs lib f put ((k, n) # ps) vec =
     (case f (y_emit lib n) of None \<Rightarrow> None | Some x \<Rightarrow> cast_pairs lib f put ps (put (k, x) vec))"

definition pairs_from :: "yaml_lib \<Rightarrow> 'a from_str \<Rightarrow> (string \<times> 'a \<Rightarrow> (string \<times> 'a) list \<Rightarrow> (string \<times> 'a) list) \<Rightarrow>
    string \<Rightarrow> (string \<times> 'a) list option" where
  "pairs_from lib f put v =
     (case y_load lib v of
        None \<Rightarrow> None
      | Some node \<Rightarrow> (case y_pairs lib node of None \<Rightarrow> None | Some ps \<Rightarrow> cast_pairs lib f put ps []))"

text \<open>The order of \<open>std::string\<close>: by unsigned characters, a proper prefix first.\<close>

fun str_less :: "string \<Rightarrow> string \<Rightarrow> bool" where
  "str_less [] [] = False"
| "str_less [] (d # ds) = True"
| "str_less (c # cs) [] = False"
| "str_less (c # cs) (d # ds) \<longleftrightarrow> (of_char c :: nat) < of_char d \<or> c = d \<and> str_less cs ds"

definition key_less :: "string \<times> 'a \<Rightarrow> string \<times> 'a \<Rightarrow> bool" where
  "key_less p q \<longleftrightarrow> str_less (fst p) (fst q)"

definition hash_map_insert :: "string \<times> 'a \<Rightarrow> (string \<times> 'a) list \<Rightarrow> (string \<times> 'a) list" where
  "hash_map_insert p ps = (if fst p \<in> fst ` set ps then ps else ps @ [p])"

definition map_from_string :: "yaml_lib \<Rightarrow> 'a from_str \<Rightarrow> (string \<times> 'a) list from_str" where
  "map_from_string lib f v = pairs_from lib f (set_insert key_less) v"

definition unordered_map_from_string :: "yaml_lib \<Rightarrow> 'a from_str \<Rightarrow> (string \<times> 'a) list from_str" where
  "unordered_map_from_string lib f v = pairs_from lib f hash_map_insert v"

section \<open>To strings\<close>

text \<open>The node of one element: the YAML the element's own string is.\<close>

definition node_of :: "yaml_lib \<Rightarrow> 'a to_str \<Rightarrow> 'a \<Rightarrow> yaml option" where
  "node_of lib t x = (case t x of None \<Rightarrow> None | Some s \<Rightarrow> y_load lib s)"

fun push_nodes :: "yaml_lib \<Rightarrow> 'a to_str \<Rightarrow> 'a list \<Rightarrow> yaml list \<Rightarrow> yaml option" where
  "push_nodes lib t [] ns = Some (Sequence ns)"
| "push_nodes lib t (x # xs) ns =
     (case node_of lib t x of None \<Rightarrow> None | Some n \<Rightarrow> push_nodes lib t xs (ns @ [n]))"

definition items_to :: "yaml_lib \<Rightarrow> 'a to_str \<Rightarrow> 'a list \<Rightarrow> string option" where
  "items_to lib t v = map_option (y_emit lib) (push_nodes lib t v [])"

definition vector_to_string :: "yaml_lib \<Rightarrow> 'a to_str \<Rightarrow> 'a list to_str" where
  "vector_to_string lib t v = items_to lib t v"

definition list_to_string :: "yaml_lib \<Rightarrow> 'a to_str \<Rightarrow> 'a list to_str" where
  "list_to_string lib t v = items_to lib t v"

definition set_to_string :: "yaml_lib \<Rightarrow> 'a to_str \<Rightarrow> 'a list to_str" where
  "set_to_string lib t v = items_to lib t v"

definition unordered_set_to_string :: "yaml_lib \<Rightarrow> 'a to_str \<Rightarrow> 'a list to_str" where
  "unordered_set_to_string lib t v = items_to lib t v"

text \<open>The keys of a map are different, so each assignment \<open>node[key] = ...\<close> adds a pair.\<close>

fun push_pairs :: "yaml_lib \<Rightarrow> 'a to_str \<Rightarrow> (string \<times> 'a) list \<Rightarrow> (string \<times> yaml) list \<Rightarrow> yaml option" where
  "push_pairs lib t [] ps = Some (YMap ps)"
| "push_pairs lib t ((k, x) # xs) ps =
     (case node_of lib t x of None \<Rightarrow> None | Some n \<Rightarrow> push_pairs lib t xs (ps @ [(k, n)]))"

definition map_to_string :: "yaml_lib \<Rightarrow> 'a to_str \<Rightarrow> (string \<times> 'a) list to_str" where
  "map_to_string lib t v = map_option (y_emit lib) (push_pairs lib t v [])"

definition unordered_map_to_string :: "yaml_lib \<Rightarrow> 'a to_str \<Rightarrow> (string \<times> 'a) list to_str" where
  "unordered_map_to_string lib t v = map_option (y_emit lib) (push_pairs lib t v [])"

section \<open>Values that survive the conversion\<close>

text \<open>
  A value is faithful to a pair of conversions when its string is a YAML document that, written again, gives the value back: what
  being an element of a container asks of it.
\<close>

definition faithful :: "yaml_lib \<Rightarrow> 'a from_str \<Rightarrow> 'a to_str \<Rightarrow> 'a \<Rightarrow> bool" where
  "faithful lib f t x \<longleftrightarrow> (case node_of lib t x of None \<Rightarrow> False | Some n \<Rightarrow> f (y_emit lib n) = Some x)"

text \<open>What is asked of the library for one node: it reads what it wrote, and walks over the items or pairs in their order.\<close>

definition node_ok :: "yaml_lib \<Rightarrow> yaml \<Rightarrow> bool" where
  "node_ok lib n \<longleftrightarrow> y_load lib (y_emit lib n) = Some n \<and>
     (case n of Sequence ns \<Rightarrow> y_items lib n = Some ns | YMap ps \<Rightarrow> y_pairs lib n = Some ps | _ \<Rightarrow> True)"

lemma push_nodes_map:
  assumes "map (node_of lib t) xs = map Some ns"
  shows "push_nodes lib t xs ms = Some (Sequence (ms @ ns))"
  using assms by (induction xs arbitrary: ms ns) (auto simp: Cons_eq_map_conv)

lemma push_pairs_map:
  assumes "map (\<lambda>(k, x). (k, node_of lib t x)) xs = map (\<lambda>(k, n). (k, Some n)) ps"
  shows "push_pairs lib t xs ms = Some (YMap (ms @ ps))"
  using assms by (induction xs arbitrary: ms ps) (auto simp: Cons_eq_map_conv)

lemma cast_items_fold:
  assumes "map (node_of lib t) xs = map Some ns" "list_all (faithful lib f t) xs"
  shows "cast_items lib f put ns acc = Some (fold put xs acc)"
  using assms by (induction xs arbitrary: acc ns) (auto simp: Cons_eq_map_conv faithful_def)

lemma cast_pairs_fold:
  assumes "map (\<lambda>(k, x). (k, node_of lib t x)) xs = map (\<lambda>(k, n). (k, Some n)) ps" "list_all (faithful lib f t \<circ> snd) xs"
  shows "cast_pairs lib f put ps acc = Some (fold put xs acc)"
  using assms by (induction xs arbitrary: acc ps) (auto simp: Cons_eq_map_conv faithful_def)

lemma fold_push_back: "fold push_back xs acc = acc @ xs"
  by (induction xs arbitrary: acc) (simp_all add: push_back_def)

lemma fold_hash_insert: "distinct (acc @ xs) \<Longrightarrow> fold hash_insert xs acc = acc @ xs"
  by (induction xs arbitrary: acc) (auto simp: hash_insert_def)

lemma fold_hash_map_insert: "distinct (map fst (acc @ xs)) \<Longrightarrow> fold hash_map_insert xs acc = acc @ xs"
  by (induction xs arbitrary: acc) (auto simp: hash_map_insert_def)

lemma set_insert_last: "(\<forall>y \<in> set ys. lt y x \<and> \<not> lt x y) \<Longrightarrow> set_insert lt x ys = ys @ [x]"
  by (induction ys) auto

lemma fold_set_insert:
  assumes "sorted_wrt (\<lambda>x y. lt x y \<and> \<not> lt y x) (acc @ xs)"
  shows "fold (set_insert lt) xs acc = acc @ xs"
  using assms
proof (induction xs arbitrary: acc)
  case (Cons x xs)
  have "set_insert lt x acc = acc @ [x]" using Cons.prems by (intro set_insert_last) (auto simp: sorted_wrt_append)
  then show ?case using Cons by (simp add: sorted_wrt_append)
qed simp

lemma str_less_trans: "str_less a b \<Longrightarrow> str_less b c \<Longrightarrow> str_less a c"
proof (induction a b arbitrary: c rule: str_less.induct)
  case (2 d ds)
  then show ?case by (cases c) auto
next
  case (4 c cs d ds e)
  then show ?case by (cases e) auto
qed auto

lemma str_less_total: "a \<noteq> b \<Longrightarrow> str_less a b \<or> str_less b a"
  by (induction a b rule: str_less.induct) (auto simp: linorder_neq_iff)

interpretation string_order: strict_order str_less
proof
  show "\<not> str_less a a" for a by (induction a) auto
qed (blast intro: str_less_trans dest: str_less_total)+


lemma items_roundtrip:
  assumes "map (node_of lib t) xs = map Some ns" "list_all (faithful lib f t) xs" "node_ok lib (Sequence ns)" "fold put xs [] = xs"
  shows "faithful lib (items_from lib f put) (items_to lib t) xs"
  using assms(3, 4) cast_items_fold [OF assms(1, 2), of put "[]"] push_nodes_map [OF assms(1)]
  by (simp add: faithful_def items_from_def items_to_def node_of_def node_ok_def)

lemma pairs_roundtrip:
  assumes "map (\<lambda>(k, x). (k, node_of lib t x)) xs = map (\<lambda>(k, n). (k, Some n)) ps" "list_all (faithful lib f t \<circ> snd) xs"
    "node_ok lib (YMap ps)" "fold put xs [] = xs"
  shows "faithful lib (pairs_from lib f put) (\<lambda>v. map_option (y_emit lib) (push_pairs lib t v [])) xs"
  using assms(3, 4) cast_pairs_fold [OF assms(1, 2), of put "[]"] push_pairs_map [OF assms(1)]
  by (simp add: faithful_def pairs_from_def node_of_def node_ok_def)

section \<open>Properties\<close>

text \<open>
  The sequence containers survive the conversion to a string and back when their elements do, and are then again values that may be
  elements of a container, so that this holds of nested ones: vectors and lists in any order, sets in their order, unordered sets.
\<close>

theorem sequence_cast_roundtrip:
  assumes "map (node_of lib t) xs = map Some ns" "list_all (faithful lib f t) xs" "node_ok lib (Sequence ns)"
  shows "faithful lib (vector_from_string lib f) (vector_to_string lib t) xs \<and>
    faithful lib (list_from_string lib f) (list_to_string lib t) xs \<and>
    (sorted_wrt (\<lambda>x y. lt x y \<and> \<not> lt y x) xs \<longrightarrow> faithful lib (set_from_string lt lib f) (set_to_string lib t) xs) \<and>
    (distinct xs \<longrightarrow> faithful lib (unordered_set_from_string lib f) (unordered_set_to_string lib t) xs)"
proof -
  note defs = vector_from_string_def vector_to_string_def list_from_string_def list_to_string_def set_from_string_def set_to_string_def
    unordered_set_from_string_def unordered_set_to_string_def
  show ?thesis
    unfolding defs [abs_def]
    using items_roundtrip [OF assms, of push_back] items_roundtrip [OF assms, of "set_insert lt"] items_roundtrip [OF assms, of hash_insert]
      fold_push_back [of xs "[]"] fold_set_insert [of lt "[]" xs] fold_hash_insert [of "[]" xs]
    by simp
qed

text \<open>
  The map containers survive the conversion when the values in them do: ordered maps with their keys in order, unordered ones with
  different keys; keys are written as they are.
\<close>

theorem map_cast_roundtrip:
  assumes "map (\<lambda>(k, x). (k, node_of lib t x)) xs = map (\<lambda>(k, n). (k, Some n)) ps" "list_all (faithful lib f t \<circ> snd) xs"
    "node_ok lib (YMap ps)" "sorted_wrt str_less (map fst xs)"
  shows "faithful lib (map_from_string lib f) (map_to_string lib t) xs \<and>
    faithful lib (unordered_map_from_string lib f) (unordered_map_to_string lib t) xs"
proof -
  note defs = map_from_string_def map_to_string_def unordered_map_from_string_def unordered_map_to_string_def
  have "sorted_wrt (\<lambda>x y. key_less x y \<and> \<not> key_less y x) xs"
    using assms(4) string_order.asym unfolding sorted_wrt_map by (auto simp: key_less_def elim: sorted_wrt_mono_rel [rotated])
  then have 1: "fold (set_insert key_less) xs [] = xs" using fold_set_insert [of key_less "[]" xs] by simp
  have "distinct (map fst xs)"
    using assms(4) by (rule string_order.sorted_distinct)
  then have 2: "fold hash_map_insert xs [] = xs" using fold_hash_map_insert [of "[]" xs] by simp
  show ?thesis
    unfolding defs [abs_def]
    using pairs_roundtrip [OF assms(1, 2, 3) 1] pairs_roundtrip [OF assms(1, 2, 3) 2] by simp
qed

text \<open>A library for the documents of one value, with numbers as strings.\<close>

definition small_lib :: yaml_lib where
  "small_lib = \<lparr>y_load = map_of [(''1'', Scalar ''1''), (''2'', Scalar ''2''), (''[1, 2]'', Sequence [Scalar ''1'', Scalar ''2'']),
       (''{a: 1, b: 2}'', YMap [(''a'', Scalar ''1''), (''b'', Scalar ''2'')])],
     y_emit = (\<lambda>n. case n of Scalar s \<Rightarrow> s | Sequence _ \<Rightarrow> ''[1, 2]'' | _ \<Rightarrow> ''{a: 1, b: 2}''),
     y_items = (\<lambda>n. case n of Sequence ns \<Rightarrow> Some ns | _ \<Rightarrow> Some []),
     y_pairs = (\<lambda>n. case n of YMap ps \<Rightarrow> Some ps | _ \<Rightarrow> None)\<rparr>"

theorem sequence_cast_roundtrip_witness:
  "faithful small_lib (vector_from_string small_lib Some) (vector_to_string small_lib Some) [''1'', ''2'']"
  by (rule sequence_cast_roundtrip [THEN conjunct1, of _ _ _ "[Scalar ''1'', Scalar ''2'']"])
    (simp_all add: small_lib_def node_of_def faithful_def node_ok_def)

theorem map_cast_roundtrip_witness:
  "faithful small_lib (map_from_string small_lib Some) (map_to_string small_lib Some) [(''a'', ''1''), (''b'', ''2'')]"
  by (rule map_cast_roundtrip [THEN conjunct1, of _ _ _ "[(''a'', Scalar ''1''), (''b'', Scalar ''2'')]"])
    (simp_all add: small_lib_def node_of_def faithful_def node_ok_def)

end
