(* ===== verification/Env.thy ===== *)
theory Env
  imports Std_String
begin

text \<open>
  The environment of the program (\<open>env/env.h\<close>, \<open>env/env.cc\<close>): the options of the command line, the help texts, the variables of the
  process and absolute paths. The environment of the process and the link \<open>/proc/<pid>/exe\<close> are given by the system.
\<close>

section \<open>State and operations\<close>

record env =
  en_args :: "string \<rightharpoonup> string"
  en_helps :: "(string \<times> string) list"
  en_program :: string
  en_exe :: string
  en_cwd :: string

definition Env :: env where
  "Env = \<lparr>en_args = Map.empty, en_helps = [], en_program = '''', en_exe = '''', en_cwd = ''''\<rparr>"

definition Env_Add :: "env \<Rightarrow> string \<Rightarrow> string \<Rightarrow> env" where
  "Env_Add e key val = e\<lparr>en_args := (en_args e)(key \<mapsto> val)\<rparr>"

definition Env_Has :: "env \<Rightarrow> string \<Rightarrow> bool" where
  "Env_Has e key \<longleftrightarrow> en_args e key \<noteq> None"

definition Env_Del :: "env \<Rightarrow> string \<Rightarrow> env" where
  "Env_Del e key = e\<lparr>en_args := (en_args e)(key := None)\<rparr>"

definition Env_Get :: "env \<Rightarrow> string \<Rightarrow> string \<Rightarrow> string" where
  "Env_Get e key default_value = (case en_args e key of Some v \<Rightarrow> v | None \<Rightarrow> default_value)"

text \<open>The loop over the arguments: \<open>now_key\<close> is the option still without its value.\<close>

fun parse_args :: "env \<Rightarrow> string option \<Rightarrow> string list \<Rightarrow> bool \<times> env" where
  "parse_args e now_key [] = (True, case now_key of Some key \<Rightarrow> Env_Add e key '''' | None \<Rightarrow> e)"
| "parse_args e now_key (arg # args) =
     (if arg \<noteq> [] \<and> hd arg = CHR ''-'' then
        if length arg > 1 then
          parse_args (case now_key of Some key \<Rightarrow> Env_Add e key '''' | None \<Rightarrow> e) (Some (tl arg)) args
        else (False, e)
      else case now_key of
        Some key \<Rightarrow> parse_args (Env_Add e key arg) None args
      | None \<Rightarrow> (False, e))"

text \<open>
  \<open>link\<close> is what the link points to, if it can be read. It is read into a buffer of 1024 bytes filled with zeroes and then taken as a
  string that a zero byte ends.
\<close>

definition Env_Init :: "env \<Rightarrow> string option \<Rightarrow> string list \<Rightarrow> (bool \<times> env) result" where
  "Env_Init e link argv =
     (let path = (case link of Some l \<Rightarrow> take 1024 l | None \<Rightarrow> '''') in
      if length path = 1024 then Inl Out_Of_Bounds
      else
        let cwd = (case rfind_char (CHR ''/'') path of Some pos \<Rightarrow> take pos path | None \<Rightarrow> path) @ ''/'' in
        case argv of
          [] \<Rightarrow> Inl Null_Deref
        | program # args \<Rightarrow> Inr (parse_args (e\<lparr>en_exe := path, en_cwd := cwd, en_program := program\<rparr>) None args))"

definition RemoveHelp :: "env \<Rightarrow> string \<Rightarrow> env" where
  "RemoveHelp e key = e\<lparr>en_helps := filter (\<lambda>(k, _). k \<noteq> key) (en_helps e)\<rparr>"

definition AddHelp :: "env \<Rightarrow> string \<Rightarrow> string \<Rightarrow> env" where
  "AddHelp e key desc = (let e' = RemoveHelp e key in e'\<lparr>en_helps := en_helps e' @ [(key, desc)]\<rparr>)"

definition PrintHelp :: "env \<Rightarrow> string" where
  "PrintHelp e =
     ''Usage: '' @ en_program e @ '' [options]'' @ [CHR 0x0A] @
     concat (map (\<lambda>(k, d). ''    -'' @ k @ '' : '' @ d @ [CHR 0x0A]) (en_helps e))"

text \<open>The environment of the process, as \<open>setenv\<close> and \<open>getenv\<close> of the C library treat it; names end at a zero byte.\<close>

definition c_str :: "string \<Rightarrow> string" where
  "c_str = takeWhile (\<lambda>c. c \<noteq> CHR 0x00)"

definition SetEnv :: "(string \<rightharpoonup> string) \<Rightarrow> string \<Rightarrow> string \<Rightarrow> bool \<times> (string \<rightharpoonup> string)" where
  "SetEnv vars key val =
     (if c_str key = [] \<or> CHR ''='' \<in> set (c_str key) then (False, vars) else (True, vars(c_str key \<mapsto> c_str val)))"

definition GetEnv :: "(string \<rightharpoonup> string) \<Rightarrow> string \<Rightarrow> string \<Rightarrow> string" where
  "GetEnv vars key default_value = (case vars (c_str key) of Some v \<Rightarrow> v | None \<Rightarrow> default_value)"

definition GetAbsolutePath :: "env \<Rightarrow> string \<Rightarrow> string" where
  "GetAbsolutePath e path = (if path = [] then ''/'' else if hd path = CHR ''/'' then path else en_cwd e @ path)"

text \<open>\<open>work_path\<close> is the configuration variable \<open>server.work_path\<close>, if there is one.\<close>

definition GetAbsoluteWorkPath :: "string option \<Rightarrow> string \<Rightarrow> string result" where
  "GetAbsoluteWorkPath work_path path =
     (if path = [] then Inr ''/''
      else if hd path = CHR ''/'' then Inr path
      else case work_path of None \<Rightarrow> Inl Null_Deref | Some w \<Rightarrow> Inr (w @ ''/'' @ path))"

definition GetConfigPath :: "env \<Rightarrow> string" where
  "GetConfigPath e = GetAbsolutePath e (Env_Get e ''c'' ''conf'')"

section \<open>The command line\<close>

text \<open>The grammar: options with or without a value, where a value does not start with a dash.\<close>

definition option_ok :: "string \<times> string option \<Rightarrow> bool" where
  "option_ok o' = (case o' of (k, v) \<Rightarrow> k \<noteq> [] \<and> (case v of Some v \<Rightarrow> \<not> (v \<noteq> [] \<and> hd v = CHR ''-'') | None \<Rightarrow> True))"

definition option_words :: "string \<times> string option \<Rightarrow> string list" where
  "option_words o' = (case o' of (k, v) \<Rightarrow> (CHR ''-'' # k) # (case v of Some v \<Rightarrow> [v] | None \<Rightarrow> []))"

definition add_option :: "string \<times> string option \<Rightarrow> env \<Rightarrow> env" where
  "add_option o' e = (case o' of (k, v) \<Rightarrow> Env_Add e k (case v of Some v \<Rightarrow> v | None \<Rightarrow> ''''))"

lemma option_simps [simp]:
  "option_ok (k, None) \<longleftrightarrow> k \<noteq> []" "option_ok (k, Some v) \<longleftrightarrow> k \<noteq> [] \<and> (v \<noteq> [] \<longrightarrow> hd v \<noteq> CHR ''-'')"
  "option_words (k, None) = [CHR ''-'' # k]" "option_words (k, Some v) = [CHR ''-'' # k, v]"
  by (auto simp: option_ok_def option_words_def)

lemma parse_args_words:
  assumes "list_all option_ok opts"
  shows "parse_args e now_key (concat (map option_words opts)) =
    (True, fold add_option opts (case now_key of Some key \<Rightarrow> Env_Add e key '''' | None \<Rightarrow> e))"
  using assms
proof (induction opts arbitrary: e now_key)
  case (Cons o' opts)
  obtain k v where o': "o' = (k, v)" by fastforce
  with Cons show ?case by (cases v) (auto simp: add_option_def)
qed simp

lemma parse_args_complete:
  assumes "parse_args e now_key ws = (True, e')" "now_key \<noteq> Some []"
  shows "\<exists>opts. list_all option_ok opts \<and>
    (case now_key of Some key \<Rightarrow> (CHR ''-'' # key) # ws | None \<Rightarrow> ws) = concat (map option_words opts)"
  using assms
proof (induction e now_key ws rule: parse_args.induct)
  case (1 e now_key)
  show ?case
  proof (cases now_key)
    case (Some key)
    with 1 show ?thesis by (intro exI [of _ "[(key, None)]"]) simp
  qed (auto intro: exI [of _ "[]"])
next
  case (2 e now_key arg args)
  show ?case
  proof (cases "arg \<noteq> [] \<and> hd arg = CHR ''-''")
    case True
    then have arg: "arg = CHR ''-'' # tl arg" "length arg > 1" "tl arg \<noteq> []" using 2(3) by (cases arg; auto split: if_splits)+
    from 2(1) [OF True arg(2)] 2(3) True arg
    obtain opts where "list_all option_ok opts" "arg # args = concat (map option_words opts)" by auto
    then show ?thesis using 2(4)
      by (cases now_key) (auto intro: exI [of _ opts] exI [of _ "(the now_key, None) # opts"])
  next
    case False
    then obtain key where key: "now_key = Some key" using 2(3) by (cases now_key) auto
    from 2(2) [OF False key] 2(3) False key
    obtain opts where "list_all option_ok opts" "args = concat (map option_words opts)" by auto
    then show ?thesis using key False 2(4)
      by (intro exI [of _ "(key, Some arg) # opts"]) auto
  qed
qed

lemma fold_add_option_fields [simp]:
  "en_helps (fold add_option opts e) = en_helps e" "en_exe (fold add_option opts e) = en_exe e"
  "en_cwd (fold add_option opts e) = en_cwd e" "en_program (fold add_option opts e) = en_program e"
  by (induction opts arbitrary: e) (simp_all add: add_option_def Env_Add_def split: prod.splits)

lemma fold_add_option_args:
  "en_args (fold add_option opts e) = en_args e ++ map_of (rev (map (\<lambda>(k, v). (k, case v of Some v \<Rightarrow> v | None \<Rightarrow> '''')) opts))"
  by (induction opts arbitrary: e) (auto simp: add_option_def Env_Add_def map_add_upd_left split: prod.splits)

lemma split_last_unique:
  assumes "xs @ c # ys = xs' @ c # ys'" "c \<notin> set ys" "c \<notin> set ys'"
  shows "xs = xs'"
proof -
  have t: "takeWhile (\<lambda>x. x \<noteq> c) (rev zs @ c # us) = rev zs" if "c \<notin> set zs" for zs us
    using that by (subst takeWhile_append2) auto
  have "rev ys @ c # rev xs = rev ys' @ c # rev xs'" using arg_cong [OF assms(1), of rev] by simp
  then have "rev ys = rev ys'" using t [OF assms(2)] t [OF assms(3)] by metis
  then show ?thesis using assms(1) by simp
qed

section \<open>Properties\<close>

text \<open>
  (C39) The command line is accepted exactly when it is a sequence of options, each a dash and a name, with or without a value that does not
  start with a dash; then the variables of the environment are updated with these options, the last one of a name counting, and an option
  without value counting as the empty string.
\<close>

theorem env_command_line:
  assumes "length link < 1024"
  shows "Env_Init e (Some link) (program # args) = Inr (True, e') \<longleftrightarrow>
    (\<exists>opts. list_all option_ok opts \<and> args = concat (map option_words opts) \<and>
      e' = e\<lparr>en_exe := link, en_cwd := (case rfind_char (CHR ''/'') link of Some pos \<Rightarrow> take pos link | None \<Rightarrow> link) @ ''/'',
        en_program := program,
        en_args := en_args e ++ map_of (rev (map (\<lambda>(k, v). (k, case v of Some v \<Rightarrow> v | None \<Rightarrow> '''')) opts))\<rparr>)"
proof -
  define e1 where "e1 = e\<lparr>en_exe := link, en_cwd := (case rfind_char (CHR ''/'') link of Some pos \<Rightarrow> take pos link | None \<Rightarrow> link) @ ''/'',
    en_program := program\<rparr>"
  have i: "Env_Init e (Some link) (program # args) = Inr (parse_args e1 None args)"
    using assms by (simp add: Env_Init_def e1_def)
  have f: "fold add_option opts e1 =
      e1\<lparr>en_args := en_args e ++ map_of (rev (map (\<lambda>(k, v). (k, case v of Some v \<Rightarrow> v | None \<Rightarrow> '''')) opts))\<rparr>" for opts
    by (rule env.equality) (simp_all add: fold_add_option_args, simp_all add: e1_def)
  have "parse_args e1 None args = (True, e') \<longleftrightarrow>
      (\<exists>opts. list_all option_ok opts \<and> args = concat (map option_words opts) \<and> e' = fold add_option opts e1)"
  proof
    assume p: "parse_args e1 None args = (True, e')"
    then obtain opts where o: "list_all option_ok opts" "args = concat (map option_words opts)"
      using parse_args_complete [of e1 None args e'] by auto
    with p parse_args_words [OF o(1), of e1 None] show "\<exists>opts. list_all option_ok opts \<and> args = concat (map option_words opts) \<and>
        e' = fold add_option opts e1"
      by (intro exI [of _ opts]) simp
  qed (use parse_args_words [of _ e1 None] in auto)
  then show ?thesis unfolding i f by (simp add: e1_def)
qed

theorem env_command_line_witness:
  "\<exists>e'. Env_Init Env (Some ''/opt/srv/main'') [''main'', ''-d'', ''-c'', ''etc''] = Inr (True, e') \<and> Env_Get e' ''c'' ''conf'' = ''etc''"
proof -
  let ?opts = "[(''d'', None), (''c'', Some ''etc'')]"
  have "length ''/opt/srv/main'' < 1024" by simp
  from env_command_line [OF this, of Env "''main''" "concat (map option_words ?opts)"]
  have "\<exists>e'. Env_Init Env (Some ''/opt/srv/main'') (''main'' # concat (map option_words ?opts)) = Inr (True, e') \<and>
      en_args e' ''c'' = Some ''etc''"
    by (auto intro!: exI [of _ ?opts])
  then show ?thesis by (auto simp: Env_Get_def)
qed

text \<open>
  The directory the program takes as its working directory is that of its executable: a relative path made absolute lies in it, in
  particular the executable's own file name gives the executable, and the configuration path is \<open>conf\<close> there unless \<open>-c\<close> says otherwise.
\<close>

theorem env_paths:
  assumes "length link < 1024" "link = dir @ ''/'' @ base" "CHR ''/'' \<notin> set base" "base \<noteq> []"
    "Env_Init e (Some link) (program # args) = Inr (r, e')"
  shows "GetAbsolutePath e' base = link \<and> en_cwd e' = dir @ ''/'' \<and>
    (en_args e' ''c'' = None \<longrightarrow> GetConfigPath e' = dir @ ''/conf'') \<and>
    (\<forall>p. en_args e' ''c'' = Some (CHR ''/'' # p) \<longrightarrow> GetConfigPath e' = CHR ''/'' # p)"
proof -
  let ?cwd = "(case rfind_char (CHR ''/'') link of Some pos \<Rightarrow> take pos link | None \<Rightarrow> link) @ ''/''"
  obtain n where n: "rfind_char (CHR ''/'') link = Some n"
    using rfind_char_split(1) [of "CHR ''/''" link] assms(2) by (cases "rfind_char (CHR ''/'') link") auto
  from rfind_char_split(2) [OF n] have "take n link @ CHR ''/'' # drop (Suc n) link = link" "CHR ''/'' \<notin> set (drop (Suc n) link)" by auto
  with split_last_unique [of "take n link" _ "drop (Suc n) link" dir base] assms(2, 3) have "take n link = dir" by simp
  with n have cwd: "?cwd = dir @ ''/''" by simp
  have keeps: "en_cwd (snd (parse_args e1 k as)) = en_cwd e1" for e1 k as
    by (induction e1 k as rule: parse_args.induct) (auto simp: Env_Add_def split: option.splits)
  have "en_cwd e' = ?cwd"
    using keeps [of "e\<lparr>en_exe := link, en_cwd := ?cwd, en_program := program\<rparr>" None args] assms(1, 5) by (simp add: Env_Init_def)
  with cwd have c: "en_cwd e' = dir @ ''/''" by simp
  moreover have "hd base \<noteq> CHR ''/''" using assms(3, 4) by (cases base) auto
  ultimately show ?thesis using assms(2, 4) by (simp add: GetAbsolutePath_def GetConfigPath_def Env_Get_def)
qed

theorem env_paths_witness:
  "\<exists>r e'. Env_Init Env (Some ''/opt/srv/main'') [''main'', ''-d''] = Inr (r, e') \<and> GetAbsolutePath e' ''main'' = ''/opt/srv/main''"
proof -
  let ?l = "''/opt/srv/main''"
  obtain r e' where i: "Env_Init Env (Some ?l) [''main'', ''-d''] = Inr (r, e')"
    by (simp add: Env_Init_def Let_def)
  have "length ?l < 1024" "?l = ''/opt/srv'' @ ''/'' @ ''main''" "CHR ''/'' \<notin> set ''main''" "''main'' \<noteq> []" by simp_all
  from env_paths [OF this i] i show ?thesis by blast
qed

text \<open>
  A help text added for an option replaces the one it had: an option never has two, and the others keep their text and order.
\<close>

theorem help_unique:
  assumes "distinct (map fst (en_helps e))"
  shows "distinct (map fst (en_helps (AddHelp e key desc))) \<and> map_of (en_helps (AddHelp e key desc)) = (map_of (en_helps e))(key \<mapsto> desc) \<and>
    map_of (en_helps (RemoveHelp e key)) = (map_of (en_helps e))(key := None)"
proof -
  have k: "key \<notin> fst ` set (en_helps (RemoveHelp e key))" by (auto simp: RemoveHelp_def)
  have "map_of (filter (\<lambda>(k, _). k \<noteq> key) hs) = (map_of hs)(key := None)" for hs :: "(string \<times> string) list"
    by (induction hs) (auto simp: fun_eq_iff)
  then have "map_of (en_helps (RemoveHelp e key)) = (map_of (en_helps e))(key := None)" by (simp add: RemoveHelp_def)
  moreover have "distinct (map fst (en_helps (RemoveHelp e key)))" using assms by (simp add: RemoveHelp_def distinct_map_filter)
  ultimately show ?thesis using k by (auto simp: AddHelp_def Let_def map_add_def fun_eq_iff split: option.splits)
qed

theorem help_unique_witness:
  "map_of (en_helps (AddHelp (AddHelp Env ''d'' ''run as daemon'') ''d'' ''daemon'')) ''d'' = Some ''daemon''"
  using help_unique [of "AddHelp Env ''d'' ''run as daemon''" "''d''" "''daemon''"] by (simp add: AddHelp_def RemoveHelp_def Env_def)

end
