(* ===== verification/String_Util.thy ===== *)
theory String_Util
  imports Std_String
begin

text \<open>
  Strings and conversions of \<open>util/util.cc\<close>: \<open>StringUtil\<close> (URL encoding, trimming), \<open>TypeUtil\<close>, case
  conversion, the arithmetic of the clocks, and the formatting of a backtrace.
\<close>

section \<open>Tables\<close>

definition uri_chars :: "bool list" where
  "uri_chars =
     replicate 45 False @ [True, True, False] @ replicate 10 True @ [False, False, False, True, False, False] @
     [False] @ replicate 26 True @ [False, False, False, False, True, False] @ replicate 26 True @
     [False, False, False, True, False] @
     replicate 64 False @ replicate 64 False"

definition xdigit_chars :: "nat list" where
  "xdigit_chars =
     replicate 48 0 @ [0, 1, 2, 3, 4, 5, 6, 7, 8, 9] @ replicate 7 0 @ [10, 11, 12, 13, 14, 15] @ replicate 26 0 @
     [10, 11, 12, 13, 14, 15] @ replicate 153 0"

definition hexdigits :: string where
  "hexdigits = ''0123456789ABCDEF''"

definition CHAR_IS_UNRESERVED :: "char \<Rightarrow> bool" where
  "CHAR_IS_UNRESERVED c = uri_chars ! of_char c"

section \<open>URL encoding\<close>

text \<open>
  The loops create the result only at the first character that changes: \<open>ss\<close> is \<open>None\<close> before, and
  \<open>pre\<close> is the part of the string already passed.
\<close>

definition url_escape :: "char \<Rightarrow> bool \<Rightarrow> string" where
  "url_escape c space_as_plus =
     (if c = CHR '' '' \<and> space_as_plus then ''+''
      else [CHR ''%'', hexdigits ! drop_bit 4 (of_char c), hexdigits ! (of_char c AND 0xf)])"

fun url_encode_loop :: "bool \<Rightarrow> string \<Rightarrow> string option \<Rightarrow> string \<Rightarrow> string option" where
  "url_encode_loop space_as_plus pre ss [] = ss"
| "url_encode_loop space_as_plus pre ss (c # cs) =
     (if \<not> CHAR_IS_UNRESERVED c then
        let s = (case ss of None \<Rightarrow> pre | Some s \<Rightarrow> s) in
        url_encode_loop space_as_plus (pre @ [c]) (Some (s @ url_escape c space_as_plus)) cs
      else
        url_encode_loop space_as_plus (pre @ [c]) (case ss of None \<Rightarrow> None | Some s \<Rightarrow> Some (s @ [c])) cs)"

definition UrlEncode :: "string \<Rightarrow> bool \<Rightarrow> string" where
  "UrlEncode str space_as_plus =
     (case url_encode_loop space_as_plus [] None str of None \<Rightarrow> str | Some rt \<Rightarrow> rt)"

definition xdigit_pair :: "char \<Rightarrow> char \<Rightarrow> char" where
  "xdigit_pair a b = char_of (push_bit 4 (xdigit_chars ! of_char a) OR xdigit_chars ! of_char b :: nat)"

fun url_decode_loop :: "bool \<Rightarrow> string \<Rightarrow> string option \<Rightarrow> string \<Rightarrow> string option" where
  "url_decode_loop space_as_plus pre ss [] = ss"
| "url_decode_loop space_as_plus pre ss (c # cs) =
     (if c = CHR ''+'' \<and> space_as_plus then
        let s = (case ss of None \<Rightarrow> pre | Some s \<Rightarrow> s) in
        url_decode_loop space_as_plus (pre @ [c]) (Some (s @ '' '')) cs
      else if c = CHR ''%'' \<and> 2 \<le> length cs \<and> isxdigit (cs ! 0) \<and> isxdigit (cs ! 1) then
        let s = (case ss of None \<Rightarrow> pre | Some s \<Rightarrow> s) in
        url_decode_loop space_as_plus (pre @ c # take 2 cs) (Some (s @ [xdigit_pair (cs ! 0) (cs ! 1)])) (drop 2 cs)
      else
        url_decode_loop space_as_plus (pre @ [c]) (case ss of None \<Rightarrow> None | Some s \<Rightarrow> Some (s @ [c])) cs)"

definition UrlDecode :: "string \<Rightarrow> bool \<Rightarrow> string" where
  "UrlDecode str space_as_plus =
     (case url_decode_loop space_as_plus [] None str of None \<Rightarrow> str | Some rt \<Rightarrow> rt)"

section \<open>Trimming\<close>

definition Trim :: "string \<Rightarrow> string \<Rightarrow> string result" where
  "Trim str delimit =
     (case find_first_not_of str delimit of
        None \<Rightarrow> Inr ''''
      | Some b \<Rightarrow>
          (case find_last_not_of str delimit of
             Some e \<Rightarrow> substr str b (sub64 e b + 1)
           | None \<Rightarrow> substr str b (sub64 (2 ^ 64 - 1) b + 1)))"

definition TrimLeft :: "string \<Rightarrow> string \<Rightarrow> string result" where
  "TrimLeft str delimit =
     (case find_first_not_of str delimit of None \<Rightarrow> Inr '''' | Some b \<Rightarrow> substr_from str b)"

definition TrimRight :: "string \<Rightarrow> string \<Rightarrow> string result" where
  "TrimRight str delimit =
     (case find_last_not_of str delimit of None \<Rightarrow> Inr '''' | Some e \<Rightarrow> substr str 0 e)"

section \<open>Conversions\<close>

definition ToUpper :: "string \<Rightarrow> string" where
  "ToUpper name = map toupper name"

definition ToLower :: "string \<Rightarrow> string" where
  "ToLower name = map tolower name"

text \<open>\<open>strtoull\<close> in base 10: white space, a sign, digits; too large a value saturates, a minus sign negates the word.\<close>

definition strtoull :: "string \<Rightarrow> u64" where
  "strtoull s =
     (let s1 = dropWhile isspace s;
          neg = (s1 \<noteq> [] \<and> hd s1 = CHR ''-'');
          s2 = (if s1 \<noteq> [] \<and> hd s1 \<in> set ''+-'' then tl s1 else s1);
          n = digits_value (takeWhile isdigit s2)
      in if n \<ge> 2 ^ 64 then - 1 else if neg then - of_nat n else of_nat n)"

definition TypeUtil_Atoi :: "string \<Rightarrow> int" where
  "TypeUtil_Atoi str = (if str = [] then 0 else sint (strtoull str))"

definition TypeUtil_ToChar :: "string \<Rightarrow> int" where
  "TypeUtil_ToChar str = (if str = [] then 0 else sint (of_nat (of_char (hd str)) :: u8))"

text \<open>The same on C strings, \<open>None\<close> for a null pointer; a string ends before its first zero character.\<close>

definition TypeUtil_Atoi_c :: "string option \<Rightarrow> int" where
  "TypeUtil_Atoi_c str = (case str of None \<Rightarrow> 0 | Some s \<Rightarrow> sint (strtoull s))"

definition TypeUtil_ToChar_c :: "string option \<Rightarrow> int" where
  "TypeUtil_ToChar_c str =
     (case str of None \<Rightarrow> 0 | Some [] \<Rightarrow> 0 | Some (c # _) \<Rightarrow> sint (of_nat (of_char c) :: u8))"

text \<open>What \<open>vasprintf\<close> allocates is an argument, \<open>None\<close> where it fails.\<close>

definition Formatv :: "string option \<Rightarrow> string" where
  "Formatv buf = (case buf of None \<Rightarrow> '''' | Some s \<Rightarrow> s)"

text \<open>The name the kernel keeps for the calling thread, after \<open>SetThreadName\<close>; it fits the 16 bytes \<open>GetThreadName\<close> reads.\<close>

definition SetThreadName :: "string \<Rightarrow> string" where
  "SetThreadName name = takeWhile (\<lambda>c. c \<noteq> CHR 0x00) (take 15 name)"

section \<open>Clocks\<close>

text \<open>What \<open>clock_gettime\<close> and \<open>gettimeofday\<close> give is an argument; its parts are not negative.\<close>

definition GetElapsedMS :: "int \<Rightarrow> int \<Rightarrow> u64" where
  "GetElapsedMS tv_sec tv_nsec = of_int (tv_sec * 1000 + tv_nsec div 1000000)"

definition GetCurrentMS :: "int \<Rightarrow> int \<Rightarrow> u64" where
  "GetCurrentMS tv_sec tv_usec = of_int tv_sec * 1000 + of_int (tv_usec div 1000)"

definition GetCurrentUS :: "int \<Rightarrow> int \<Rightarrow> u64" where
  "GetCurrentUS tv_sec tv_usec = of_int (tv_sec * 1000) * 1000 + of_int tv_usec"

section \<open>Backtraces\<close>

text \<open>
  The conversions of \<open>sscanf\<close>: \<open>%[...]\<close> matches the longest prefix of characters of the set, up to the width, and fails on none;
  \<open>%s\<close> skips white space first.
\<close>

definition scan_set :: "(char \<Rightarrow> bool) \<Rightarrow> nat option \<Rightarrow> string \<Rightarrow> (string \<times> string) option" where
  "scan_set P width s =
     (let m = takeWhile P s; m = (case width of None \<Rightarrow> m | Some w \<Rightarrow> take w m)
      in if m = [] then None else Some (m, drop (length m) s))"

definition scan_symbol :: "string \<Rightarrow> string option" where
  "scan_symbol str =
     (case scan_set (\<lambda>c. c \<noteq> CHR ''('') None str of
        None \<Rightarrow> None
      | Some (_, s1) \<Rightarrow>
          (case scan_set (\<lambda>c. c \<noteq> CHR ''_'') None s1 of
             None \<Rightarrow> None
           | Some (_, s2) \<Rightarrow> map_option fst (scan_set (\<lambda>c. c \<noteq> CHR '')'' \<and> c \<noteq> CHR ''+'') (Some 255) s2)))"

definition scan_word :: "string \<Rightarrow> string option" where
  "scan_word str = map_option fst (scan_set (\<lambda>c. \<not> isspace c) (Some 255) (dropWhile isspace str))"

text \<open>
  \<open>rt\<close> is a string of 256 characters that the scans write into, each with a terminating zero. \<open>cxa_demangle\<close> is the C++ runtime's.
\<close>

definition demangle :: "(string \<Rightarrow> string option) \<Rightarrow> string \<Rightarrow> string" where
  "demangle cxa_demangle str =
     (let rt = replicate 256 (CHR 0x00);
          put = (\<lambda>s rt. overwrite 0 (s @ [CHR 0x00]) rt);
          fallback = (\<lambda>rt. case scan_word str of Some w \<Rightarrow> put w rt | None \<Rightarrow> str)
      in case scan_symbol str of
           None \<Rightarrow> fallback rt
         | Some mangled \<Rightarrow> (case cxa_demangle mangled of Some v \<Rightarrow> v | None \<Rightarrow> fallback (put mangled rt)))"

text \<open>\<open>strings\<close> is what \<open>backtrace_symbols\<close> returns, \<open>None\<close> where it fails.\<close>

definition Backtrace :: "(string \<Rightarrow> string option) \<Rightarrow> string list option \<Rightarrow> int \<Rightarrow> string list \<Rightarrow> string list" where
  "Backtrace cxa_demangle strings skip bt =
     (case strings of
        None \<Rightarrow> bt
      | Some ss \<Rightarrow> if skip < 0 then bt else bt @ map (demangle cxa_demangle) (drop (nat skip) ss))"

definition BacktraceToString :: "(string \<Rightarrow> string option) \<Rightarrow> string list option \<Rightarrow> int \<Rightarrow> string \<Rightarrow> string" where
  "BacktraceToString cxa_demangle strings skip prefix =
     concat (map (\<lambda>b. prefix @ b @ [CHR 0x0A]) (Backtrace cxa_demangle strings skip []))"

section \<open>Reference definitions\<close>

definition url_enc :: "bool \<Rightarrow> char \<Rightarrow> string" where
  "url_enc sp c = (if CHAR_IS_UNRESERVED c then [c] else url_escape c sp)"

fun url_dec :: "bool \<Rightarrow> string \<Rightarrow> string" where
  "url_dec sp [] = []"
| "url_dec sp (c # cs) =
     (if c = CHR ''+'' \<and> sp then CHR '' '' # url_dec sp cs
      else if c = CHR ''%'' \<and> 2 \<le> length cs \<and> isxdigit (cs ! 0) \<and> isxdigit (cs ! 1)
        then xdigit_pair (cs ! 0) (cs ! 1) # url_dec sp (drop 2 cs)
      else c # url_dec sp cs)"

lemma url_encode_loop_ref:
  "(case url_encode_loop sp pre ss cs of None \<Rightarrow> pre @ cs | Some rt \<Rightarrow> rt) =
   (case ss of None \<Rightarrow> pre | Some s \<Rightarrow> s) @ concat (map (url_enc sp) cs)"
proof (induction cs arbitrary: pre ss)
  case (Cons c cs)
  note IH = Cons.IH [of "pre @ [c]", unfolded append_assoc append_Cons append_Nil]
  show ?case
  proof (cases "CHAR_IS_UNRESERVED c")
    case True
    then show ?thesis using IH [of "case ss of None \<Rightarrow> None | Some s \<Rightarrow> Some (s @ [c])"]
      by (cases ss) (simp_all add: url_enc_def)
  next
    case False
    then show ?thesis using IH [of "Some ((case ss of None \<Rightarrow> pre | Some s \<Rightarrow> s) @ url_escape c sp)"]
      by (simp add: Let_def url_enc_def)
  qed
qed (simp split: option.split)

lemma url_decode_loop_ref:
  "(case url_decode_loop sp pre ss cs of None \<Rightarrow> pre @ cs | Some rt \<Rightarrow> rt) =
   (case ss of None \<Rightarrow> pre | Some s \<Rightarrow> s) @ url_dec sp cs"
proof (induction sp cs arbitrary: pre ss rule: url_dec.induct)
  case (2 sp c cs)
  consider (plus) "c = CHR ''+'' \<and> sp"
    | (hex) "\<not> (c = CHR ''+'' \<and> sp)" "c = CHR ''%'' \<and> 2 \<le> length cs \<and> isxdigit (cs ! 0) \<and> isxdigit (cs ! 1)"
    | (plain) "\<not> (c = CHR ''+'' \<and> sp)" "\<not> (c = CHR ''%'' \<and> 2 \<le> length cs \<and> isxdigit (cs ! 0) \<and> isxdigit (cs ! 1))"
    by blast
  then show ?case
  proof cases
    case plus
    then show ?thesis using 2(1) [OF plus, of "pre @ [c]" "Some ((case ss of None \<Rightarrow> pre | Some s \<Rightarrow> s) @ '' '')", unfolded append_assoc append_Cons append_Nil]
      by (simp add: Let_def)
  next
    case hex
    let ?s = "case ss of None \<Rightarrow> pre | Some s \<Rightarrow> s"
    from hex 2(2) [OF hex, of "pre @ c # take 2 cs" "Some (?s @ [xdigit_pair (cs ! 0) (cs ! 1)])",
        unfolded append_assoc append_Cons append_Nil append_take_drop_id]
    show ?thesis by (simp add: Let_def)
  next
    case plain
    then show ?thesis using 2(3) [OF plain, of "pre @ [c]" "case ss of None \<Rightarrow> None | Some s \<Rightarrow> Some (s @ [c])",
        unfolded append_assoc append_Cons append_Nil]
      by (cases ss) (simp_all only: url_decode_loop.simps url_dec.simps if_False option.case append_assoc append_Cons append_Nil)
  qed
qed (simp split: option.split)

lemma UrlEncode_ref: "UrlEncode str sp = concat (map (url_enc sp) str)"
  using url_encode_loop_ref [where sp = sp and pre = "[]" and ss = None and cs = str, unfolded append_Nil] by (simp add: UrlEncode_def)

lemma UrlDecode_ref: "UrlDecode str sp = url_dec sp str"
  using url_decode_loop_ref [where sp = sp and pre = "[]" and ss = None and cs = str, unfolded append_Nil] by (simp add: UrlDecode_def)

section \<open>Escapes\<close>

lemma hexdigits_back: "h < 16 \<Longrightarrow> isxdigit (hexdigits ! h) \<and> xdigit_chars ! of_char (hexdigits ! h) = h"
proof -
  assume "h < 16"
  have "list_all (\<lambda>h. isxdigit (hexdigits ! h) \<and> xdigit_chars ! of_char (hexdigits ! h) = h) [0..<16]" by code_simp
  with \<open>h < 16\<close> show ?thesis by (simp add: list_all_iff)
qed

lemma nibbles: "x < 16 \<Longrightarrow> y < 16 \<Longrightarrow> push_bit 4 x OR y = 16 * x + (y :: nat)"
proof -
  assume "x < 16" "y < 16"
  then have "take_bit 4 y = y" by (simp add: take_bit_nat_eq_self)
  then have "bit y n \<Longrightarrow> n < 4" for n by (metis bit_take_bit_iff)
  then have "push_bit 4 x AND y = 0" by (intro bit_eqI) (auto simp: bit_simps dest!: leD)
  then have "push_bit 4 x + y = push_bit 4 x OR y" by (rule disjunctive_add_eq_or)
  then show ?thesis by (simp add: push_bit_eq_mult)
qed

lemma low_nibble: "(n :: nat) AND 0xf = n mod 16"
proof -
  have "(0xf :: nat) = mask 4" by (simp add: mask_eq_exp_minus_1)
  then show ?thesis by (simp only: take_bit_eq_mask [symmetric] take_bit_eq_mod) simp
qed

lemma url_escape_chars:
  obtains "c = CHR '' ''" "sp" "url_escape c sp = ''+''"
  | a b where "url_escape c sp = [CHR ''%'', a, b]" "isxdigit a" "isxdigit b" "xdigit_pair a b = c" "a \<in> set hexdigits" "b \<in> set hexdigits"
proof (cases "c = CHR '' '' \<and> sp")
  case True
  then show ?thesis using that(1) by (simp add: url_escape_def)
next
  case False
  let ?n = "of_char c :: nat"
  have "?n < 256" by (rule nat_of_char_less_256)
  then have n: "?n div 16 < 16" "?n mod 16 < 16" by linarith+
  have "url_escape c sp = [CHR ''%'', hexdigits ! (?n div 16), hexdigits ! (?n mod 16)]"
    using False unfolding url_escape_def low_nibble by (auto simp: drop_bit_eq_div)
  moreover have "xdigit_pair (hexdigits ! (?n div 16)) (hexdigits ! (?n mod 16)) = c"
    using n by (simp add: xdigit_pair_def hexdigits_back nibbles)
  moreover have "length hexdigits = 16" by (simp add: hexdigits_def)
  ultimately show ?thesis using that(2) hexdigits_back n by simp
qed

lemma unreserved_plain: "CHAR_IS_UNRESERVED c \<Longrightarrow> c \<noteq> CHR ''%'' \<and> c \<noteq> CHR ''+'' \<and> c \<noteq> CHR '' ''"
  by (auto simp: CHAR_IS_UNRESERVED_def uri_chars_def nth_append)

lemma url_dec_enc: "url_dec sp (url_enc sp c @ cs) = c # url_dec sp cs"
proof (cases "CHAR_IS_UNRESERVED c")
  case True
  then show ?thesis using unreserved_plain [OF True] by (simp add: url_enc_def)
next
  case False
  then show ?thesis by (cases rule: url_escape_chars [of c sp]) (auto simp: url_enc_def)
qed

lemma url_dec_enc_all: "url_dec sp (concat (map (url_enc sp) str)) = str"
  by (induction str) (simp_all add: url_dec_enc)

lemma hexdigits_unreserved: "a \<in> set hexdigits \<Longrightarrow> CHAR_IS_UNRESERVED a"
proof -
  have "list_all CHAR_IS_UNRESERVED hexdigits" by code_simp
  then show "a \<in> set hexdigits \<Longrightarrow> CHAR_IS_UNRESERVED a" by (simp add: list_all_iff)
qed

lemma url_enc_safe: "x \<in> set (url_enc sp c) \<Longrightarrow> CHAR_IS_UNRESERVED x \<or> x = CHR ''%'' \<or> x = CHR ''+'' \<and> sp"
  by (cases "CHAR_IS_UNRESERVED c"; cases rule: url_escape_chars [of c sp]) (auto simp: url_enc_def hexdigits_unreserved)

section \<open>Delimiters\<close>

lemma all_delimiters:
  "set str \<subseteq> set delimit \<Longrightarrow> find_first_not_of str delimit = None \<and> find_last_not_of str delimit = None"
proof -
  assume "set str \<subseteq> set delimit"
  then have "takeWhile (\<lambda>x. x \<in> set delimit) str = str" "dropWhile (\<lambda>x. x \<in> set delimit) (rev str) = []"
    by (auto simp: takeWhile_eq_all_conv dropWhile_eq_Nil_conv)
  then show ?thesis by (simp only: find_first_not_of_def find_last_not_of_def Let_def) simp
qed

lemma trim_split:
  assumes "\<not> set str \<subseteq> set delimit"
  obtains a m b where "str = a @ m @ b" "set a \<subseteq> set delimit" "set b \<subseteq> set delimit" "m \<noteq> []"
    "hd m \<notin> set delimit" "last m \<notin> set delimit"
proof -
  let ?P = "\<lambda>x. x \<in> set delimit"
  let ?a = "takeWhile ?P str" and ?r = "dropWhile ?P str"
  let ?m = "rev (dropWhile ?P (rev ?r))" and ?b = "rev (takeWhile ?P (rev ?r))"
  have r: "?r \<noteq> []" "hd ?r \<notin> set delimit" using assms hd_dropWhile [of ?P str] by (auto simp: dropWhile_eq_Nil_conv)
  then have "\<not> set (rev ?r) \<subseteq> set delimit" by (metis hd_in_set set_rev subsetD)
  then have m: "?m \<noteq> []" "last ?m \<notin> set delimit"
    using hd_dropWhile [of ?P "rev ?r"] by (auto simp: dropWhile_eq_Nil_conv last_rev)
  have rm: "?r = ?m @ ?b" by (metis rev_append rev_rev_ident takeWhile_dropWhile_id)
  then have "hd ?m \<notin> set delimit" using r m by (metis hd_append2)
  moreover have "str = ?a @ ?m @ ?b" using rm by (metis takeWhile_dropWhile_id)
  ultimately show ?thesis using m by (intro that [of ?a ?m ?b]) (auto dest: set_takeWhileD)
qed

lemma find_not_of_split:
  assumes "set a \<subseteq> set delimit" "set b \<subseteq> set delimit" "m \<noteq> []" "hd m \<notin> set delimit" "last m \<notin> set delimit"
  shows "find_first_not_of (a @ m @ b) delimit = Some (length a)"
    "find_last_not_of (a @ m @ b) delimit = Some (length a + length m - 1)"
proof -
  let ?P = "\<lambda>x. x \<in> set delimit"
  obtain h t where m: "m = h # t" using assms(3) by (cases m) auto
  have "takeWhile ?P (a @ m @ b) = a" using assms m by (auto simp: takeWhile_append subset_iff)
  then show "find_first_not_of (a @ m @ b) delimit = Some (length a)" using m by (simp add: find_first_not_of_def Let_def)
  obtain l i where ml: "m = i @ [l]" using assms(3) by (cases m rule: rev_cases) auto
  have "dropWhile ?P (rev (a @ m @ b)) = rev (a @ m)"
    using assms ml by (auto simp: dropWhile_append subset_iff)
  then show "find_last_not_of (a @ m @ b) delimit = Some (length a + length m - 1)"
    using m by (simp add: find_last_not_of_def Let_def)
qed

lemma sint_small_nat:
  assumes "n < 2 ^ 63"
  shows "sint (of_nat n :: u64) = int n" "sint (- of_nat n :: u64) = - int n"
proof -
  have "sint (of_int k :: u64) = k" if "- (2 ^ 63) \<le> k" "k < 2 ^ 63" for k :: int
    using that by (simp add: int_word_sint)
  from this [of "int n"] this [of "- int n"] assms
  show "sint (of_nat n :: u64) = int n" "sint (- of_nat n :: u64) = - int n" by simp_all
qed

section \<open>Properties\<close>

text \<open>
  Decoding undoes URL encoding, for both treatments of the space; the encoded string has only unreserved
  characters, percent signs and, where spaces become pluses, plus signs; and a string of unreserved
  characters is its own encoding.
\<close>

theorem url_roundtrip:
  "UrlDecode (UrlEncode str sp) sp = str \<and>
   (\<forall>x \<in> set (UrlEncode str sp). CHAR_IS_UNRESERVED x \<or> x = CHR ''%'' \<or> x = CHR ''+'' \<and> sp) \<and>
   (list_all CHAR_IS_UNRESERVED str \<longrightarrow> UrlEncode str sp = str)"
proof (intro conjI impI)
  show "UrlDecode (UrlEncode str sp) sp = str" by (simp add: UrlEncode_ref UrlDecode_ref url_dec_enc_all)
  show "\<forall>x \<in> set (UrlEncode str sp). CHAR_IS_UNRESERVED x \<or> x = CHR ''%'' \<or> x = CHR ''+'' \<and> sp"
    using url_enc_safe by (auto simp: UrlEncode_ref)
  show "UrlEncode str sp = str" if "list_all CHAR_IS_UNRESERVED str"
    using that by (induction str) (simp_all add: UrlEncode_ref url_enc_def)
qed

theorem url_roundtrip_witness:
  "UrlDecode (UrlEncode ''a b+%'' True) True = ''a b+%'' \<and> UrlEncode ''a b+%'' True = ''a+b%2B%25'' \<and>
   UrlEncode ''a-b'' False = ''a-b''"
proof -
  have "UrlEncode ''a b+%'' True = ''a+b%2B%25''" "list_all CHAR_IS_UNRESERVED ''a-b''" by code_simp+
  with url_roundtrip [of "''a b+%''" True] url_roundtrip [of "''a-b''" False] show ?thesis by simp
qed

text \<open>
  \<open>Trim\<close> never throws and cuts off the longest stretches of delimiters at both ends. \<open>TrimLeft\<close> cuts the front.
  \<open>TrimRight\<close> cuts one character too many: what it returns lacks the last character that is no delimiter.
\<close>

theorem trim_exact:
  "\<exists>a m b. str = a @ m @ b \<and> set a \<union> set b \<subseteq> set delimit \<and>
     (m \<noteq> [] \<longrightarrow> hd m \<notin> set delimit \<and> last m \<notin> set delimit) \<and>
     Trim str delimit = Inr m \<and> TrimLeft str delimit = Inr (if m = [] then [] else m @ b) \<and>
     TrimRight str delimit = Inr (if m = [] then [] else a @ butlast m)"
proof (cases "set str \<subseteq> set delimit")
  case True
  then have "find_first_not_of str delimit = None" "find_last_not_of str delimit = None"
    using all_delimiters by auto
  then show ?thesis using True
    by (intro exI [of _ str] exI [of _ "[]"]) (simp add: Trim_def TrimLeft_def TrimRight_def)
next
  case False
  obtain a m b where d: "str = a @ m @ b" "set a \<subseteq> set delimit" "set b \<subseteq> set delimit" "m \<noteq> []"
    "hd m \<notin> set delimit" "last m \<notin> set delimit"
    using trim_split [OF False] by blast
  have f: "find_first_not_of str delimit = Some (length a)"
    "find_last_not_of str delimit = Some (length a + length m - 1)"
    using find_not_of_split [OF d(2-6)] d(1) by simp_all
  have "sub64 (length a + length m - 1) (length a) + 1 = length m" using d(4) by (cases m) auto
  moreover have "take (length a + length m - 1) (a @ m @ b) = a @ butlast m"
    using d(4) by (cases m rule: rev_cases) auto
  ultimately show ?thesis using f d
    by (intro exI [of _ a] exI [of _ m] exI [of _ b])
      (simp add: Trim_def TrimLeft_def TrimRight_def substr_def substr_from_def)
qed

theorem trim_exact_witness:
  "Trim ''  ab '' '' '' = Inr ''ab'' \<and> TrimRight ''  ab '' '' '' = Inr ''  a''"
proof -
  have "find_first_not_of ''  ab '' '' '' = Some 2" "find_last_not_of ''  ab '' '' '' = Some 3" by code_simp+
  then have "Trim ''  ab '' '' '' = Inr ''ab''" by (simp add: Trim_def substr_def)
  with trim_exact [of "''  ab ''" "'' ''"] obtain a b
    where "''  ab '' = a @ ''ab'' @ b" "TrimRight ''  ab '' '' '' = Inr (a @ butlast ''ab'')"
    by (auto simp del: butlast.simps)
  with \<open>Trim _ _ = _\<close> show ?thesis by (auto simp: Cons_eq_append_conv)
qed

text \<open>
  \<open>Atoi\<close> returns the value of a string of decimal digits below \<open>2 ^ 63\<close>, its negation after a minus sign,
  and \<open>-1\<close>, not a saturated value, for every number of \<open>2 ^ 64\<close> or more.
\<close>

theorem Atoi_value:
  assumes "ds \<noteq> []" "list_all isdigit ds"
  shows "(digits_value ds < 2 ^ 63 \<longrightarrow>
      TypeUtil_Atoi ds = int (digits_value ds) \<and> TypeUtil_Atoi (CHR ''-'' # ds) = - int (digits_value ds)) \<and>
    (digits_value ds \<ge> 2 ^ 64 \<longrightarrow> TypeUtil_Atoi ds = - 1)"
proof -
  let ?n = "digits_value ds"
  have d: "isdigit c \<Longrightarrow> \<not> isspace c \<and> c \<notin> set ''+-''" for c by (auto simp: isdigit_def isspace_def)
  obtain c cs where ds: "ds = c # cs" using assms(1) by (cases ds) auto
  have tw: "takeWhile isdigit ds = ds" using assms(2) by (simp add: list_all_iff takeWhile_eq_all_conv)
  have sp: "\<not> isspace (CHR ''-'')" by (simp add: isspace_def)
  have plain: "strtoull ds = (if ?n \<ge> 2 ^ 64 then - 1 else of_nat ?n)"
  proof -
    have "dropWhile isspace ds = ds" "hd ds \<notin> set ''+-''" using d [of c] assms(2) ds by auto
    then show ?thesis using assms(1) unfolding strtoull_def Let_def by (auto simp: tw)
  qed
  have minus: "strtoull (CHR ''-'' # ds) = (if ?n \<ge> 2 ^ 64 then - 1 else - of_nat ?n)"
    using sp unfolding strtoull_def Let_def by (simp add: tw)
  have "sint (of_nat ?n :: u64) = int ?n" "sint (- of_nat ?n :: u64) = - int ?n" if "?n < 2 ^ 63"
    using that by (auto simp: sint_small_nat)
  with plain minus ds show ?thesis by (auto simp: TypeUtil_Atoi_def)
qed

theorem Atoi_value_witness: "TypeUtil_Atoi ''-12'' = - 12 \<and> TypeUtil_Atoi ''18446744073709551616'' = - 1"
proof -
  have "list_all isdigit ''12''" "list_all isdigit ''18446744073709551616''" "digits_value ''12'' = 12"
    "digits_value ''18446744073709551616'' = 18446744073709551616"
    by (simp_all add: isdigit_def digits_value_def digit_value_def)
  with Atoi_value [of "''12''"] Atoi_value [of "''18446744073709551616''"] show ?thesis by simp
qed

lemma scan_set_plain:
  assumes "list_all P s" "s \<noteq> []" "rest = [] \<or> \<not> P (hd rest)" "case w of None \<Rightarrow> True | Some w \<Rightarrow> length s \<le> w"
  shows "scan_set P w (s @ rest) = Some (s, rest)"
proof -
  have "takeWhile P (s @ rest) = s" using assms(1, 3) by (cases rest) (auto simp: list_all_iff takeWhile_append)
  with assms(2, 4) show ?thesis by (cases s) (auto simp: scan_set_def split: option.splits)
qed

text \<open>
  A frame of the usual form, the module, an opening parenthesis, a mangled name and an offset, is shown by the name the runtime
  demangles it to. For a name the runtime does not know the result is a string of 256 characters, the first word of the frame, a zero
  character, and what the buffer held before.
\<close>

theorem demangle_frame:
  assumes "list_all (\<lambda>c. c \<noteq> CHR ''('') file" "file \<noteq> []" "list_all (\<lambda>c. c \<noteq> CHR '')'' \<and> c \<noteq> CHR ''+'') mangled" "length mangled < 255"
  shows "case cxa (''_'' @ mangled) of
      Some name \<Rightarrow> demangle cxa (file @ ''(_'' @ mangled @ ''+'' @ rest) = name
    | None \<Rightarrow> (case scan_word (file @ ''(_'' @ mangled @ ''+'' @ rest) of
        None \<Rightarrow> demangle cxa (file @ ''(_'' @ mangled @ ''+'' @ rest) = file @ ''(_'' @ mangled @ ''+'' @ rest
      | Some w \<Rightarrow> length (demangle cxa (file @ ''(_'' @ mangled @ ''+'' @ rest)) = 256 \<and>
          (\<exists>more. demangle cxa (file @ ''(_'' @ mangled @ ''+'' @ rest) = w @ [CHR 0x00] @ more))"
proof -
  let ?str = "file @ ''(_'' @ mangled @ ''+'' @ rest"
  have 1: "scan_set (\<lambda>c. c \<noteq> CHR ''('') None ?str = Some (file, ''(_'' @ mangled @ ''+'' @ rest)"
    using assms(1, 2) by (intro scan_set_plain) simp_all
  have 2: "scan_set (\<lambda>c. c \<noteq> CHR ''_'') None (''('' @ ''_'' @ mangled @ ''+'' @ rest) = Some (''('', ''_'' @ mangled @ ''+'' @ rest)"
    by (intro scan_set_plain) simp_all
  have 3: "scan_set (\<lambda>c. c \<noteq> CHR '')'' \<and> c \<noteq> CHR ''+'') (Some 255) ((''_'' @ mangled) @ ''+'' @ rest) = Some (''_'' @ mangled, ''+'' @ rest)"
    using assms(3, 4) by (intro scan_set_plain) simp_all
  have s: "scan_symbol ?str = Some (''_'' @ mangled)" using 1 2 3 by (simp add: scan_symbol_def)
  have w: "length w \<le> 255" if "scan_word ?str = Some w" for w
    using that by (auto simp: scan_word_def scan_set_def Let_def split: if_splits)
  have len: "length (overwrite 0 (''_'' @ mangled @ [CHR 0x00]) (replicate 256 (CHR 0x00))) = 256" using assms(4) by simp
  show ?thesis
    using s w len by (auto simp: demangle_def Let_def overwrite_def split: option.splits)
qed

theorem demangle_frame_witness:
  "demangle (\<lambda>m. if m = ''_Z1fv'' then Some ''f()'' else None) ''a.out(_Z1fv+0x1) [0x2]'' = ''f()'' \<and>
   length (demangle (\<lambda>_. None) ''a.out(_Z1fv+0x1) [0x2]'') = 256"
proof -
  have "scan_word ''a.out(_Z1fv+0x1) [0x2]'' = Some ''a.out(_Z1fv+0x1)''" by code_simp
  with demangle_frame [of "''a.out''" "''Z1fv''" "\<lambda>m. if m = ''_Z1fv'' then Some ''f()'' else None" "''0x1) [0x2]''"]
    demangle_frame [of "''a.out''" "''Z1fv''" "\<lambda>_. None" "''0x1) [0x2]''"] show ?thesis by simp
qed

end
