(* ===== verification/File_Util.thy ===== *)
theory File_Util
  imports String_Util
begin

text \<open>
  The file utilities \<open>FSUtil\<close> of \<open>util/util.cc\<close>. Directory trees are given as \<open>readdir\<close> and \<open>lstat\<close> show them;
  which of the system calls succeed is an argument, as is the state of the file system that
  \<open>Mkdir\<close> works on.
\<close>

section \<open>Paths\<close>

definition Dirname :: "string \<Rightarrow> string result" where
  "Dirname filename =
     (if filename = [] then Inr ''.''
      else case rfind_char (CHR ''/'') filename of
        None \<Rightarrow> Inr ''.''
      | Some pos \<Rightarrow> if pos = 0 then Inr ''/'' else substr filename 0 pos)"

definition Basename :: "string \<Rightarrow> string result" where
  "Basename filename =
     (if filename = [] then Inr filename
      else case rfind_char (CHR ''/'') filename of
        None \<Rightarrow> Inr filename
      | Some pos \<Rightarrow> substr_from filename (pos + 1))"

section \<open>Directory trees\<close>

datatype file_type = REG | LNK | SOCK | BLK | CHRDEV | FIFO

datatype node = File file_type | Dir "(string \<times> node) list"

definition S_IFDIR :: nat where "S_IFDIR = 0x4000"

fun st_mode :: "node \<Rightarrow> nat" where
  "st_mode (File REG) = 0x8000"
| "st_mode (File LNK) = 0xA000"
| "st_mode (File SOCK) = 0xC000"
| "st_mode (File BLK) = 0x6000"
| "st_mode (File CHRDEV) = 0x2000"
| "st_mode (File FIFO) = 0x1000"
| "st_mode (Dir es) = 0x4000"

text \<open>\<open>access_ok\<close> and \<open>opendir_ok\<close> of a path; opening something that is no directory fails.\<close>

record dir_ops =
  access_ok :: "string \<Rightarrow> bool"
  opendir_ok :: "string \<Rightarrow> bool"
  unlink_ok :: "string \<Rightarrow> bool"
  rmdir_ok :: "string \<Rightarrow> bool"

definition dot_name :: "string \<Rightarrow> bool" where
  "dot_name n \<longleftrightarrow> n = ''.'' \<or> n = ''..''"

definition subfix_match :: "string \<Rightarrow> string \<Rightarrow> bool" where
  "subfix_match filename subfix \<longleftrightarrow>
     (if subfix = [] then True
      else if length filename < length subfix then False
      else drop (length filename - length subfix) filename = subfix)"

fun ListAllFile :: "dir_ops \<Rightarrow> string list \<Rightarrow> string \<Rightarrow> string \<Rightarrow> node \<Rightarrow> string list"
  and list_entries :: "dir_ops \<Rightarrow> string list \<Rightarrow> string \<Rightarrow> string \<Rightarrow> (string \<times> node) list \<Rightarrow> string list" where
  "ListAllFile ops files path subfix (File t) = files"
| "ListAllFile ops files path subfix (Dir es) =
     (if \<not> access_ok ops path then files
      else if \<not> opendir_ok ops path then files
      else list_entries ops files path subfix es)"
| "list_entries ops files path subfix [] = files"
| "list_entries ops files path subfix ((name, Dir d) # es) =
     (if dot_name name then list_entries ops files path subfix es
      else list_entries ops (ListAllFile ops files (path @ ''/'' @ name) subfix (Dir d)) path subfix es)"
| "list_entries ops files path subfix ((name, File t) # es) =
     (if t = REG \<and> subfix_match name subfix then list_entries ops (files @ [path @ ''/'' @ name]) path subfix es
      else list_entries ops files path subfix es)"

text \<open>\<open>Unlink\<close> returns the result and what is left at the path; \<open>None\<close> is a path that does not exist.\<close>

definition Unlink :: "dir_ops \<Rightarrow> string \<Rightarrow> bool \<Rightarrow> node option \<Rightarrow> bool \<times> node option" where
  "Unlink ops filename exist n =
     (if \<not> exist \<and> n = None then (True, n)
      else case n of
        Some (File t) \<Rightarrow> if unlink_ok ops filename then (True, None) else (False, n)
      | _ \<Rightarrow> (False, n))"

text \<open>
  \<open>Rm\<close> on what exists at the path. \<open>rmdir\<close> fails on a directory that is not empty; the entries \<open>.\<close> and \<open>..\<close> are
  the directory's own and do not count.
\<close>

fun Rm_node :: "dir_ops \<Rightarrow> string \<Rightarrow> node \<Rightarrow> bool \<times> node option"
  and Rm_entries :: "dir_ops \<Rightarrow> string \<Rightarrow> bool \<Rightarrow> (string \<times> node) list \<Rightarrow> bool \<times> (string \<times> node) list" where
  "Rm_node ops path (File t) =
     (if st_mode (File t) AND S_IFDIR = 0 then Unlink ops path False (Some (File t))
      else (False, Some (File t)))"
| "Rm_node ops path (Dir es) =
     (if st_mode (Dir es) AND S_IFDIR = 0 then Unlink ops path False (Some (Dir es))
      else if \<not> opendir_ok ops path then (False, Some (Dir es))
      else
        let (ret, es') = Rm_entries ops path True es in
        if es' = [] \<and> rmdir_ok ops path then (ret, None) else (False, Some (Dir es')))"
| "Rm_entries ops path ret [] = (ret, [])"
| "Rm_entries ops path ret ((name, n) # es) =
     (if dot_name name then Rm_entries ops path ret es
      else
        let (ret', n') = Rm_node ops (path @ ''/'' @ name) n;
            (ret'', es') = Rm_entries ops path ret' es
        in (ret'', (case n' of None \<Rightarrow> [] | Some n' \<Rightarrow> [(name, n')]) @ es'))"

definition Rm :: "dir_ops \<Rightarrow> string \<Rightarrow> node option \<Rightarrow> bool \<times> node option" where
  "Rm ops path n = (case n of None \<Rightarrow> (True, None) | Some n \<Rightarrow> Rm_node ops path n)"

text \<open>\<open>Mv\<close> and \<open>Symlink\<close>: whether \<open>rename\<close> or \<open>symlink\<close> is called, and the result.\<close>

definition Mv :: "dir_ops \<Rightarrow> (node option \<Rightarrow> bool) \<Rightarrow> string \<Rightarrow> node option \<Rightarrow> bool \<times> node option" where
  "Mv ops rename to n =
     (let (ok, n') = Rm ops to n in if \<not> ok then (False, n') else (rename n', n'))"

definition Symlink :: "dir_ops \<Rightarrow> (node option \<Rightarrow> bool) \<Rightarrow> string \<Rightarrow> node option \<Rightarrow> bool \<times> node option" where
  "Symlink ops symlink to n =
     (let (ok, n') = Rm ops to n in if \<not> ok then (False, n') else (symlink n', n'))"

definition Realpath :: "(string \<Rightarrow> bool) \<Rightarrow> (string \<Rightarrow> string option) \<Rightarrow> string \<Rightarrow> string \<Rightarrow> bool \<times> string" where
  "Realpath lstat_ok realpath path rpath =
     (if \<not> lstat_ok path then (False, rpath)
      else case realpath path of None \<Rightarrow> (False, rpath) | Some p \<Rightarrow> (True, p))"

section \<open>Creating directories\<close>

record 's mkdir_ops =
  lstat_op :: "'s \<Rightarrow> string \<Rightarrow> bool"
  access_op :: "'s \<Rightarrow> string \<Rightarrow> bool"
  mkdir_op :: "'s \<Rightarrow> string \<Rightarrow> bool \<times> 's"

definition mkdir_one :: "'s mkdir_ops \<Rightarrow> 's \<Rightarrow> string \<Rightarrow> bool \<times> 's" where
  "mkdir_one ops s dirname = (if access_op ops s dirname then (True, s) else mkdir_op ops s dirname)"

text \<open>The loop over the slashes; \<open>ptr\<close> is the position of the next one.\<close>

function mkdir_loop :: "'s mkdir_ops \<Rightarrow> 's \<Rightarrow> string \<Rightarrow> nat option \<Rightarrow> bool \<times> 's" where
  "mkdir_loop ops s path None = (True, s)"
| "mkdir_loop ops s path (Some i) =
     (let (ok, s') = mkdir_one ops s (take i path) in
      if \<not> ok then (False, s')
      else mkdir_loop ops s' path (find_char (CHR ''/'') path (Suc i)))"
  by pat_completeness auto

termination
proof (relation "measure (\<lambda>(ops, s, path, ptr). case ptr of None \<Rightarrow> 0 | Some i \<Rightarrow> Suc (Suc (length path) - i))")
  show "((ops, s', path, find_char (CHR ''/'') path (Suc i)), (ops, s, path, Some i))
      \<in> measure (\<lambda>(ops, s, path, ptr). case ptr of None \<Rightarrow> 0 | Some i \<Rightarrow> Suc (Suc (length path) - i))"
    for ops :: "'s mkdir_ops" and s s' path i
  proof (cases "find_char (CHR ''/'') path (Suc i)")
    case (Some j)
    with find_char_Some(1,2) [OF this] show ?thesis by simp
  qed simp
qed auto

definition Mkdir :: "'s mkdir_ops \<Rightarrow> 's \<Rightarrow> string \<Rightarrow> (bool \<times> 's) result" where
  "Mkdir ops s dirname =
     (if lstat_op ops s dirname then Inr (True, s)
      else if dirname = [] then Inl Out_Of_Bounds
      else
        let (ok, s') = mkdir_loop ops s dirname (find_char (CHR ''/'') dirname 1) in
        if \<not> ok then Inr (False, s') else Inr (mkdir_one ops s' dirname))"

definition OpenForWrite :: "'s mkdir_ops \<Rightarrow> ('s \<Rightarrow> string \<Rightarrow> bool) \<Rightarrow> 's \<Rightarrow> string \<Rightarrow> (bool \<times> 's) result" where
  "OpenForWrite ops is_open s filename =
     (if is_open s filename then Inr (True, s)
      else
        rbind (Dirname filename) (\<lambda>dir.
        rbind (Mkdir ops s dir) (\<lambda>(_, s').
        Inr (is_open s' filename, s'))))"

section \<open>Process files\<close>

definition atoi :: "string \<Rightarrow> int" where
  "atoi s =
     (let s1 = dropWhile isspace s;
          neg = (s1 \<noteq> [] \<and> hd s1 = CHR ''-'');
          s2 = (if s1 \<noteq> [] \<and> hd s1 \<in> set ''+-'' then tl s1 else s1);
          n = int (digits_value (takeWhile isdigit s2));
          v = (if neg then max (- n) (- (2 ^ 63)) else min n (2 ^ 63 - 1))
      in sint (of_int v :: u32))"

definition IsRunningPidfile :: "bool \<Rightarrow> string option \<Rightarrow> (int \<Rightarrow> bool) \<Rightarrow> bool" where
  "IsRunningPidfile lstat_ok line kill_ok \<longleftrightarrow>
     (if \<not> lstat_ok then False
      else case line of
        None \<Rightarrow> False
      | Some l \<Rightarrow>
          if l = [] then False
          else let pid = atoi l in if pid \<le> 1 then False else kill_ok pid)"

section \<open>Trees\<close>

text \<open>The files below a directory that can be entered: the full path and the name.\<close>

inductive file_under :: "dir_ops \<Rightarrow> string \<Rightarrow> node \<Rightarrow> string \<Rightarrow> string \<Rightarrow> bool" for ops where
  here: "\<lbrakk>access_ok ops path; opendir_ok ops path; (name, File REG) \<in> set es\<rbrakk> \<Longrightarrow>
    file_under ops path (Dir es) (path @ ''/'' @ name) name"
| below: "\<lbrakk>access_ok ops path; opendir_ok ops path; (dir, Dir d) \<in> set es; \<not> dot_name dir;
    file_under ops (path @ ''/'' @ dir) (Dir d) f name\<rbrakk> \<Longrightarrow> file_under ops path (Dir es) f name"

inductive_simps file_under_File [simp]: "file_under ops path (File t) f name"
inductive_simps file_under_Dir: "file_under ops path (Dir es) f name"

lemma subfix_match_iff: "subfix_match filename subfix \<longleftrightarrow> (\<exists>p. filename = p @ subfix)"
proof
  assume "subfix_match filename subfix"
  then have "subfix = [] \<or> drop (length filename - length subfix) filename = subfix"
    by (auto simp: subfix_match_def split: if_splits)
  then show "\<exists>p. filename = p @ subfix" by (metis append_Nil2 append_take_drop_id)
qed (auto simp: subfix_match_def)

lemma file_under_Nil [simp]: "\<not> file_under ops path (Dir []) f name"
  by (subst file_under_Dir) simp

lemma file_under_ok: "file_under ops path n f name \<Longrightarrow> access_ok ops path \<and> opendir_ok ops path"
  by (induction rule: file_under.induct) simp_all

lemma file_under_Cons:
  "file_under ops path (Dir ((x, n) # es)) f name \<longleftrightarrow>
     access_ok ops path \<and> opendir_ok ops path \<and>
     (n = File REG \<and> f = path @ ''/'' @ x \<and> name = x \<or>
      (\<exists>d. n = Dir d \<and> \<not> dot_name x \<and> file_under ops (path @ ''/'' @ x) (Dir d) f name) \<or>
      file_under ops path (Dir es) f name)"
proof (cases n)
  case (File t)
  then show ?thesis by (subst (1 2) file_under_Dir) auto
next
  case (Dir d)
  then show ?thesis by (subst (1 3) file_under_Dir) auto
qed

lemma list_all_file_set:
  "set (ListAllFile ops files path sub n) = set files \<union> {f. \<exists>name. file_under ops path n f name \<and> subfix_match name sub}"
  "access_ok ops path \<and> opendir_ok ops path \<Longrightarrow> set (list_entries ops files path sub es) =
     set files \<union> {f. \<exists>name. file_under ops path (Dir es) f name \<and> subfix_match name sub}"
proof (induction ops files path sub n and ops files path sub es rule: ListAllFile_list_entries.induct)
  case (4 ops files path sub name d es)
  then show ?case by (auto simp: file_under_Cons)
next
  case (5 ops files path sub name t es)
  then show ?case by (auto simp: file_under_Cons)
qed (auto dest: file_under_ok)

lemma Rm_left:
  "fst (Rm_node ops path n) \<longleftrightarrow> snd (Rm_node ops path n) = None"
  "snd (Rm_entries ops path ret es) = [] \<Longrightarrow> ret \<Longrightarrow> fst (Rm_entries ops path ret es)"
proof (induction ops path n and ops path ret es rule: Rm_node_Rm_entries.induct)
  case (4 ops path ret name n es)
  then show ?case by (auto simp: Let_def split: prod.splits option.splits)
qed (auto simp: Unlink_def Let_def split: prod.splits)

fun plain_tree :: "node \<Rightarrow> bool" where
  "plain_tree (File t) \<longleftrightarrow> t \<notin> {SOCK, BLK}"
| "plain_tree (Dir es) \<longleftrightarrow> (\<forall>(name, n) \<in> set es. plain_tree n)"

lemma Rm_all:
  assumes "\<forall>p. opendir_ok ops p \<and> unlink_ok ops p \<and> rmdir_ok ops p"
  shows "plain_tree n \<Longrightarrow> Rm_node ops path n = (True, None)"
    "(\<forall>(name, n) \<in> set es. plain_tree n) \<Longrightarrow> ret \<Longrightarrow> Rm_entries ops path ret es = (True, [])"
  using assms
proof (induction ops path n and ops path ret es rule: Rm_node_Rm_entries.induct)
  case (1 ops path t)
  then show ?case by (cases t) (auto simp: Unlink_def S_IFDIR_def)
qed (auto simp: S_IFDIR_def)

section \<open>Directories made\<close>

definition slash_prefix :: "string \<Rightarrow> nat \<Rightarrow> bool" where
  "slash_prefix path i \<longleftrightarrow> 1 \<le> i \<and> i < length path \<and> path ! i = CHR ''/''"

definition mkdir_laws :: "'s mkdir_ops \<Rightarrow> bool" where
  "mkdir_laws ops \<longleftrightarrow>
     (\<forall>s p s'. mkdir_op ops s p = (True, s') \<longrightarrow>
        access_op ops s' p \<and> (\<forall>q. access_op ops s q \<longrightarrow> access_op ops s' q))"

lemma mkdir_one_ok:
  assumes "mkdir_laws ops" "mkdir_one ops s p = (True, s')"
  shows "access_op ops s' p" "access_op ops s q \<Longrightarrow> access_op ops s' q"
  using assms by (auto simp: mkdir_laws_def mkdir_one_def split: if_splits)

lemma mkdir_loop_ok:
  assumes "mkdir_laws ops" "mkdir_loop ops s path ptr = (True, s')" "ptr = find_char (CHR ''/'') path k"
  shows "(\<forall>i. k \<le> i \<and> i < length path \<and> path ! i = CHR ''/'' \<longrightarrow> access_op ops s' (take i path)) \<and>
    (\<forall>q. access_op ops s q \<longrightarrow> access_op ops s' q)"
  using assms
proof (induction ops s path ptr arbitrary: k rule: mkdir_loop.induct)
  case (1 ops s path)
  then have "CHR ''/'' \<notin> set (drop k path)" by (intro find_char_None) simp
  then have "path ! i \<noteq> CHR ''/''" if "k \<le> i" "i < length path" for i
  proof -
    have "drop k path ! (i - k) \<in> set (drop k path)" by (rule nth_mem) (use that in simp)
    with that \<open>_ \<notin> _\<close> show ?thesis by auto
  qed
  with 1 show ?case by auto
next
  case (2 ops s path i)
  obtain s1 where one: "mkdir_one ops s (take i path) = (True, s1)"
    and rest: "mkdir_loop ops s1 path (find_char (CHR ''/'') path (Suc i)) = (True, s')"
    using 2(3) by (auto split: prod.splits if_splits)
  note IH = 2(1) [OF one [symmetric] refl _ 2(2) rest refl, simplified]
  note f = find_char_Some [OF 2(4) [symmetric]]
  show ?case
  proof (intro conjI allI impI)
    fix j assume j: "k \<le> j \<and> j < length path \<and> path ! j = CHR ''/''"
    then have "i \<le> j" using f(4) by (meson not_le_imp_less)
    then show "access_op ops s' (take j path)"
      using IH j mkdir_one_ok(1) [OF 2(2) one] by (cases "i = j") (simp_all add: Suc_le_eq)
  qed (use IH mkdir_one_ok(2) [OF 2(2) one] in blast)
qed

lemma mkdir_loop_works:
  assumes "\<And>s p. access_op ops s p \<or> fst (mkdir_op ops s p)"
  shows "fst (mkdir_loop ops s path ptr)"
proof -
  have "fst (mkdir_one ops s p)" for s p using assms [of s p] by (auto simp: mkdir_one_def)
  then show ?thesis by (induction ops s path ptr rule: mkdir_loop.induct) (simp_all split: prod.splits, metis fst_conv)
qed

section \<open>Properties\<close>

text \<open>
  \<open>Rm\<close> tells the truth: it returns true exactly when nothing is left at the path, whichever system calls
  fail, although the result of an entry is overwritten by the next one's: a directory with an entry left can
  not be removed. Where all calls succeed a tree without sockets and block devices is removed. A socket or a block
  device is never removed, because its mode shares a bit with \<open>S_IFDIR\<close>.
\<close>

theorem rm_honest:
  "(fst (Rm ops path n) \<longleftrightarrow> snd (Rm ops path n) = None) \<and>
   ((\<forall>p. opendir_ok ops p \<and> unlink_ok ops p \<and> rmdir_ok ops p) \<and> (\<forall>t. n = Some t \<longrightarrow> plain_tree t) \<longrightarrow>
      Rm ops path n = (True, None)) \<and>
   Rm ops path (Some (File SOCK)) = (False, Some (File SOCK)) \<and>
   Rm ops path (Some (File BLK)) = (False, Some (File BLK))"
  using Rm_left(1) [of ops path] Rm_all(1) [of ops _ path] by (auto simp: Rm_def S_IFDIR_def split: option.splits)

theorem rm_honest_witness:
  "Rm \<lparr>access_ok = \<lambda>_. True, opendir_ok = \<lambda>_. True, unlink_ok = \<lambda>_. True, rmdir_ok = \<lambda>_. True\<rparr> ''/tmp/x''
     (Some (Dir [(''a'', File REG), (''b'', Dir [(''c'', File LNK)])])) = (True, None)"
  by (rule rm_honest [THEN conjunct2, THEN conjunct1, THEN mp]) simp

text \<open>
  \<open>ListAllFile\<close> adds exactly the regular files below the path, at any depth, whose names end in the suffix,
  leaving out what is below a directory it can not open.
\<close>

theorem list_all_files:
  "set (ListAllFile ops files path subfix n) =
     set files \<union> {f. \<exists>p. file_under ops path n f (p @ subfix)}"
  unfolding list_all_file_set(1) subfix_match_iff by blast

text \<open>
  When \<open>Mkdir\<close> returns true the directory exists: either it did already and nothing was done, or it and every
  directory on the way can be accessed afterwards. If every directory either exists or can be made, it returns true.
  The kernel's \<open>mkdir\<close> is assumed to make its directory accessible and to leave the others so.
\<close>

theorem mkdir_makes_path:
  assumes "mkdir_laws ops" "dirname \<noteq> []"
  shows "\<exists>ok s'. Mkdir ops s dirname = Inr (ok, s') \<and>
    (ok \<longrightarrow> lstat_op ops s dirname \<and> s' = s \<or>
       access_op ops s' dirname \<and> (\<forall>i. slash_prefix dirname i \<longrightarrow> access_op ops s' (take i dirname))) \<and>
    ((\<forall>s p. access_op ops s p \<or> fst (mkdir_op ops s p)) \<longrightarrow> ok)"
proof (cases "lstat_op ops s dirname")
  case False
  obtain l s1 where loop: "mkdir_loop ops s dirname (find_char (CHR ''/'') dirname 1) = (l, s1)" by fastforce
  obtain b s2 where one: "mkdir_one ops s1 dirname = (b, s2)" by fastforce
  have run: "Mkdir ops s dirname = Inr (if l then (b, s2) else (False, s1))"
    using False assms(2) loop one by (simp add: Mkdir_def)
  have "access_op ops s2 dirname \<and> (\<forall>i. slash_prefix dirname i \<longrightarrow> access_op ops s2 (take i dirname))" if "l" "b"
    using mkdir_loop_ok [OF assms(1) _ refl, of s dirname 1 s1] loop mkdir_one_ok [OF assms(1), of s1 dirname s2] one that
    by (auto simp: slash_prefix_def)
  moreover have "l \<and> b" if "\<forall>s p. access_op ops s p \<or> fst (mkdir_op ops s p)"
    using mkdir_loop_works [of ops s dirname] that loop one by (metis fst_conv mkdir_one_def)
  ultimately show ?thesis unfolding run by (cases l) auto
qed (auto simp: Mkdir_def)

definition list_fs :: "string list mkdir_ops" where
  "list_fs = \<lparr>lstat_op = \<lambda>s p. p \<in> set s, access_op = \<lambda>s p. p \<in> set s, mkdir_op = \<lambda>s p. (True, s @ [p])\<rparr>"

theorem mkdir_makes_path_witness: "\<exists>s'. Mkdir list_fs [] ''/a/b'' = Inr (True, s') \<and> ''/a'' \<in> set s'"
proof -
  have "mkdir_laws list_fs" by (simp add: mkdir_laws_def list_fs_def)
  from mkdir_makes_path [OF this, of "''/a/b''" "[]"] obtain s' where
    "Mkdir list_fs [] ''/a/b'' = Inr (True, s')" "\<forall>i. slash_prefix ''/a/b'' i \<longrightarrow> access_op list_fs s' (take i ''/a/b'')"
    by (auto simp: list_fs_def)
  moreover have "slash_prefix ''/a/b'' 2" by (simp add: slash_prefix_def)
  ultimately have "access_op list_fs s' (take 2 ''/a/b'')" by blast
  with \<open>Mkdir _ _ _ = _\<close> show ?thesis by (simp add: list_fs_def)
qed

text \<open>
  \<open>Dirname\<close> and \<open>Basename\<close> take a path apart: joined by a slash they give it back when the path has a
  slash not at its front, and the base name never has a slash.
\<close>

theorem dir_base_split:
  "\<exists>d b. Dirname f = Inr d \<and> Basename f = Inr b \<and> CHR ''/'' \<notin> set b \<and>
     (if CHR ''/'' \<notin> set f then d = ''.'' \<and> b = f
      else if CHR ''/'' \<notin> set (tl f) then d = ''/'' \<and> f = d @ b
      else f = d @ ''/'' @ b)"
proof (cases "rfind_char (CHR ''/'') f")
  case None
  then show ?thesis using rfind_char_split(1) [OF None] by (auto simp: Dirname_def Basename_def)
next
  case (Some n)
  note s = rfind_char_split(2) [OF Some]
  have "f \<noteq> []" using s by auto
  then have d: "Dirname f = Inr (if n = 0 then ''/'' else take n f)" "Basename f = Inr (drop (Suc n) f)"
    using Some s by (simp_all add: Dirname_def Basename_def substr_def substr_from_def)
  have m: "CHR ''/'' \<in> set f" using s by (metis in_set_conv_decomp)
  show ?thesis
  proof (cases "n = 0")
    case True
    define g where "g = drop (Suc n) f"
    have f: "f = CHR ''/'' # g" "CHR ''/'' \<notin> set g" using s True by (simp_all add: g_def)
    have d': "Dirname f = Inr ''/''" "Basename f = Inr g" using d True by (simp_all add: g_def)
    show ?thesis unfolding d' using f by simp
  next
    case False
    define p q where "p = take n f" and "q = drop (Suc n) f"
    have f: "f = p @ CHR ''/'' # q" "CHR ''/'' \<notin> set q" "p \<noteq> []" using s False by (auto simp: p_def q_def)
    have d': "Dirname f = Inr p" "Basename f = Inr q" using d False by (simp_all add: p_def q_def)
    show ?thesis unfolding d' using f by simp
  qed
qed

end
