(* ===== verification/Config.thy ===== *)
theory Config
  imports Lexical_Cast Env File_Util
begin

text \<open>
  The configuration (\<open>config/config.h\<close>, \<open>config/config.cc\<close>): variables with their listeners, the registry that finds or creates them by
  name, and loading YAML documents into it. Variables of all types live in one registry, so a value is of one type of the model and a
  variable carries the name of its C++ type; the conversions of that type are arguments. Variables are never removed, so the name under
  which a variable is registered also serves as the pointer to it.
\<close>

section \<open>Variables\<close>

record ('v, 'cb) config_var =
  cv_name :: string
  cv_description :: string
  cv_type :: string
  cv_val :: 'v
  cv_cbs :: "(u64 \<times> 'cb) list"

record ('v, 'cb) config =
  cf_datas :: "(string \<times> ('v, 'cb) config_var) list"
  cf_fun_id :: "string \<Rightarrow> u64"

definition ConfigVar :: "string \<Rightarrow> string \<Rightarrow> 'v \<Rightarrow> string \<Rightarrow> ('v, 'cb) config_var" where
  "ConfigVar type name default_value description =
     \<lparr>cv_name = map tolower name, cv_description = description, cv_type = type, cv_val = default_value, cv_cbs = []\<rparr>"

definition Config_ToString :: "(string \<Rightarrow> 'v to_str) \<Rightarrow> ('v, 'cb) config_var \<Rightarrow> string" where
  "Config_ToString to_s var = (case to_s (cv_type var) (cv_val var) of Some s \<Rightarrow> s | None \<Rightarrow> '''')"

text \<open>
  Setting a value gives the calls of listeners, each with the old and the new value, and the variable. \<open>eqv\<close> is the equality of the
  type, which for a class may be its own operator.
\<close>

definition SetValue :: "(string \<Rightarrow> 'v \<Rightarrow> 'v \<Rightarrow> bool) \<Rightarrow> ('v, 'cb) config_var \<Rightarrow> 'v \<Rightarrow> ('cb \<times> 'v \<times> 'v) list \<times> ('v, 'cb) config_var" where
  "SetValue eqv var v =
     (if eqv (cv_type var) v (cv_val var) then ([], var)
      else (map (\<lambda>(_, cb). (cb, cv_val var, v)) (cv_cbs var), var\<lparr>cv_val := v\<rparr>))"

definition FromString :: "(string \<Rightarrow> 'v \<Rightarrow> 'v \<Rightarrow> bool) \<Rightarrow> (string \<Rightarrow> 'v from_str) \<Rightarrow> ('v, 'cb) config_var \<Rightarrow> string \<Rightarrow>
    bool \<times> ('cb \<times> 'v \<times> 'v) list \<times> ('v, 'cb) config_var" where
  "FromString eqv from_s var val =
     (case from_s (cv_type var) val of
        Some v \<Rightarrow> (False, SetValue eqv var v)
      | None \<Rightarrow> (False, [], var))"

text \<open>The listeners are a \<open>std::map\<close> by id.\<close>

fun cbs_put :: "u64 \<Rightarrow> 'cb \<Rightarrow> (u64 \<times> 'cb) list \<Rightarrow> (u64 \<times> 'cb) list" where
  "cbs_put k cb [] = [(k, cb)]"
| "cbs_put k cb ((k', cb') # cbs) =
     (if k < k' then (k, cb) # (k', cb') # cbs else if k = k' then (k, cb) # cbs else (k', cb') # cbs_put k cb cbs)"

text \<open>The counter of ids is a static variable of the member function, so there is one for each type.\<close>

definition AddListener :: "('v, 'cb) config \<Rightarrow> ('v, 'cb) config_var \<Rightarrow> 'cb \<Rightarrow> u64 \<times> ('v, 'cb) config \<times> ('v, 'cb) config_var" where
  "AddListener cf var cb =
     (let id = cf_fun_id cf (cv_type var) + 1 in
      (id, cf\<lparr>cf_fun_id := (cf_fun_id cf)(cv_type var := id)\<rparr>, var\<lparr>cv_cbs := cbs_put id cb (cv_cbs var)\<rparr>))"

definition DelListener :: "('v, 'cb) config_var \<Rightarrow> u64 \<Rightarrow> ('v, 'cb) config_var" where
  "DelListener var key = var\<lparr>cv_cbs := filter (\<lambda>(k, _). k \<noteq> key) (cv_cbs var)\<rparr>"

definition GetListener :: "('v, 'cb) config_var \<Rightarrow> u64 \<Rightarrow> 'cb option" where
  "GetListener var key = map_of (cv_cbs var) key"

definition ClearListener :: "('v, 'cb) config_var \<Rightarrow> ('v, 'cb) config_var" where
  "ClearListener var = var\<lparr>cv_cbs := []\<rparr>"

section \<open>The registry\<close>

definition Config :: "('v, 'cb) config" where
  "Config = \<lparr>cf_datas = [], cf_fun_id = (\<lambda>_. 0)\<rparr>"

definition name_chars :: string where
  "name_chars = ''abcdefghikjlmnopqrstuvwxyz._012345678''"

definition name_valid :: "string \<Rightarrow> bool" where
  "name_valid name \<longleftrightarrow> find_first_not_of name name_chars = None"

definition LookupBase :: "('v, 'cb) config \<Rightarrow> string \<Rightarrow> ('v, 'cb) config_var option" where
  "LookupBase cf name = map_of (cf_datas cf) name"

text \<open>Looking up with a default creates the variable; the result is the variable found or made, or null for another type.\<close>

definition Lookup_or_create :: "('v, 'cb) config \<Rightarrow> string \<Rightarrow> string \<Rightarrow> 'v \<Rightarrow> string \<Rightarrow>
    (('v, 'cb) config_var option \<times> ('v, 'cb) config) result" where
  "Lookup_or_create cf type name default_value description =
     (case map_of (cf_datas cf) name of
        Some var \<Rightarrow> Inr (if cv_type var = type then Some var else None, cf)
      | None \<Rightarrow>
          if \<not> name_valid name then Inl Invalid_Argument
          else
            let v = ConfigVar type name default_value description in
            Inr (Some v, cf\<lparr>cf_datas := cf_datas cf @ [(name, v)]\<rparr>))"

definition Config_Lookup :: "('v, 'cb) config \<Rightarrow> string \<Rightarrow> string \<Rightarrow> ('v, 'cb) config_var option" where
  "Config_Lookup cf type name =
     (case map_of (cf_datas cf) name of
        None \<Rightarrow> None
      | Some var \<Rightarrow> if cv_type var = type then Some var else None)"

definition Visit :: "('v, 'cb) config \<Rightarrow> (('v, 'cb) config_var \<Rightarrow> 'r) \<Rightarrow> 'r list" where
  "Visit cf cb = map (\<lambda>(_, var). cb var) (cf_datas cf)"

text \<open>A variable changed through the pointer to it.\<close>

definition put_var :: "('v, 'cb) config \<Rightarrow> string \<Rightarrow> ('v, 'cb) config_var \<Rightarrow> ('v, 'cb) config" where
  "put_var cf name var = cf\<lparr>cf_datas := map (\<lambda>(k, v). (k, if k = name then var else v)) (cf_datas cf)\<rparr>"

section \<open>Loading\<close>

definition sub_name :: "string \<Rightarrow> string \<Rightarrow> string" where
  "sub_name prefix key = (if prefix = [] then key else prefix @ ''.'' @ key)"

fun ListAllMember :: "string \<Rightarrow> yaml \<Rightarrow> (string \<times> yaml) list \<Rightarrow> (string \<times> yaml) list"
  and list_pairs :: "string \<Rightarrow> (string \<times> yaml) list \<Rightarrow> (string \<times> yaml) list \<Rightarrow> (string \<times> yaml) list" where
  "ListAllMember prefix (YMap ps) output =
     (if \<not> name_valid prefix then output else list_pairs prefix ps (output @ [(prefix, YMap ps)]))"
| "ListAllMember prefix node output =
     (if \<not> name_valid prefix then output else output @ [(prefix, node)])"
| "list_pairs prefix [] output = output"
| "list_pairs prefix ((key, node) # ps) output =
     list_pairs prefix ps (ListAllMember (sub_name prefix key) node output)"

definition load_member :: "(string \<Rightarrow> 'v \<Rightarrow> 'v \<Rightarrow> bool) \<Rightarrow> yaml_lib \<Rightarrow> (string \<Rightarrow> 'v from_str) \<Rightarrow> string \<times> yaml \<Rightarrow>
    ('cb \<times> 'v \<times> 'v) list \<times> ('v, 'cb) config \<Rightarrow> ('cb \<times> 'v \<times> 'v) list \<times> ('v, 'cb) config" where
  "load_member eqv lib from_s m st =
     (case (m, st) of ((key, node), (calls, cf)) \<Rightarrow>
        if key = [] then st
        else
          let key = map tolower key in
          case LookupBase cf key of
            None \<Rightarrow> st
          | Some var \<Rightarrow>
              let (_, calls', var') = FromString eqv from_s var (case node of Scalar s \<Rightarrow> s | _ \<Rightarrow> y_emit lib node)
              in (calls @ calls', put_var cf key var'))"

definition LoadFromYaml :: "(string \<Rightarrow> 'v \<Rightarrow> 'v \<Rightarrow> bool) \<Rightarrow> yaml_lib \<Rightarrow> (string \<Rightarrow> 'v from_str) \<Rightarrow> yaml \<Rightarrow> ('v, 'cb) config \<Rightarrow>
    ('cb \<times> 'v \<times> 'v) list \<times> ('v, 'cb) config" where
  "LoadFromYaml eqv lib from_s root cf = fold (load_member eqv lib from_s) (ListAllMember '''' root []) ([], cf)"

text \<open>
  One file of \<open>LoadFromConfDir\<close>: \<open>mtime\<close> is the time \<open>lstat\<close> gives and \<open>load_file\<close> what the library reads from the file, if it does
  not throw. The times already seen are kept, a file not seen counts as time zero.
\<close>

definition load_file_step :: "(string \<Rightarrow> 'v \<Rightarrow> 'v \<Rightarrow> bool) \<Rightarrow> yaml_lib \<Rightarrow> (string \<Rightarrow> 'v from_str) \<Rightarrow> (string \<Rightarrow> u64) \<Rightarrow> (string \<Rightarrow> yaml option) \<Rightarrow> bool \<Rightarrow> string \<Rightarrow>
    (string \<Rightarrow> u64) \<times> ('cb \<times> 'v \<times> 'v) list \<times> ('v, 'cb) config \<Rightarrow> (string \<Rightarrow> u64) \<times> ('cb \<times> 'v \<times> 'v) list \<times> ('v, 'cb) config" where
  "load_file_step eqv lib from_s mtime load_file force i st =
     (case st of (file2modifytime, calls, cf) \<Rightarrow>
        if \<not> force \<and> file2modifytime i = mtime i then st
        else
          let seen = file2modifytime(i := mtime i) in
          case load_file i of
            None \<Rightarrow> (seen, calls, cf)
          | Some root \<Rightarrow> let (calls', cf') = LoadFromYaml eqv lib from_s root cf in (seen, calls @ calls', cf'))"

definition LoadFromConfDir :: "(string \<Rightarrow> 'v \<Rightarrow> 'v \<Rightarrow> bool) \<Rightarrow> yaml_lib \<Rightarrow> (string \<Rightarrow> 'v from_str) \<Rightarrow> dir_ops \<Rightarrow> (string \<Rightarrow> node) \<Rightarrow> (string \<Rightarrow> u64) \<Rightarrow>
    (string \<Rightarrow> yaml option) \<Rightarrow> env \<Rightarrow> string \<Rightarrow> bool \<Rightarrow> (string \<Rightarrow> u64) \<times> ('v, 'cb) config \<Rightarrow>
    (string \<Rightarrow> u64) \<times> ('cb \<times> 'v \<times> 'v) list \<times> ('v, 'cb) config" where
  "LoadFromConfDir eqv lib from_s ops tree mtime load_file e path force st =
     (let absolute_path = GetAbsolutePath e path;
          files = ListAllFile ops [] absolute_path ''.yml'' (tree absolute_path)
      in fold (load_file_step eqv lib from_s mtime load_file force) files (fst st, [], snd st))"

section \<open>The invariant of the registry\<close>

lemma find_first_not_of_None: "find_first_not_of s d = None \<longleftrightarrow> set s \<subseteq> set d"
proof -
  have "takeWhile P s = s \<longleftrightarrow> \<not> length (takeWhile P s) < length s" for P
    by (metis length_takeWhile_le nat_less_le not_less takeWhile_eq_take take_all)
  then have "find_first_not_of s d = None \<longleftrightarrow> takeWhile (\<lambda>x. x \<in> set d) s = s"
    by (simp add: find_first_not_of_def Let_def)
  then show ?thesis by (auto simp: takeWhile_eq_all_conv)
qed

lemma name_valid_iff: "name_valid name \<longleftrightarrow> set name \<subseteq> set name_chars"
  by (simp add: name_valid_def find_first_not_of_None)

lemma tolower_valid: "name_valid name \<Longrightarrow> map tolower name = name"
proof -
  have "list_all (\<lambda>c. tolower c = c) name_chars" by code_simp
  then show "name_valid name \<Longrightarrow> map tolower name = name"
    by (auto simp: name_valid_iff list_all_iff intro!: map_idI)
qed

definition cbs_ok :: "u64 \<Rightarrow> (u64 \<times> 'cb) list \<Rightarrow> bool" where
  "cbs_ok n cbs \<longleftrightarrow> sorted_wrt (<) (map fst cbs) \<and> list_all (\<lambda>k. k \<le> n) (map fst cbs)"

definition entry_ok :: "(string \<Rightarrow> u64) \<Rightarrow> string \<times> ('v, 'cb) config_var \<Rightarrow> bool" where
  "entry_ok ids kv = (case kv of (k, v) \<Rightarrow> name_valid k \<and> cv_name v = k \<and> cbs_ok (ids (cv_type v)) (cv_cbs v))"

definition config_wf :: "('v, 'cb) config \<Rightarrow> bool" where
  "config_wf cf \<longleftrightarrow> distinct (map fst (cf_datas cf)) \<and> list_all (entry_ok (cf_fun_id cf)) (cf_datas cf)"

text \<open>What the program does with the registry: everything changes one variable through its pointer, except creating and loading.\<close>

inductive config_step :: "('v, 'cb) config \<Rightarrow> ('v, 'cb) config \<Rightarrow> bool" where
  create: "Lookup_or_create cf type name v desc = Inr (r, cf') \<Longrightarrow> config_step cf cf'"
| set_value: "LookupBase cf name = Some var \<Longrightarrow> config_step cf (put_var cf name (snd (SetValue eqv var v)))"
| add_listener: "LookupBase cf name = Some var \<Longrightarrow> cf_fun_id cf (cv_type var) \<noteq> - 1 \<Longrightarrow> AddListener cf var cb = (key, cf1, var1) \<Longrightarrow>
    config_step cf (put_var cf1 name var1)"
| del_listener: "LookupBase cf name = Some var \<Longrightarrow> config_step cf (put_var cf name (DelListener var key))"
| clear_listener: "LookupBase cf name = Some var \<Longrightarrow> config_step cf (put_var cf name (ClearListener var))"
| load: "LoadFromYaml eqv lib from_s root cf = (calls, cf') \<Longrightarrow> config_step cf cf'"

inductive config_reachable :: "('v, 'cb) config \<Rightarrow> bool" where
  start: "config_reachable Config"
| step: "config_reachable cf \<Longrightarrow> config_step cf cf' \<Longrightarrow> config_reachable cf'"

lemma put_var_keys [simp]: "map fst (cf_datas (put_var cf name var)) = map fst (cf_datas cf)" "cf_fun_id (put_var cf name var) = cf_fun_id cf"
  by (auto simp: put_var_def)

lemma LookupBase_put_var:
  "LookupBase (put_var cf name var) k = (if k = name \<and> LookupBase cf name \<noteq> None then Some var else LookupBase cf k)"
proof -
  have "map_of (map (\<lambda>(k, v). (k, if k = name then var else v)) ds) k =
      (if k = name \<and> map_of ds name \<noteq> None then Some var else map_of ds k)" for ds
    by (induction ds) auto
  then show ?thesis by (simp add: LookupBase_def put_var_def)
qed

lemma put_var_wf:
  assumes "config_wf cf" "entry_ok (cf_fun_id cf) (name, var)"
  shows "config_wf (put_var cf name var)"
proof -
  have "list_all (entry_ok (cf_fun_id cf)) (cf_datas (put_var cf name var))"
    using assms unfolding config_wf_def put_var_def by (auto simp: list_all_iff)
  then show ?thesis using assms(1) by (simp add: config_wf_def)
qed

lemma LookupBase_ok: "config_wf cf \<Longrightarrow> LookupBase cf name = Some var \<Longrightarrow> entry_ok (cf_fun_id cf) (name, var)"
  by (auto simp: config_wf_def LookupBase_def list_all_iff dest: map_of_SomeD)

lemma SetValue_ok: "entry_ok ids (k, var) \<Longrightarrow> entry_ok ids (k, snd (SetValue eqv var v))"
  by (simp add: SetValue_def entry_ok_def)

lemma FromString_ok: "entry_ok ids (k, var) \<Longrightarrow> entry_ok ids (k, snd (snd (FromString eqv from_s var s)))"
  by (simp add: FromString_def SetValue_ok split: option.splits)

lemma set_cbs_put: "x \<in> set (cbs_put k cb cbs) \<Longrightarrow> fst x = k \<or> x \<in> set cbs"
  by (induction k cb cbs rule: cbs_put.induct) (auto split: if_splits)

lemma sorted_cbs_put: "sorted_wrt (<) (map fst cbs) \<Longrightarrow> sorted_wrt (<) (map fst (cbs_put k cb cbs))"
proof (induction k cb cbs rule: cbs_put.induct)
  case (2 k cb k' cb' cbs)
  consider "k < k'" | "k = k'" | "k' < k" by (rule linorder_cases)
  then show ?case
  proof cases
    case 3
    then have "k' < fst x" if "x \<in> set (cbs_put k cb cbs)" for x using set_cbs_put [OF that] 2(2) by auto
    moreover have "\<not> k < k'" "k \<noteq> k'" using 3 by auto
    ultimately show ?thesis using 2 by simp
  qed (use 2(2) in auto)
qed simp

lemma cbs_put_ok: "cbs_ok n cbs \<Longrightarrow> n \<le> k \<Longrightarrow> cbs_ok k (cbs_put k cb cbs)"
  using sorted_cbs_put [of cbs k cb] by (auto simp: cbs_ok_def list_all_iff dest!: set_cbs_put)

lemma le_plus_1: "(n :: u64) \<noteq> - 1 \<Longrightarrow> n \<le> n + 1"
proof -
  assume "n \<noteq> - 1"
  then have "1 + n \<noteq> 0" by (metis add_eq_0_iff2 add.commute)
  then show "n \<le> n + 1" using unatSuc [of n] by (simp add: word_le_nat_alt add.commute)
qed

lemma load_member_wf: "config_wf (snd st) \<Longrightarrow> config_wf (snd (load_member eqv lib from_s m st))"
proof -
  assume wf: "config_wf (snd st)"
  obtain key node calls cf where m: "m = (key, node)" "st = (calls, cf)" by (cases m, cases st)
  show ?thesis
  proof (cases "key = [] \<or> LookupBase cf (map tolower key) = None")
    case True
    then show ?thesis using wf m by (auto simp: load_member_def)
  next
    case False
    then obtain var where v: "LookupBase cf (map tolower key) = Some var" by auto
    let ?s = "case node of Scalar s \<Rightarrow> s | _ \<Rightarrow> y_emit lib node"
    obtain b calls' var' where f: "FromString eqv from_s var ?s = (b, calls', var')" by (cases "FromString eqv from_s var ?s")
    have "config_wf (put_var cf (map tolower key) (snd (snd (FromString eqv from_s var ?s))))"
      using wf m(2) v by (intro put_var_wf FromString_ok LookupBase_ok) simp_all
    then show ?thesis using m v False f by (simp add: load_member_def Let_def)
  qed
qed

lemma load_members_wf: "config_wf (snd st) \<Longrightarrow> config_wf (snd (fold (load_member eqv lib from_s) ms st))"
  by (induction ms arbitrary: st) (simp_all add: load_member_wf)

lemma LoadFromYaml_wf: "config_wf cf \<Longrightarrow> config_wf (snd (LoadFromYaml eqv lib from_s root cf))"
  by (simp add: LoadFromYaml_def load_members_wf)

lemma config_step_wf: "config_step cf cf' \<Longrightarrow> config_wf cf \<Longrightarrow> config_wf cf'"
proof (induction rule: config_step.induct)
  case (create cf type name v desc r cf')
  show ?case
  proof (cases "map_of (cf_datas cf) name")
    case None
    then have c: "cf' = cf\<lparr>cf_datas := cf_datas cf @ [(name, ConfigVar type name v desc)]\<rparr>" "name_valid name"
      using create.hyps by (auto simp: Lookup_or_create_def Let_def split: if_splits)
    then show ?thesis using create.prems None tolower_valid [OF c(2)]
      by (simp add: config_wf_def map_of_eq_None_iff entry_ok_def ConfigVar_def cbs_ok_def)
  next
    case (Some var)
    then show ?thesis using create by (simp add: Lookup_or_create_def)
  qed
next
  case (set_value cf name var v)
  then show ?case by (intro put_var_wf SetValue_ok LookupBase_ok)
next
  case (add_listener cf name var cb key cf1 var1)
  let ?n = "cf_fun_id cf (cv_type var)"
  have n: "?n \<le> ?n + 1" using add_listener.hyps(2) by (rule le_plus_1)
  have d: "key = ?n + 1" "cf1 = cf\<lparr>cf_fun_id := (cf_fun_id cf)(cv_type var := ?n + 1)\<rparr>" "var1 = var\<lparr>cv_cbs := cbs_put (?n + 1) cb (cv_cbs var)\<rparr>"
    using add_listener.hyps(3) by (auto simp: AddListener_def Let_def)
  have mono: "entry_ok (cf_fun_id cf) e \<Longrightarrow> entry_ok (cf_fun_id cf1) e" for e
    using n unfolding d by (auto simp: entry_ok_def cbs_ok_def list_all_iff split: prod.splits intro: order_trans)
  have "cf_datas cf1 = cf_datas cf" by (simp add: d(2))
  then have "config_wf cf1" using add_listener.prems mono by (auto simp: config_wf_def list_all_iff)
  moreover have "entry_ok (cf_fun_id cf1) (name, var1)"
    using LookupBase_ok [OF add_listener.prems add_listener.hyps(1)] cbs_put_ok [OF _ n] by (auto simp: d entry_ok_def)
  ultimately show ?case by (rule put_var_wf)
next
  case (del_listener cf name var key)
  then have "entry_ok (cf_fun_id cf) (name, DelListener var key)"
    using LookupBase_ok [of cf name var] by (auto simp: entry_ok_def cbs_ok_def DelListener_def list_all_iff sorted_wrt_map sorted_wrt_filter)
  then show ?case using del_listener.prems by (intro put_var_wf)
next
  case (clear_listener cf name var)
  then have "entry_ok (cf_fun_id cf) (name, ClearListener var)"
    using LookupBase_ok [of cf name var] by (auto simp: entry_ok_def cbs_ok_def ClearListener_def)
  then show ?case using clear_listener.prems by (intro put_var_wf)
next
  case (load eqv lib from_s root cf calls cf')
  then show ?case using LoadFromYaml_wf [of cf eqv lib from_s root] by simp
qed


lemma config_reachable_wf: "config_reachable cf \<Longrightarrow> config_wf cf"
proof (induction rule: config_reachable.induct)
  case start
  show ?case by (simp add: Config_def config_wf_def)
qed (rule config_step_wf)

section \<open>The members of a document\<close>

text \<open>The node that a list of keys leads to.\<close>

fun member_at :: "yaml \<Rightarrow> string list \<Rightarrow> yaml \<Rightarrow> bool" where
  "member_at n [] m \<longleftrightarrow> m = n"
| "member_at n (k # ks) m \<longleftrightarrow> (case n of YMap ps \<Rightarrow> \<exists>m'. (k, m') \<in> set ps \<and> member_at m' ks m | _ \<Rightarrow> False)"

lemma sub_names_valid: "name_valid (foldl sub_name prefix ks) \<Longrightarrow> name_valid prefix"
proof (induction ks arbitrary: prefix)
  case (Cons k ks)
  then have "name_valid (sub_name prefix k)" by simp
  then show ?case by (auto simp: name_valid_iff sub_name_def split: if_splits)
qed simp

definition members_below :: "string \<Rightarrow> yaml \<Rightarrow> (string \<times> yaml) set" where
  "members_below prefix n = {(p, m). \<exists>ks. member_at n ks m \<and> p = foldl sub_name prefix ks \<and> name_valid p}"

lemma members_below_leaf:
  assumes "\<forall>ps. n \<noteq> YMap ps"
  shows "members_below prefix n = (if name_valid prefix then {(prefix, n)} else {})"
proof -
  have "member_at n ks m \<longleftrightarrow> ks = [] \<and> m = n" for ks m using assms by (cases ks; cases n) auto
  then show ?thesis by (auto simp: members_below_def)
qed

lemma members_below_map:
  "members_below prefix (YMap ps) = (if name_valid prefix
     then insert (prefix, YMap ps) (\<Union>(k, n) \<in> set ps. members_below (sub_name prefix k) n) else {})"
proof (cases "name_valid prefix")
  case True
  have "(p, m) \<in> members_below prefix (YMap ps) \<longleftrightarrow> (p, m) = (prefix, YMap ps) \<or>
      (\<exists>k n. (k, n) \<in> set ps \<and> (p, m) \<in> members_below (sub_name prefix k) n)" for p m
  proof
    assume "(p, m) \<in> members_below prefix (YMap ps)"
    then obtain ks where "member_at (YMap ps) ks m" "p = foldl sub_name prefix ks" "name_valid p" by (auto simp: members_below_def)
    then show "(p, m) = (prefix, YMap ps) \<or> (\<exists>k n. (k, n) \<in> set ps \<and> (p, m) \<in> members_below (sub_name prefix k) n)"
      by (cases ks) (auto simp: members_below_def)
  next
    assume "(p, m) = (prefix, YMap ps) \<or> (\<exists>k n. (k, n) \<in> set ps \<and> (p, m) \<in> members_below (sub_name prefix k) n)"
    then show "(p, m) \<in> members_below prefix (YMap ps)"
    proof (elim disjE exE conjE)
      fix k n assume k: "(k, n) \<in> set ps" "(p, m) \<in> members_below (sub_name prefix k) n"
      then obtain ks where "member_at n ks m" "p = foldl sub_name (sub_name prefix k) ks" "name_valid p" by (auto simp: members_below_def)
      then have "member_at (YMap ps) (k # ks) m" "p = foldl sub_name prefix (k # ks)" "name_valid p" using k(1) by auto
      then show ?thesis unfolding members_below_def by blast
    qed (use True in \<open>auto simp: members_below_def intro: exI [of _ "[]"]\<close>)
  qed
  then show ?thesis using True by auto
next
  case False
  then show ?thesis using sub_names_valid by (auto simp: members_below_def)
qed

lemma ListAllMember_set:
  "set (ListAllMember prefix n out) = set out \<union> members_below prefix n"
  "set (list_pairs prefix ps out) = set out \<union> (\<Union>(k, n) \<in> set ps. members_below (sub_name prefix k) n)"
proof (induction prefix n out and prefix ps out rule: ListAllMember_list_pairs.induct)
  case (1 prefix ps out)
  then show ?case unfolding members_below_map by simp
qed (simp_all add: members_below_leaf Un_assoc)

lemma ListAllMember_keys: "(k, n) \<in> set (ListAllMember '''' root []) \<Longrightarrow> map tolower k = k"
  using ListAllMember_set(1) [of "''''" root "[]"] tolower_valid by (auto simp: members_below_def)

section \<open>Loading, seen from one variable\<close>

definition node_text :: "yaml_lib \<Rightarrow> yaml \<Rightarrow> string" where
  "node_text lib n = (case n of Scalar s \<Rightarrow> s | _ \<Rightarrow> y_emit lib n)"

definition load_var :: "(string \<Rightarrow> 'v \<Rightarrow> 'v \<Rightarrow> bool) \<Rightarrow> yaml_lib \<Rightarrow> (string \<Rightarrow> 'v from_str) \<Rightarrow> string \<times> yaml \<Rightarrow> ('v, 'cb) config_var \<Rightarrow> ('v, 'cb) config_var" where
  "load_var eqv lib from_s m var = snd (snd (FromString eqv from_s var (node_text lib (snd m))))"

lemma load_member_var:
  assumes "map tolower k = k"
  shows "LookupBase (snd (load_member eqv lib from_s (k, n) st)) name =
    (if k = name \<and> k \<noteq> [] then map_option (load_var eqv lib from_s (k, n)) (LookupBase (snd st) name) else LookupBase (snd st) name)"
proof -
  obtain calls cf where st: "st = (calls, cf)" by fastforce
  show ?thesis
  proof (cases "k = [] \<or> LookupBase cf k = None")
    case True
    then show ?thesis using assms st by (auto simp: load_member_def)
  next
    case False
    then obtain var where v: "LookupBase cf k = Some var" by auto
    obtain b calls' var' where f: "FromString eqv from_s var (node_text lib n) = (b, calls', var')" by (cases "FromString eqv from_s var (node_text lib n)")
    have "snd (load_member eqv lib from_s (k, n) st) = put_var cf k var'"
      using False v f assms st by (simp add: load_member_def node_text_def)
    then show ?thesis using v f st False by (auto simp: LookupBase_put_var load_var_def)
  qed
qed

lemma load_members_var:
  assumes "\<forall>(k, n) \<in> set ms. map tolower k = k"
  shows "LookupBase (snd (fold (load_member eqv lib from_s) ms st)) name =
    map_option (fold (load_var eqv lib from_s) (filter (\<lambda>(k, _). k = name \<and> k \<noteq> []) ms)) (LookupBase (snd st) name)"
  using assms
proof (induction ms arbitrary: st)
  case (Cons m ms)
  obtain k n where m: "m = (k, n)" by fastforce
  then have "map tolower k = k" using Cons.prems by auto
  from load_member_var [OF this, of eqv lib from_s n st name] Cons m show ?case
    by (auto simp: option.map_comp comp_def)
qed (simp add: option.map_id)

lemma cbs_put_last: "list_all (\<lambda>(c, _). c < k) cbs \<Longrightarrow> cbs_put k cb cbs = cbs @ [(k, cb)]"
  by (induction cbs) auto

section \<open>Loading a directory\<close>

lemma load_file_seen:
  "fst (load_file_step eqv lib from_s mtime load_file force i st) = (fst st)(i := mtime i)"
  by (cases st) (auto simp: load_file_step_def Let_def split: option.splits prod.splits)

lemma load_files_seen:
  assumes "fst (fold (load_file_step eqv lib from_s mtime load_file force) files st) = seen"
  shows "\<forall>f \<in> set files. seen f = mtime f"
proof -
  have "fst (fold (load_file_step eqv lib from_s mtime load_file force) files st) f = (if f \<in> set files then mtime f else fst st f)" for f
    by (induction files arbitrary: st) (auto simp: load_file_seen)
  then show ?thesis using assms by auto
qed

lemma load_files_skip:
  assumes "\<forall>f \<in> set files. seen f = mtime f"
  shows "fold (load_file_step eqv lib from_s mtime load_file False) files (seen, calls, cf) = (seen, calls, cf)"
  using assms by (induction files) (auto simp: load_file_step_def)

section \<open>Properties\<close>

text \<open>
  The registry, whatever the program does with it: a variable is registered once, under the name it carries, which has allowed
  characters only, and its listeners have different ids. Looking up a free name creates the variable with its default, and from then on
  every lookup of that type gives it, whatever the default; of another type, null; a free name with other characters is an exception.
\<close>

theorem config_registry:
  assumes "config_reachable cf"
  shows "(\<forall>name var. LookupBase cf name = Some var \<longrightarrow> name_valid name \<and> cv_name var = name \<and> distinct (map fst (cv_cbs var))) \<and>
    (case LookupBase cf name of
       None \<Rightarrow>
         if name_valid name then \<exists>var cf'. Lookup_or_create cf type name v desc = Inr (Some var, cf') \<and> cv_val var = v \<and> cv_name var = name \<and>
           Lookup_or_create cf' type name v' desc' = Inr (Some var, cf') \<and> Config_Lookup cf' type name = Some var \<and>
           (\<forall>other. other \<noteq> name \<longrightarrow> LookupBase cf' other = LookupBase cf other)
         else Lookup_or_create cf type name v desc = Inl Invalid_Argument
     | Some var \<Rightarrow> Lookup_or_create cf type name v desc = Inr (if cv_type var = type then Some var else None, cf))"
proof (intro conjI allI impI)
  note wf = config_reachable_wf [OF assms]
  fix k var assume "LookupBase cf k = Some var"
  from LookupBase_ok [OF wf this] show "name_valid k" "cv_name var = k" "distinct (map fst (cv_cbs var))"
    by (simp_all add: entry_ok_def cbs_ok_def strict_sorted_iff)
next
  show "case LookupBase cf name of
       None \<Rightarrow>
         if name_valid name then \<exists>var cf'. Lookup_or_create cf type name v desc = Inr (Some var, cf') \<and> cv_val var = v \<and> cv_name var = name \<and>
           Lookup_or_create cf' type name v' desc' = Inr (Some var, cf') \<and> Config_Lookup cf' type name = Some var \<and>
           (\<forall>other. other \<noteq> name \<longrightarrow> LookupBase cf' other = LookupBase cf other)
         else Lookup_or_create cf type name v desc = Inl Invalid_Argument
     | Some var \<Rightarrow> Lookup_or_create cf type name v desc = Inr (if cv_type var = type then Some var else None, cf)"
  proof (cases "LookupBase cf name")
    case None
    then show ?thesis using tolower_valid [of name]
      by (auto simp: Lookup_or_create_def LookupBase_def Config_Lookup_def ConfigVar_def map_add_def Let_def split: option.splits)
  qed (auto simp: Lookup_or_create_def LookupBase_def)
qed

theorem config_registry_witness:
  "\<exists>var cf'. Lookup_or_create (Config :: (int, unit) config) ''int'' ''tcp.port'' 80 ''port'' = Inr (Some var, cf') \<and>
     Config_Lookup cf' ''int'' ''tcp.port'' = Some var"
proof -
  have "name_valid ''tcp.port''" by code_simp
  moreover have "LookupBase (Config :: (int, unit) config) ''tcp.port'' = None" by (simp add: Config_def LookupBase_def)
  moreover have r: "config_reachable (Config :: (int, unit) config)" by (rule config_reachable.start)
  ultimately show ?thesis
    using config_registry [OF r, of "''tcp.port''" "''int''" 80 "''port''" 81 "''''"] by auto
qed

text \<open>
  Setting a variable to another value tells every listener once, in the order they were added, the old and the new value, and then
  stores the value; setting it to the value it has does nothing. A listener added gets an id no other listener of the variable has and is
  told last; removing it leaves the others.
\<close>

theorem config_listeners:
  assumes "config_reachable cf" "LookupBase cf name = Some var" "cf_fun_id cf (cv_type var) \<noteq> - 1" "AddListener cf var cb = (key, cf', var')"
  shows "GetListener var key = None \<and> GetListener var' k = (if k = key then Some cb else GetListener var k) \<and>
    GetListener (DelListener var' key) k = GetListener var k \<and>
    SetValue eqv var' v = (if eqv (cv_type var) v (cv_val var) then ([], var')
      else (map (\<lambda>(_, c). (c, cv_val var, v)) (cv_cbs var) @ [(cb, cv_val var, v)], var'\<lparr>cv_val := v\<rparr>)) \<and>
    (eqv (cv_type var) v v \<longrightarrow> fst (SetValue eqv (snd (SetValue eqv var' v)) v) = [])"
proof -
  let ?n = "cf_fun_id cf (cv_type var)"
  from LookupBase_ok [OF config_reachable_wf [OF assms(1)] assms(2)] have ok: "cbs_ok ?n (cv_cbs var)" by (simp add: entry_ok_def)
  have key: "key = ?n + 1" "var' = var\<lparr>cv_cbs := cbs_put key cb (cv_cbs var)\<rparr>" using assms(4) by (auto simp: AddListener_def Let_def)
  have "?n < ?n + 1" using le_plus_1 [OF assms(3)] by (simp add: order_less_le)
  then have less: "list_all (\<lambda>(c, _). c < key) (cv_cbs var)" using ok key(1) by (auto simp: cbs_ok_def list_all_iff)
  then have "cbs_put key cb (cv_cbs var) = cv_cbs var @ [(key, cb)]" by (rule cbs_put_last)
  then have cbs: "cv_cbs var' = cv_cbs var @ [(key, cb)]" "cv_val var' = cv_val var" "cv_type var' = cv_type var" using key(2) by simp_all
  have no: "map_of (cv_cbs var) key = None" using less by (auto simp: map_of_eq_None_iff list_all_iff)
  have "filter (\<lambda>(c, _). c \<noteq> key) (cv_cbs var) = cv_cbs var" using less by (intro filter_True) (auto simp: list_all_iff)
  then show ?thesis using cbs no
    by (auto simp: GetListener_def DelListener_def SetValue_def map_add_def split: option.splits)
qed

definition port_config :: "(int, string) config" where
  "port_config = \<lparr>cf_datas = [(''tcp.port'', ConfigVar ''int'' ''tcp.port'' 80 '''')], cf_fun_id = (\<lambda>_. 0)\<rparr>"

lemma port_config_reachable: "config_reachable port_config"
proof -
  have "name_valid ''tcp.port''" by code_simp
  then have "Lookup_or_create Config ''int'' ''tcp.port'' 80 '''' = Inr (Some (ConfigVar ''int'' ''tcp.port'' 80 ''''), port_config)"
    by (simp add: Lookup_or_create_def Config_def port_config_def Let_def)
  from config_reachable.step [OF config_reachable.start config_step.create [OF this]] show ?thesis .
qed

theorem config_listeners_witness:
  "\<exists>key cf' var'. AddListener port_config (ConfigVar ''int'' ''tcp.port'' 80 '''') ''log'' = (key, cf', var') \<and>
     fst (SetValue (\<lambda>_. (=)) var' 8080) = [(''log'', 80, 8080)]"
proof -
  let ?var = "ConfigVar ''int'' ''tcp.port'' 80 ''''  :: (int, string) config_var"
  obtain key cf' var' where a: "AddListener port_config ?var ''log'' = (key, cf', var')" by (cases "AddListener port_config ?var ''log''")
  have l: "LookupBase port_config ''tcp.port'' = Some ?var" "cf_fun_id port_config (cv_type ?var) \<noteq> - 1" "cv_cbs ?var = []" "cv_val ?var = 80"
    by (simp_all add: port_config_def LookupBase_def ConfigVar_def)
  from config_listeners [OF port_config_reachable l(1, 2) a, of 0 "\<lambda>_. (=)" 8080] a l(3, 4) show ?thesis by simp
qed

text \<open>
  The members of a document: exactly the nodes reachable through keys, each under its keys joined by dots, provided that name has
  allowed characters only; in particular a name with an upper-case letter is not listed, and neither is anything below it.
\<close>

theorem list_all_member_spec:
  "set (ListAllMember '''' root []) = members_below '''' root \<and>
   ((k, n) \<in> set (ListAllMember '''' root []) \<longrightarrow> map tolower k = k)"
  using ListAllMember_set(1) [of "''''" root "[]"] ListAllMember_keys by auto

theorem list_all_member_spec_witness:
  "map tolower ''a.b'' = ''a.b'' \<and> (''a.b'', Scalar ''1'') \<in> set (ListAllMember '''' (YMap [(''a'', YMap [(''b'', Scalar ''1''), (''C'', YNull)])]) [])"
proof -
  let ?r = "YMap [(''a'', YMap [(''b'', Scalar ''1''), (''C'', YNull)])]"
  have "(''a.b'', Scalar ''1'') \<in> set (ListAllMember '''' ?r [])" by code_simp
  with list_all_member_spec [of ?r "''a.b''" "Scalar ''1''"] show ?thesis by blast
qed


text \<open>
  Loading a directory again, not forced and with no file changed since, loads nothing, calls no listener and changes nothing.
\<close>

theorem conf_dir_unchanged:
  assumes "LoadFromConfDir eqv lib from_s ops tree mtime load_file e path force st = (seen, calls, cf)"
  shows "LoadFromConfDir eqv lib from_s ops tree mtime load_file e path False (seen, cf) = (seen, [], cf)"
proof -
  let ?files = "ListAllFile ops [] (GetAbsolutePath e path) ''.yml'' (tree (GetAbsolutePath e path))"
  have "fst (fold (load_file_step eqv lib from_s mtime load_file force) ?files (fst st, [], snd st)) = seen"
    using assms by (simp add: LoadFromConfDir_def Let_def)
  then have "\<forall>f \<in> set ?files. seen f = mtime f" using load_files_seen by blast
  then have "fold (load_file_step eqv lib from_s mtime load_file False) ?files (seen, [], cf) = (seen, [], cf)"
    by (rule load_files_skip)
  then show ?thesis by (simp add: LoadFromConfDir_def Let_def)
qed

theorem conf_dir_unchanged_witness:
  "\<exists>seen calls cf. LoadFromConfDir (\<lambda>_. (=)) small_lib (\<lambda>_ s. Some s) \<lparr>access_ok = \<lambda>_. True, opendir_ok = \<lambda>_. True, unlink_ok = \<lambda>_. True, rmdir_ok = \<lambda>_. True\<rparr>
       (\<lambda>_. Dir [(''a.yml'', File REG)]) (\<lambda>_. 7) (\<lambda>_. Some (Scalar ''1'')) Env ''/conf'' True (\<lambda>_. 0, Config :: (string, unit) config) = (seen, calls, cf) \<and>
     LoadFromConfDir (\<lambda>_. (=)) small_lib (\<lambda>_ s. Some s) \<lparr>access_ok = \<lambda>_. True, opendir_ok = \<lambda>_. True, unlink_ok = \<lambda>_. True, rmdir_ok = \<lambda>_. True\<rparr>
       (\<lambda>_. Dir [(''a.yml'', File REG)]) (\<lambda>_. 7) (\<lambda>_. Some (Scalar ''1'')) Env ''/conf'' False (seen, cf) = (seen, [], cf)"
proof -
  let ?load = "LoadFromConfDir (\<lambda>_. (=)) small_lib (\<lambda>_ s. Some s) \<lparr>access_ok = \<lambda>_. True, opendir_ok = \<lambda>_. True, unlink_ok = \<lambda>_. True, rmdir_ok = \<lambda>_. True\<rparr>
       (\<lambda>_. Dir [(''a.yml'', File REG)]) (\<lambda>_. 7) (\<lambda>_. Some (Scalar ''1'')) Env ''/conf''"
  obtain seen calls cf where "?load True (\<lambda>_. 0, Config :: (string, unit) config) = (seen, calls, cf)"
    by (cases "?load True (\<lambda>_. 0, Config :: (string, unit) config)")
  with conf_dir_unchanged [OF this] show ?thesis by blast
qed

end
