(* ===== verification/Log_Format.thy ===== *)
theory Log_Format
  imports Std_String
begin

text \<open>
  Log levels, log events and the pattern formatter of \<open>log/log.h\<close> and \<open>log/log.cc\<close>. The conversion of a time
  by \<open>strftime\<close> is an argument.
\<close>

section \<open>Levels\<close>

datatype log_level = FATAL | ALERT | CRIT | ERROR | WARN | NOTICE | INFO | DEBUG | NOTSET

fun level_value :: "log_level \<Rightarrow> nat" where
  "level_value FATAL = 0"
| "level_value ALERT = 100"
| "level_value CRIT = 200"
| "level_value ERROR = 300"
| "level_value WARN = 400"
| "level_value NOTICE = 500"
| "level_value INFO = 600"
| "level_value DEBUG = 700"
| "level_value NOTSET = 800"

instantiation log_level :: linorder
begin

definition less_eq_log_level :: "log_level \<Rightarrow> log_level \<Rightarrow> bool" where
  "less_eq_log_level a b \<longleftrightarrow> level_value a \<le> level_value b"

definition less_log_level :: "log_level \<Rightarrow> log_level \<Rightarrow> bool" where
  "less_log_level a b \<longleftrightarrow> level_value a < level_value b"

instance
proof
  fix a b c :: log_level
  show "a < b \<longleftrightarrow> a \<le> b \<and> \<not> b \<le> a" by (auto simp: less_eq_log_level_def less_log_level_def)
  show "a \<le> a" by (simp add: less_eq_log_level_def)
  show "a \<le> b \<Longrightarrow> b \<le> c \<Longrightarrow> a \<le> c" by (simp add: less_eq_log_level_def)
  show "a \<le> b \<Longrightarrow> b \<le> a \<Longrightarrow> a = b" by (cases a; cases b) (simp_all add: less_eq_log_level_def)
  show "a \<le> b \<or> b \<le> a" by (auto simp: less_eq_log_level_def)
qed

end

fun Level_ToString :: "log_level \<Rightarrow> string" where
  "Level_ToString FATAL = ''FATAL''"
| "Level_ToString ALERT = ''ALERT''"
| "Level_ToString CRIT = ''CRIT''"
| "Level_ToString ERROR = ''ERROR''"
| "Level_ToString WARN = ''WARN''"
| "Level_ToString NOTICE = ''NOTICE''"
| "Level_ToString INFO = ''INFO''"
| "Level_ToString DEBUG = ''DEBUG''"
| "Level_ToString NOTSET = ''NOTSET''"

definition Level_FromString :: "string \<Rightarrow> log_level" where
  "Level_FromString str =
     (if str = ''fatal'' then FATAL
      else if str = ''alert'' then ALERT
      else if str = ''crit'' then CRIT
      else if str = ''error'' then ERROR
      else if str = ''warn'' then WARN
      else if str = ''notice'' then NOTICE
      else if str = ''info'' then INFO
      else if str = ''debug'' then DEBUG
      else if str = ''FATAL'' then FATAL
      else if str = ''ALERT'' then ALERT
      else if str = ''CRIT'' then CRIT
      else if str = ''ERROR'' then ERROR
      else if str = ''WARN'' then WARN
      else if str = ''NOTICE'' then NOTICE
      else if str = ''INFO'' then INFO
      else if str = ''DEBUG'' then DEBUG
      else NOTSET)"

section \<open>Events and items\<close>

record log_event =
  ev_level :: log_level
  ev_ss :: string
  ev_file :: string
  ev_line :: int
  ev_elapse :: int
  ev_thread_id :: u32
  ev_fiber_id :: u64
  ev_time :: int
  ev_thread_name :: string
  ev_logger_name :: string

definition LogEvent :: "string \<Rightarrow> log_level \<Rightarrow> string \<Rightarrow> int \<Rightarrow> int \<Rightarrow> u32 \<Rightarrow> u64 \<Rightarrow> int \<Rightarrow> string \<Rightarrow> log_event" where
  "LogEvent logger_name level file line elapse thread_id fiber_id time thread_name =
     \<lparr>ev_level = level, ev_ss = [], ev_file = file, ev_line = line, ev_elapse = elapse, ev_thread_id = thread_id,
      ev_fiber_id = fiber_id, ev_time = time, ev_thread_name = thread_name, ev_logger_name = logger_name\<rparr>"

text \<open>\<open>VPrintf\<close>, given what \<open>vasprintf\<close> produces, \<open>None\<close> where it fails.\<close>

definition VPrintf :: "string option \<Rightarrow> log_event \<Rightarrow> log_event" where
  "VPrintf buf ev = (case buf of None \<Rightarrow> ev | Some s \<Rightarrow> ev\<lparr>ev_ss := ev_ss ev @ s\<rparr>)"

datatype format_item =
    MessageFormatItem | LevelFormatItem | ElapseFormatItem | LoggerNameFormatItem | ThreadIdFormatItem
  | FiberIdFormatItem | ThreadNameFormatItem | DateTimeFormatItem string | FileNameFormatItem | LineFormatItem
  | NewLineFormatItem | StringFormatItem string | TabFormatItem | PercentSignFormatItem

definition default_dateformat :: string where
  "default_dateformat = ''%Y-%m-%d %H:%M:%S''"

definition new_DateTimeFormatItem :: "string \<Rightarrow> format_item" where
  "new_DateTimeFormatItem fmt = DateTimeFormatItem (if fmt = [] then default_dateformat else fmt)"

fun Item_Format :: "(string \<Rightarrow> int \<Rightarrow> string) \<Rightarrow> format_item \<Rightarrow> log_event \<Rightarrow> string" where
  "Item_Format strftime MessageFormatItem ev = ev_ss ev"
| "Item_Format strftime LevelFormatItem ev = Level_ToString (ev_level ev)"
| "Item_Format strftime ElapseFormatItem ev = show_int (ev_elapse ev)"
| "Item_Format strftime LoggerNameFormatItem ev = ev_logger_name ev"
| "Item_Format strftime ThreadIdFormatItem ev = show_nat (unat (ev_thread_id ev))"
| "Item_Format strftime FiberIdFormatItem ev = show_nat (unat (ev_fiber_id ev))"
| "Item_Format strftime ThreadNameFormatItem ev = ev_thread_name ev"
| "Item_Format strftime (DateTimeFormatItem fmt) ev = strftime fmt (ev_time ev)"
| "Item_Format strftime FileNameFormatItem ev = ev_file ev"
| "Item_Format strftime LineFormatItem ev = show_int (ev_line ev)"
| "Item_Format strftime NewLineFormatItem ev = [CHR 0x0A]"
| "Item_Format strftime (StringFormatItem s) ev = s"
| "Item_Format strftime TabFormatItem ev = [CHR 0x09]"
| "Item_Format strftime PercentSignFormatItem ev = ''%''"

section \<open>The formatter\<close>

record log_formatter =
  fm_pattern :: string
  fm_items :: "format_item list"
  fm_error :: bool

text \<open>
  The loop of \<open>Init\<close> over the rest of the pattern; the error flag is the first result. Where \<open>%d\<close> ends the
  pattern, \<open>i\<close> is increased past \<open>size()\<close> and \<open>pattern_[i]\<close> is read there.
\<close>

function init_loop :: "string \<Rightarrow> bool \<Rightarrow> string \<Rightarrow> string \<Rightarrow> (nat \<times> string) list \<Rightarrow>
    (bool \<times> string \<times> string \<times> (nat \<times> string) list) result" where
  "init_loop [] parsing_string tmp dateformat patterns = Inr (False, tmp, dateformat, patterns)"
| "init_loop (c # cs) parsing_string tmp dateformat patterns =
     (if c = CHR ''%'' then
        if parsing_string then
          init_loop cs False [] dateformat (if tmp \<noteq> [] then patterns @ [(0, tmp)] else patterns)
        else init_loop cs True tmp dateformat (patterns @ [(1, [c])])
      else if parsing_string then init_loop cs True (tmp @ [c]) dateformat patterns
      else
        let patterns' = patterns @ [(1, [c])] in
        if c \<noteq> CHR ''d'' then init_loop cs True tmp dateformat patterns'
        else if cs = [] then Inl Out_Of_Bounds
        else if hd cs \<noteq> CHR ''{'' then init_loop cs True tmp dateformat patterns'
        else
          let fmt = takeWhile (\<lambda>x. x \<noteq> CHR ''}'') (tl cs);
              rest = dropWhile (\<lambda>x. x \<noteq> CHR ''}'') (tl cs)
          in if rest = [] then Inr (True, tmp, dateformat @ fmt, patterns')
             else init_loop (tl rest) True tmp (dateformat @ fmt) patterns')"
  by pat_completeness auto

termination
proof (relation "measure (\<lambda>(cs, _). length cs)")
  fix c :: char and cs fmt rest :: string and parsing_string tmp dateformat patterns patterns'
  assume "rest = dropWhile (\<lambda>x. x \<noteq> CHR ''}'') (tl cs)"
  then show "((tl rest, True, tmp, dateformat @ fmt, patterns'), c # cs, parsing_string, tmp, dateformat, patterns)
      \<in> measure (\<lambda>(cs, _). length cs)"
    using length_dropWhile_le [of "\<lambda>x. x \<noteq> CHR ''}''" "tl cs"] by simp
qed simp_all

definition s_format_items :: "(string \<times> format_item) list" where
  "s_format_items =
     [(''m'', MessageFormatItem), (''p'', LevelFormatItem), (''c'', LoggerNameFormatItem), (''r'', ElapseFormatItem),
      (''f'', FileNameFormatItem), (''l'', LineFormatItem), (''t'', ThreadIdFormatItem), (''F'', FiberIdFormatItem),
      (''N'', ThreadNameFormatItem), (''%'', PercentSignFormatItem), (''T'', TabFormatItem), (''n'', NewLineFormatItem)]"

fun make_items :: "string \<Rightarrow> (nat \<times> string) list \<Rightarrow> format_item list \<Rightarrow> format_item list \<times> bool" where
  "make_items dateformat [] items = (items, False)"
| "make_items dateformat ((ty, s) # ps) items =
     (if ty = 0 then make_items dateformat ps (items @ [StringFormatItem s])
      else if s = ''d'' then make_items dateformat ps (items @ [new_DateTimeFormatItem dateformat])
      else case map_of s_format_items s of
        None \<Rightarrow> (items, True)
      | Some it \<Rightarrow> make_items dateformat ps (items @ [it]))"

definition Formatter_Init :: "log_formatter \<Rightarrow> log_formatter result" where
  "Formatter_Init fm =
     rbind (init_loop (fm_pattern fm) True [] [] []) (\<lambda>(error, tmp, dateformat, patterns).
     if error then Inr (fm\<lparr>fm_error := True\<rparr>)
     else
       let patterns = (if tmp \<noteq> [] then patterns @ [(0, tmp)] else patterns);
           (items, error) = make_items dateformat patterns (fm_items fm)
       in Inr (fm\<lparr>fm_items := items, fm_error := (if error then True else fm_error fm)\<rparr>))"

definition LogFormatter :: "string \<Rightarrow> log_formatter result" where
  "LogFormatter pattern = Formatter_Init \<lparr>fm_pattern = pattern, fm_items = [], fm_error = False\<rparr>"

definition default_pattern :: string where
  "default_pattern = ''%d{%Y-%m-%d %H:%M:%S} [%rms]%T%t%T%N%T%F%T[%p]%T[%c]%T%f:%l%T%m%n''"

definition Formatter_Format :: "(string \<Rightarrow> int \<Rightarrow> string) \<Rightarrow> log_formatter \<Rightarrow> log_event \<Rightarrow> string" where
  "Formatter_Format strftime fm ev = concat (map (\<lambda>it. Item_Format strftime it ev) (fm_items fm))"

section \<open>Patterns of items\<close>

definition default_items :: "format_item list" where
  "default_items =
     [DateTimeFormatItem default_dateformat, StringFormatItem '' ['', ElapseFormatItem, StringFormatItem ''ms]'', TabFormatItem,
      ThreadIdFormatItem, TabFormatItem, ThreadNameFormatItem, TabFormatItem, FiberIdFormatItem, TabFormatItem,
      StringFormatItem ''['', LevelFormatItem, StringFormatItem '']'', TabFormatItem, StringFormatItem ''['',
      LoggerNameFormatItem, StringFormatItem '']'', TabFormatItem, FileNameFormatItem, StringFormatItem '':'',
      LineFormatItem, TabFormatItem, MessageFormatItem, NewLineFormatItem]"

fun item_letter :: "format_item \<Rightarrow> string" where
  "item_letter MessageFormatItem = ''m''"
| "item_letter LevelFormatItem = ''p''"
| "item_letter LoggerNameFormatItem = ''c''"
| "item_letter ElapseFormatItem = ''r''"
| "item_letter FileNameFormatItem = ''f''"
| "item_letter LineFormatItem = ''l''"
| "item_letter ThreadIdFormatItem = ''t''"
| "item_letter FiberIdFormatItem = ''F''"
| "item_letter ThreadNameFormatItem = ''N''"
| "item_letter PercentSignFormatItem = ''%''"
| "item_letter TabFormatItem = ''T''"
| "item_letter NewLineFormatItem = ''n''"
| "item_letter (DateTimeFormatItem f) = ''d''"
| "item_letter (StringFormatItem s) = s"

fun item_pattern :: "format_item \<Rightarrow> string" where
  "item_pattern (StringFormatItem s) = s"
| "item_pattern (DateTimeFormatItem f) = ''%d{'' @ f @ ''}''"
| "item_pattern it = CHR ''%'' # item_letter it"

definition pattern_of :: "format_item list \<Rightarrow> string" where
  "pattern_of items = concat (map item_pattern items)"

fun item_piece :: "format_item \<Rightarrow> nat \<times> string" where
  "item_piece (StringFormatItem s) = (0, s)"
| "item_piece it = (1, item_letter it)"

fun is_text :: "format_item \<Rightarrow> bool" where
  "is_text (StringFormatItem s) \<longleftrightarrow> True"
| "is_text it \<longleftrightarrow> False"

fun item_date :: "format_item \<Rightarrow> string" where
  "item_date (DateTimeFormatItem f) = f"
| "item_date it = []"

fun item_ok :: "format_item \<Rightarrow> bool" where
  "item_ok (StringFormatItem s) \<longleftrightarrow> s \<noteq> [] \<and> CHR ''%'' \<notin> set s"
| "item_ok (DateTimeFormatItem f) \<longleftrightarrow> f \<noteq> [] \<and> CHR ''}'' \<notin> set f"
| "item_ok it \<longleftrightarrow> True"

text \<open>Items as a pattern can give them: no two texts in a row, and at most one date.\<close>

fun separated :: "format_item list \<Rightarrow> bool" where
  "separated (a # b # its) \<longleftrightarrow> \<not> (is_text a \<and> is_text b) \<and> separated (b # its)"
| "separated its \<longleftrightarrow> True"

definition items_ok :: "format_item list \<Rightarrow> bool" where
  "items_ok items \<longleftrightarrow> list_all item_ok items \<and> separated items \<and> length (filter (\<lambda>it. item_date it \<noteq> []) items) \<le> 1"

abbreviation flush :: "string \<Rightarrow> (nat \<times> string) list" where
  "flush tmp \<equiv> (if tmp \<noteq> [] then [(0, tmp)] else [])"

lemma init_loop_text:
  "CHR ''%'' \<notin> set s \<Longrightarrow> init_loop (s @ rest) True tmp df ps = init_loop rest True (tmp @ s) df ps"
  by (induction s arbitrary: tmp) auto

lemma init_loop_date:
  "CHR ''}'' \<notin> set f \<Longrightarrow>
   init_loop (''%d{'' @ f @ ''}'' @ rest) True tmp df ps = init_loop rest True [] (df @ f) (ps @ flush tmp @ [(1, ''d'')])"
proof -
  assume "CHR ''}'' \<notin> set f"
  then have "takeWhile (\<lambda>x. x \<noteq> CHR ''}'') (f @ CHR ''}'' # rest) = f"
    "dropWhile (\<lambda>x. x \<noteq> CHR ''}'') (f @ CHR ''}'' # rest) = CHR ''}'' # rest"
    by (auto simp: takeWhile_append dropWhile_append)
  then show ?thesis by (simp add: Let_def)
qed

lemma init_loop_letter:
  "c \<noteq> CHR ''d'' \<Longrightarrow>
   init_loop (CHR ''%'' # c # rest) True tmp df ps = init_loop rest True [] df (ps @ flush tmp @ [(1, [c])])"
  by simp

lemma init_loop_item:
  assumes "item_ok it" "\<not> is_text it"
  shows "init_loop (item_pattern it @ rest) True tmp df ps =
    init_loop rest True [] (df @ item_date it) (ps @ flush tmp @ [item_piece it])"
proof (cases "\<exists>f. it = DateTimeFormatItem f")
  case True
  then obtain f where it: "it = DateTimeFormatItem f" by blast
  with assms init_loop_date [of f rest tmp df ps] show ?thesis
    unfolding it by (simp only: item_pattern.simps item_date.simps item_piece.simps item_letter.simps item_ok.simps
        append_assoc simp_thms)
next
  case False
  then obtain c where "item_letter it = [c]" "c \<noteq> CHR ''d''" using assms by (cases it) auto
  then show ?thesis using False assms init_loop_letter [of c rest tmp df ps] by (cases it) auto
qed

lemma init_loop_items:
  assumes "list_all item_ok items" "separated items" "tmp = [] \<or> items = [] \<or> \<not> is_text (hd items)"
  shows "\<exists>t ps'. init_loop (pattern_of items) True tmp df ps =
      Inr (False, t, df @ concat (map item_date items), ps') \<and> ps' @ flush t = ps @ flush tmp @ map item_piece items"
  using assms
proof (induction items arbitrary: tmp df ps)
  case (Cons it its)
  have sep: "separated its" using Cons.prems(2) by (cases its) auto
  show ?case
  proof (cases "is_text it")
    case True
    then obtain s where it: "it = StringFormatItem s" by (cases it) auto
    have hd: "its = [] \<or> \<not> is_text (hd its)" using Cons.prems(2) it by (cases its) auto
    have tmp: "tmp = []" using Cons.prems(3) it by simp
    have "init_loop (pattern_of (it # its)) True tmp df ps = init_loop (pattern_of its) True s df ps"
      using init_loop_text [of s "pattern_of its" "[]" df ps] Cons.prems(1) it tmp by (simp add: pattern_of_def)
    with Cons.IH [of s df ps] Cons.prems(1) sep hd it tmp show ?thesis by simp
  next
    case False
    have "init_loop (pattern_of (it # its)) True tmp df ps =
        init_loop (pattern_of its) True [] (df @ item_date it) (ps @ flush tmp @ [item_piece it])"
      using init_loop_item [OF _ False, of "pattern_of its"] Cons.prems(1) by (simp add: pattern_of_def)
    with Cons.IH [of "[]" "df @ item_date it" "ps @ flush tmp @ [item_piece it]"] Cons.prems(1) sep show ?thesis by simp
  qed
qed (simp add: pattern_of_def)

lemma make_items_pieces:
  assumes "list_all item_ok items" "\<forall>it \<in> set items. item_date it \<noteq> [] \<longrightarrow> item_date it = df"
  shows "make_items df (map item_piece items) acc = (acc @ items, False)"
  using assms
proof (induction items arbitrary: acc)
  case (Cons it its)
  then show ?case by (cases it) (simp_all add: new_DateTimeFormatItem_def s_format_items_def)
qed simp

lemma one_date:
  assumes "length (filter (\<lambda>it. item_date it \<noteq> []) items) \<le> 1" "it \<in> set items" "item_date it \<noteq> []"
  shows "item_date it = concat (map item_date items)"
  using assms
proof (induction items)
  case (Cons a items)
  have none: "concat (map item_date items) = []" if "length (filter (\<lambda>it. item_date it \<noteq> []) items) \<le> 0"
    using that by (auto simp: filter_empty_conv)
  show ?case
  proof (cases "item_date a = []")
    case True
    then show ?thesis using Cons by auto
  next
    case False
    then have "concat (map item_date items) = []" using Cons.prems(1) none by simp
    moreover from this have "it = a" using Cons.prems(2,3) by auto
    ultimately show ?thesis by simp
  qed
qed simp

lemma LogFormatter_items:
  assumes "items_ok items"
  shows "LogFormatter (pattern_of items) = Inr \<lparr>fm_pattern = pattern_of items, fm_items = items, fm_error = False\<rparr>"
proof -
  from assms init_loop_items [of items "[]" "[]" "[]"] obtain t ps where
    p: "init_loop (pattern_of items) True [] [] [] = Inr (False, t, concat (map item_date items), ps)"
    "(if t \<noteq> [] then ps @ [(0, t)] else ps) = map item_piece items"
    by (auto simp: items_ok_def split: if_splits)
  have "make_items (concat (map item_date items)) (map item_piece items) [] = (items, False)"
    using make_items_pieces [of items _ "[]"] one_date assms by (simp add: items_ok_def)
  with p show ?thesis by (simp add: LogFormatter_def Formatter_Init_def Let_def split: prod.splits)
qed

lemma Level_FromString_ToString: "Level_FromString (Level_ToString l) = l"
  by (cases l) (simp_all add: Level_FromString_def)

section \<open>Properties\<close>

text \<open>
  (C24) The pattern parser recovers any sequence of format items from the pattern that denotes it (texts without
  a percent sign, no two in a row; one date at most), without an error, and the formatter then prints the items' texts
  one after the other.
\<close>

theorem pattern_roundtrip:
  assumes "items_ok items"
  shows "\<exists>fm. LogFormatter (pattern_of items) = Inr fm \<and> fm_items fm = items \<and> \<not> fm_error fm \<and>
    Formatter_Format strftime fm ev = concat (map (\<lambda>it. Item_Format strftime it ev) items)"
  using LogFormatter_items [OF assms] by (simp add: Formatter_Format_def)

theorem pattern_roundtrip_witness:
  "\<exists>fm. LogFormatter default_pattern = Inr fm \<and> fm_items fm = default_items \<and> \<not> fm_error fm"
proof -
  have "pattern_of default_items = default_pattern" "items_ok default_items"
    by (simp_all add: pattern_of_def default_items_def default_pattern_def default_dateformat_def items_ok_def)
  with pattern_roundtrip [of default_items] show ?thesis by fastforce
qed

text \<open>
  A pattern whose \<open>%d\<close> is its end is read out of bounds, and two dates in one pattern share a format: both get the
  two formats one after the other.
\<close>

theorem date_pattern_flaws:
  assumes "CHR ''%'' \<notin> set s"
  shows "LogFormatter (s @ ''%d'') = Inl Out_Of_Bounds \<and>
    (\<exists>fm. LogFormatter ''%d{%H}%d{%M}'' = Inr fm \<and>
      fm_items fm = [DateTimeFormatItem ''%H%M'', DateTimeFormatItem ''%H%M''])"
  using init_loop_text [OF assms, of "''%d''" "[]" "[]" "[]"]
  by (simp add: LogFormatter_def Formatter_Init_def Let_def new_DateTimeFormatItem_def)

theorem date_pattern_flaws_witness: "LogFormatter ''at %d'' = Inl Out_Of_Bounds"
  using date_pattern_flaws [of "''at ''"] by simp

end
