(* ===== verification/Logger.thy ===== *)
theory Logger
  imports Log_Format
begin

text \<open>
  Appenders, loggers, the logger manager and the log configuration (\<open>log/log.h\<close>, \<open>log/log.cc\<close>). What is written
  is kept in a state of sinks, the text on the standard output and in each file. Whether a file opens and whether
  a write succeeds are arguments.
\<close>

section \<open>Appenders\<close>

text \<open>
  An output file stream: \<open>close\<close> on a stream that is not open and \<open>open\<close> on one that is set the fail bit; a
  successful \<open>open\<close> clears it.
\<close>

record ofstream =
  os_open :: bool
  os_fail :: bool

definition os_close :: "ofstream \<Rightarrow> ofstream" where
  "os_close s = (if os_open s then s\<lparr>os_open := False\<rparr> else s\<lparr>os_fail := True\<rparr>)"

definition os_opened :: "bool \<Rightarrow> ofstream \<Rightarrow> ofstream" where
  "os_opened ok s =
     (if os_open s \<or> \<not> ok then s\<lparr>os_fail := True\<rparr> else \<lparr>os_open = True, os_fail = False\<rparr>)"

text \<open>\<open>ap_file\<close> is \<open>None\<close> for a \<open>StdoutLogAppender\<close>. The identity stands for the pointer.\<close>

record appender =
  ap_id :: nat
  ap_file :: "string option"
  ap_formatter :: "log_formatter option"
  ap_default :: log_formatter
  ap_stream :: ofstream
  ap_last_time :: u64
  ap_reopen_error :: bool

record sinks =
  sk_stdout :: string
  sk_files :: "string \<Rightarrow> string"

record log_env =
  env_strftime :: "string \<Rightarrow> int \<Rightarrow> string"
  env_open :: "string \<Rightarrow> bool"
  env_write :: "string \<Rightarrow> bool"

definition SetFormatter :: "appender \<Rightarrow> log_formatter \<Rightarrow> appender" where
  "SetFormatter a val = a\<lparr>ap_formatter := Some val\<rparr>"

definition GetFormatter :: "appender \<Rightarrow> log_formatter" where
  "GetFormatter a = (case ap_formatter a of Some f \<Rightarrow> f | None \<Rightarrow> ap_default a)"

definition Reopen :: "bool \<Rightarrow> appender \<Rightarrow> bool \<times> appender" where
  "Reopen ok a =
     (let s1 = (if \<not> os_fail (ap_stream a) then os_close (ap_stream a) else ap_stream a);
          s2 = os_opened ok s1
      in (\<not> os_fail s2, a\<lparr>ap_stream := s2, ap_reopen_error := os_fail s2\<rparr>))"

definition new_appender :: "nat \<Rightarrow> string option \<Rightarrow> log_formatter \<Rightarrow> appender" where
  "new_appender i file dflt =
     \<lparr>ap_id = i, ap_file = file, ap_formatter = None, ap_default = dflt,
      ap_stream = \<lparr>os_open = False, os_fail = False\<rparr>, ap_last_time = 0, ap_reopen_error = False\<rparr>"

definition StdoutLogAppender :: "nat \<Rightarrow> appender result" where
  "StdoutLogAppender i = rbind (LogFormatter default_pattern) (\<lambda>fm. Inr (new_appender i None fm))"

definition FileLogAppender :: "nat \<Rightarrow> bool \<Rightarrow> string \<Rightarrow> appender result" where
  "FileLogAppender i ok file =
     rbind (LogFormatter default_pattern) (\<lambda>fm. Inr (snd (Reopen ok (new_appender i (Some file) fm))))"

text \<open>Writing to a file: a failed write sets the stream's fail bit; writing to a failed stream does nothing.\<close>

definition file_write :: "log_env \<Rightarrow> string \<Rightarrow> string \<Rightarrow> appender \<Rightarrow> sinks \<Rightarrow> appender \<times> sinks" where
  "file_write env file text a sk =
     (if os_fail (ap_stream a) then (a, sk)
      else if env_write env file then (a, sk\<lparr>sk_files := (sk_files sk)(file := sk_files sk file @ text)\<rparr>)
      else (a\<lparr>ap_stream := (ap_stream a)\<lparr>os_fail := True\<rparr>\<rparr>, sk))"

definition Appender_Log :: "log_env \<Rightarrow> log_event \<Rightarrow> appender \<Rightarrow> sinks \<Rightarrow> appender \<times> sinks" where
  "Appender_Log env ev a sk =
     (case ap_file a of
        None \<Rightarrow>
          (a, sk\<lparr>sk_stdout := sk_stdout sk @
                (case ap_formatter a of Some fm \<Rightarrow> Formatter_Format (env_strftime env) fm ev
                 | None \<Rightarrow> Formatter_Format (env_strftime env) (ap_default a) ev)\<rparr>)
      | Some file \<Rightarrow>
          let now = of_int (ev_time ev) :: u64;
              a = (if now \<ge> ap_last_time a + 3 then (snd (Reopen (env_open env file) a))\<lparr>ap_last_time := now\<rparr> else a)
          in if ap_reopen_error a then (a, sk)
             else
               file_write env file
                 (case ap_formatter a of Some fm \<Rightarrow> Formatter_Format (env_strftime env) fm ev
                  | None \<Rightarrow> Formatter_Format (env_strftime env) (ap_default a) ev) a sk)"

section \<open>Loggers\<close>

record logger =
  lg_name :: string
  lg_level :: log_level
  lg_appenders :: "appender list"
  lg_create_time :: u64

definition new_Logger :: "string \<Rightarrow> u64 \<Rightarrow> logger" where
  "new_Logger name now = \<lparr>lg_name = name, lg_level = INFO, lg_appenders = [], lg_create_time = now\<rparr>"

definition AddAppender :: "logger \<Rightarrow> appender \<Rightarrow> logger" where
  "AddAppender l a = l\<lparr>lg_appenders := lg_appenders l @ [a]\<rparr>"

fun erase_first :: "nat \<Rightarrow> appender list \<Rightarrow> appender list" where
  "erase_first i [] = []"
| "erase_first i (a # as) = (if ap_id a = i then as else a # erase_first i as)"

definition DelAppender :: "logger \<Rightarrow> appender \<Rightarrow> logger" where
  "DelAppender l a = l\<lparr>lg_appenders := erase_first (ap_id a) (lg_appenders l)\<rparr>"

definition ClearAppenders :: "logger \<Rightarrow> logger" where
  "ClearAppenders l = l\<lparr>lg_appenders := []\<rparr>"

definition SetLevel :: "logger \<Rightarrow> log_level \<Rightarrow> logger" where
  "SetLevel l level = l\<lparr>lg_level := level\<rparr>"

fun log_all :: "log_env \<Rightarrow> log_event \<Rightarrow> appender list \<Rightarrow> sinks \<Rightarrow> appender list \<times> sinks" where
  "log_all env ev [] sk = ([], sk)"
| "log_all env ev (a # as) sk =
     (let (a', sk') = Appender_Log env ev a sk; (as', sk'') = log_all env ev as sk' in (a' # as', sk''))"

definition Logger_Log :: "log_env \<Rightarrow> log_event \<Rightarrow> logger \<Rightarrow> sinks \<Rightarrow> logger \<times> sinks" where
  "Logger_Log env ev l sk =
     (if ev_level ev \<le> lg_level l then
        let (as', sk') = log_all env ev (lg_appenders l) sk in (l\<lparr>lg_appenders := as'\<rparr>, sk')
      else (l, sk))"

text \<open>
  The macro \<open>LOG_LEVEL\<close>, with what is then streamed into the event: the event is logged when the wrapper is
  destroyed.
\<close>

definition LOG_LEVEL :: "log_env \<Rightarrow> logger \<Rightarrow> log_level \<Rightarrow> string \<Rightarrow> int \<Rightarrow> u64 \<Rightarrow> u32 \<Rightarrow> u64 \<Rightarrow> int \<Rightarrow> string \<Rightarrow> string \<Rightarrow>
    sinks \<Rightarrow> logger \<times> sinks" where
  "LOG_LEVEL env l level file line elapsed thread_id fiber_id time thread_name content sk =
     (if level \<le> lg_level l then
        let ev = LogEvent (lg_name l) level file line (sint (elapsed - lg_create_time l)) thread_id fiber_id time thread_name
        in Logger_Log env (ev\<lparr>ev_ss := content\<rparr>) l sk
      else (l, sk))"

text \<open>\<open>LOG_FMT_LEVEL\<close>: the same with a format; \<open>buf\<close> is what it expands to.\<close>

definition LOG_FMT_LEVEL :: "log_env \<Rightarrow> logger \<Rightarrow> log_level \<Rightarrow> string \<Rightarrow> int \<Rightarrow> u64 \<Rightarrow> u32 \<Rightarrow> u64 \<Rightarrow> int \<Rightarrow> string \<Rightarrow>
    string option \<Rightarrow> sinks \<Rightarrow> logger \<times> sinks" where
  "LOG_FMT_LEVEL env l level file line elapsed thread_id fiber_id time thread_name buf sk =
     (if level \<le> lg_level l then
        let ev = LogEvent (lg_name l) level file line (sint (elapsed - lg_create_time l)) thread_id fiber_id time thread_name
        in Logger_Log env (VPrintf buf ev) l sk
      else (l, sk))"

section \<open>The logger manager\<close>

text \<open>\<open>root_\<close> is the logger of the name \<open>root\<close>, which is never taken out of the map.\<close>

type_synonym logger_manager = "string \<rightharpoonup> logger"

definition LoggerManager :: "u64 \<Rightarrow> logger_manager result" where
  "LoggerManager now =
     rbind (StdoutLogAppender 0) (\<lambda>a. Inr [''root'' \<mapsto> AddAppender (new_Logger ''root'' now) a])"

definition GetLogger :: "u64 \<Rightarrow> logger_manager \<Rightarrow> string \<Rightarrow> logger \<times> logger_manager" where
  "GetLogger now lm name =
     (case lm name of
        Some l \<Rightarrow> (l, lm)
      | None \<Rightarrow> let l = new_Logger name now in (l, lm(name \<mapsto> l)))"

section \<open>The log configuration\<close>

record log_appender_define =
  lad_type :: int
  lad_pattern :: string
  lad_file :: string

record log_define =
  ld_name :: string
  ld_level :: log_level
  ld_appenders :: "log_appender_define list"

definition LogDefine_eq :: "log_define \<Rightarrow> log_define \<Rightarrow> bool" where
  "LogDefine_eq a b \<longleftrightarrow> ld_name a = ld_name b \<and> ld_level a = ld_level b \<and> ld_appenders a = ld_appenders a"

text \<open>
  The listener on the configuration. The sets are lists; \<open>find\<close> compares names only. The state is the manager and
  the next free appender identity.
\<close>

definition find_define :: "log_define list \<Rightarrow> string \<Rightarrow> log_define option" where
  "find_define ds name = List.find (\<lambda>d. ld_name d = name) ds"

definition make_appender :: "log_env \<Rightarrow> bool \<Rightarrow> nat \<Rightarrow> log_appender_define \<Rightarrow> appender option result" where
  "make_appender env has_d i a =
     rbind
       (if lad_type a = 1 then rbind (FileLogAppender i (env_open env (lad_file a)) (lad_file a)) (\<lambda>x. Inr (Some x))
        else if lad_type a = 2 then
          (if \<not> has_d then rbind (StdoutLogAppender i) (\<lambda>x. Inr (Some x)) else Inr None)
        else Inl Null_Deref)
       (\<lambda>ap. case ap of
          None \<Rightarrow> Inr None
        | Some ap \<Rightarrow>
            rbind (LogFormatter (if lad_pattern a \<noteq> '''' then lad_pattern a else default_pattern)) (\<lambda>fm.
            Inr (Some (SetFormatter ap fm))))"

fun make_appenders :: "log_env \<Rightarrow> bool \<Rightarrow> nat \<Rightarrow> log_appender_define list \<Rightarrow> logger \<Rightarrow> (logger \<times> nat) result" where
  "make_appenders env has_d i [] l = Inr (l, i)"
| "make_appenders env has_d i (a # as) l =
     rbind (make_appender env has_d i a) (\<lambda>ap.
     case ap of
       None \<Rightarrow> make_appenders env has_d i as l
     | Some ap \<Rightarrow> make_appenders env has_d (Suc i) as (AddAppender l ap))"

fun update_loggers :: "log_env \<Rightarrow> bool \<Rightarrow> u64 \<Rightarrow> log_define list \<Rightarrow> log_define list \<Rightarrow> logger_manager \<Rightarrow> nat \<Rightarrow>
    (logger_manager \<times> nat) result" where
  "update_loggers env has_d now old [] lm i = Inr (lm, i)"
| "update_loggers env has_d now old (d # ds) lm i =
     (case find_define old (ld_name d) of
        None \<Rightarrow>
          let (l, lm1) = GetLogger now lm (ld_name d) in
          rbind (make_appenders env has_d i (ld_appenders d) (ClearAppenders (SetLevel l (ld_level d)))) (\<lambda>(l', i').
          update_loggers env has_d now old ds (lm1(ld_name d \<mapsto> l')) i')
      | Some d' \<Rightarrow>
          if \<not> LogDefine_eq d d' then Inl Null_Deref
          else update_loggers env has_d now old ds lm i)"

fun disable_loggers :: "u64 \<Rightarrow> log_define list \<Rightarrow> log_define list \<Rightarrow> logger_manager \<Rightarrow> logger_manager" where
  "disable_loggers now [] new lm = lm"
| "disable_loggers now (d # ds) new lm =
     (case find_define new (ld_name d) of
        None \<Rightarrow>
          let (l, lm1) = GetLogger now lm (ld_name d)
          in disable_loggers now ds new (lm1(ld_name d \<mapsto> ClearAppenders (SetLevel l NOTSET)))
      | Some _ \<Rightarrow> disable_loggers now ds new lm)"

definition on_log_config :: "log_env \<Rightarrow> bool \<Rightarrow> u64 \<Rightarrow> log_define list \<Rightarrow> log_define list \<Rightarrow> logger_manager \<Rightarrow> nat \<Rightarrow>
    (logger_manager \<times> nat) result" where
  "on_log_config env has_d now old_value new_value lm i =
     rbind (update_loggers env has_d now old_value new_value lm i) (\<lambda>(lm', i').
     Inr (disable_loggers now old_value new_value lm', i'))"

section \<open>Writing\<close>

lemma Appender_Log_stdout:
  "ap_file a = None \<Longrightarrow> Appender_Log env ev a sk =
     (a, sk\<lparr>sk_stdout := sk_stdout sk @ Formatter_Format (env_strftime env) (GetFormatter a) ev\<rparr>)"
  by (simp add: Appender_Log_def GetFormatter_def split: option.splits)

lemma log_all_stdout:
  "\<forall>a \<in> set as. ap_file a = None \<Longrightarrow> log_all env ev as sk =
     (as, sk\<lparr>sk_stdout := sk_stdout sk @ concat (map (\<lambda>a. Formatter_Format (env_strftime env) (GetFormatter a) ev) as)\<rparr>)"
  by (induction as arbitrary: sk) (simp_all add: Appender_Log_stdout)

text \<open>A stream that is open and has failed.\<close>

definition jammed :: "appender \<Rightarrow> bool" where
  "jammed a \<longleftrightarrow> os_open (ap_stream a) \<and> os_fail (ap_stream a)"

lemma Reopen_jammed: "jammed a \<Longrightarrow> Reopen ok a = (False, a\<lparr>ap_reopen_error := True\<rparr>)"
  by (cases a; cases "ap_stream a") (simp add: jammed_def Reopen_def os_opened_def)

lemma Appender_Log_jammed:
  assumes "jammed a" "ap_file a = Some file"
  shows "\<exists>a'. Appender_Log env ev a sk = (a', sk) \<and> jammed a' \<and> ap_file a' = Some file"
proof -
  define a1 where "a1 = (if of_int (ev_time ev) \<ge> ap_last_time a + 3
    then (snd (Reopen (env_open env file) a))\<lparr>ap_last_time := of_int (ev_time ev)\<rparr> else a)"
  have a1: "jammed a1" "ap_file a1 = Some file" using assms by (auto simp: a1_def Reopen_jammed jammed_def)
  have "Appender_Log env ev a sk = (a1, sk)"
    unfolding Appender_Log_def assms(2) option.case Let_def a1_def [symmetric]
    using a1(1) by (simp add: file_write_def jammed_def)
  with a1 show ?thesis by blast
qed

lemma FileLogAppender_ok:
  obtains a where "FileLogAppender i True file = Inr a" "ap_file a = Some file" "os_open (ap_stream a)"
    "\<not> os_fail (ap_stream a)" "\<not> ap_reopen_error a"
proof -
  have ok: "pattern_of default_items = default_pattern" "items_ok default_items"
    by (simp_all add: pattern_of_def default_items_def default_pattern_def default_dateformat_def items_ok_def)
  let ?fm = "\<lparr>fm_pattern = default_pattern, fm_items = default_items, fm_error = False\<rparr>"
  have "LogFormatter default_pattern = Inr ?fm" using LogFormatter_items [OF ok(2)] ok(1) by simp
  then show ?thesis
    by (intro that [of "snd (Reopen True (new_appender i (Some file) ?fm))"])
      (simp_all add: FileLogAppender_def Reopen_def new_appender_def os_close_def os_opened_def)
qed

lemma Appender_Log_file:
  assumes "ap_file a = Some file" "\<not> ap_reopen_error a" "os_open (ap_stream a)" "\<not> os_fail (ap_stream a)" "env_open env file"
  shows "\<exists>a'. Appender_Log env ev a sk =
      (a', if env_write env file
           then sk\<lparr>sk_files := (sk_files sk)(file := sk_files sk file @ Formatter_Format (env_strftime env) (GetFormatter a) ev)\<rparr>
           else sk) \<and> (jammed a' \<longleftrightarrow> \<not> env_write env file) \<and> ap_file a' = Some file"
proof -
  define a1 where "a1 = (if of_int (ev_time ev) \<ge> ap_last_time a + 3
    then (snd (Reopen (env_open env file) a))\<lparr>ap_last_time := of_int (ev_time ev)\<rparr> else a)"
  have a1: "\<not> ap_reopen_error a1" "os_open (ap_stream a1)" "\<not> os_fail (ap_stream a1)" "ap_file a1 = Some file"
    "ap_formatter a1 = ap_formatter a" "ap_default a1 = ap_default a"
    using assms by (auto simp: a1_def Reopen_def os_close_def os_opened_def Let_def)
  have "Appender_Log env ev a sk = file_write env file (Formatter_Format (env_strftime env) (GetFormatter a) ev) a1 sk"
    unfolding Appender_Log_def assms(1) option.case Let_def a1_def [symmetric]
    using a1 by (simp add: GetFormatter_def split: option.splits)
  with a1 show ?thesis by (auto simp: file_write_def jammed_def)
qed

section \<open>Configuration changes\<close>

lemma make_appenders_keep:
  "make_appenders env has_d i as l = Inr (l', i') \<Longrightarrow> lg_name l' = lg_name l \<and> lg_level l' = lg_level l"
  by (induction as arbitrary: i l) (auto simp: AddAppender_def result_simps split: option.splits)

lemma GetLogger_at: "GetLogger now lm name = (l, lm') \<Longrightarrow> lm' name = Some l \<and> (\<forall>x. x \<noteq> name \<longrightarrow> lm' x = lm x)"
  by (auto simp: GetLogger_def Let_def split: option.splits)

lemma update_loggers_other:
  "update_loggers env has_d now old ds lm i = Inr (lm', i') \<Longrightarrow> x \<notin> ld_name ` set ds \<Longrightarrow> lm' x = lm x"
proof (induction ds arbitrary: lm i)
  case (Cons d ds)
  then show ?case
    by (auto simp: result_simps Let_def dest!: GetLogger_at split: option.splits if_splits prod.splits)
qed simp

lemma update_loggers_set:
  "update_loggers env has_d now old ds lm i = Inr (lm', i') \<Longrightarrow> distinct (map ld_name ds) \<Longrightarrow> d \<in> set ds \<Longrightarrow>
   find_define old (ld_name d) = None \<Longrightarrow> \<exists>l. lm' (ld_name d) = Some l \<and> lg_level l = ld_level d"
proof (induction ds arbitrary: lm i)
  case (Cons e ds)
  show ?case
  proof (cases "d = e")
    case True
    obtain l lm1 where g: "GetLogger now lm (ld_name d) = (l, lm1)" by fastforce
    with Cons.prems(1,4) True obtain l' j where
      m: "make_appenders env has_d i (ld_appenders d) (ClearAppenders (SetLevel l (ld_level d))) = Inr (l', j)" and
      u: "update_loggers env has_d now old ds (lm1(ld_name d \<mapsto> l')) j = Inr (lm', i')"
      by (auto simp: result_simps)
    have "ld_name d \<notin> ld_name ` set ds" using Cons.prems(2) True by simp
    from update_loggers_other [OF u this] make_appenders_keep [OF m] show ?thesis
      by (simp add: ClearAppenders_def SetLevel_def)
  next
    case False
    with Cons show ?thesis
      by (auto simp: result_simps Let_def split: option.splits if_splits prod.splits)
  qed
qed simp

lemma disable_loggers_at:
  "disable_loggers now ds new lm x =
     (if x \<in> ld_name ` set ds \<and> find_define new x = None
      then Some (ClearAppenders (SetLevel (case lm x of Some l \<Rightarrow> l | None \<Rightarrow> new_Logger x now) NOTSET)) else lm x)"
proof (induction ds arbitrary: lm)
  case (Cons d ds)
  show ?case
  proof (cases "find_define new (ld_name d)")
    case None
    let ?c = "\<lambda>l. ClearAppenders (SetLevel l NOTSET)"
    have idem: "?c (?c l) = ?c l" for l by (simp add: ClearAppenders_def SetLevel_def)
    obtain l lm1 where g: "GetLogger now lm (ld_name d) = (l, lm1)" by fastforce
    then have l: "l = (case lm (ld_name d) of Some l \<Rightarrow> l | None \<Rightarrow> new_Logger (ld_name d) now)"
      by (auto simp: GetLogger_def Let_def split: option.splits)
    define lm2 where "lm2 = lm1(ld_name d \<mapsto> ?c l)"
    have at: "lm2 y = (if y = ld_name d then Some (?c l) else lm y)" for y using GetLogger_at [OF g] by (simp add: lm2_def)
    have step: "disable_loggers now (d # ds) new lm = disable_loggers now ds new lm2" using None g by (simp add: lm2_def)
    show ?thesis unfolding step Cons.IH using None l by (auto simp: at idem)
  qed (use Cons.IH in auto)
qed simp

section \<open>Properties\<close>

text \<open>
  A logger passes an event of a level not above its own to every one of its appenders, in order, each of which prints
  it in its format; an event of a higher level is not printed.
\<close>

theorem logger_writes:
  assumes "\<forall>a \<in> set (lg_appenders l). ap_file a = None"
  shows "Logger_Log env ev l sk =
    (l, if ev_level ev \<le> lg_level l
        then sk\<lparr>sk_stdout := sk_stdout sk @
          concat (map (\<lambda>a. Formatter_Format (env_strftime env) (GetFormatter a) ev) (lg_appenders l))\<rparr> else sk)"
  using log_all_stdout [OF assms, of env ev sk] by (cases l) (simp add: Logger_Log_def)

theorem logger_writes_witness:
  "Logger_Log \<lparr>env_strftime = \<lambda>f t. f, env_open = \<lambda>_. True, env_write = \<lambda>_. True\<rparr>
     ((LogEvent ''x'' DEBUG ''f.cc'' 1 0 0 0 0 ''main'')\<lparr>ev_ss := ''hello''\<rparr>) (new_Logger ''x'' 0) \<lparr>sk_stdout = '''', sk_files = \<lambda>_. ''''\<rparr> =
     (new_Logger ''x'' 0, \<lparr>sk_stdout = '''', sk_files = \<lambda>_. ''''\<rparr>)"
  by (subst logger_writes) (simp_all add: new_Logger_def LogEvent_def less_eq_log_level_def)

text \<open>
  A file appender writes each event once while its file opens and its writes succeed. After one failed write it is
  lost for good: the stream stays open and failed, each reopening fails because the stream is not closed first, and
  no later event is written, even if the file could be opened and written again.
\<close>

theorem file_appender_jams:
  assumes "ap_file a = Some file" "\<not> ap_reopen_error a" "os_open (ap_stream a)" "\<not> os_fail (ap_stream a)" "env_open env file"
  shows "\<exists>a'. Appender_Log env ev a sk =
      (a', if env_write env file
           then sk\<lparr>sk_files := (sk_files sk)(file := sk_files sk file @ Formatter_Format (env_strftime env) (GetFormatter a) ev)\<rparr>
           else sk) \<and>
    (\<not> env_write env file \<longrightarrow>
      (\<forall>evs. \<exists>a''. fold (\<lambda>(env, ev) (a, sk). Appender_Log env ev a sk) evs (a', sk) = (a'', sk)))"
proof -
  have stuck: "\<exists>a''. fold (\<lambda>(env, ev) (a, sk). Appender_Log env ev a sk) evs (b, sk) = (a'', sk)"
    if "jammed b" "ap_file b = Some file" for b evs
    using that
  proof (induction evs arbitrary: b)
    case (Cons e evs)
    obtain en v where e: "e = (en, v)" by (cases e)
    from Appender_Log_jammed [OF Cons.prems, of en v sk] Cons.IH show ?case by (auto simp: e)
  qed simp
  from Appender_Log_file [OF assms, of ev sk] stuck show ?thesis by blast
qed

theorem file_appender_jams_witness:
  "\<exists>a a' sk'. FileLogAppender 1 True ''log'' = Inr a \<and>
     Appender_Log \<lparr>env_strftime = \<lambda>f t. f, env_open = \<lambda>_. True, env_write = \<lambda>_. False\<rparr> (LogEvent ''x'' INFO ''f.cc'' 1 0 0 0 0 ''main'') a
       \<lparr>sk_stdout = '''', sk_files = \<lambda>_. ''''\<rparr> = (a', sk')"
proof -
  obtain a where a: "FileLogAppender 1 True ''log'' = Inr a" "ap_file a = Some ''log''" "os_open (ap_stream a)"
    "\<not> os_fail (ap_stream a)" "\<not> ap_reopen_error a" by (rule FileLogAppender_ok)
  let ?env = "\<lparr>env_strftime = \<lambda>f t. f, env_open = \<lambda>_. True, env_write = \<lambda>_. False\<rparr>"
  have "env_open ?env ''log''" by simp
  from file_appender_jams [OF a(2,5,3,4) this] a(1) show ?thesis by blast
qed

text \<open>
  A configuration change that goes through gives every new logger its level and takes the appenders of every
  logger no longer configured. A change of the level of a logger that was configured already dereferences a null
  pointer, and a change of its appenders only is not noticed.
\<close>

theorem config_change:
  assumes "distinct (map ld_name new)"
  shows "(\<forall>lm' i'. on_log_config env has_d now old new lm i = Inr (lm', i') \<longrightarrow>
      (\<forall>d \<in> set new. find_define old (ld_name d) = None \<longrightarrow> (\<exists>l. lm' (ld_name d) = Some l \<and> lg_level l = ld_level d)) \<and>
      (\<forall>d \<in> set old. find_define new (ld_name d) = None \<longrightarrow> (\<exists>l. lm' (ld_name d) = Some l \<and> lg_appenders l = []))) \<and>
    (ld_name a = ld_name b \<longrightarrow>
      on_log_config env has_d now [a] [b] lm i = (if ld_level a \<noteq> ld_level b then Inl Null_Deref else Inr (lm, i)))"
proof (intro conjI allI impI ballI)
  fix lm' i' d
  assume "on_log_config env has_d now old new lm i = Inr (lm', i')"
  then obtain lm1 j where u: "update_loggers env has_d now old new lm i = Inr (lm1, j)" and
    l: "lm' = disable_loggers now old new lm1" by (auto simp: on_log_config_def result_simps)
  {
    assume d: "d \<in> set new" "find_define old (ld_name d) = None"
    then have "ld_name d \<notin> ld_name ` set old" by (auto simp: find_define_def find_None_iff)
    with update_loggers_set [OF u assms d] l show "\<exists>l. lm' (ld_name d) = Some l \<and> lg_level l = ld_level d"
      by (simp add: disable_loggers_at)
  }
  {
    assume "d \<in> set old" "find_define new (ld_name d) = None"
    with l show "\<exists>l. lm' (ld_name d) = Some l \<and> lg_appenders l = []"
      by (simp add: disable_loggers_at ClearAppenders_def)
  }
qed (simp add: on_log_config_def find_define_def LogDefine_eq_def)

theorem config_change_witness:
  "on_log_config \<lparr>env_strftime = \<lambda>f t. f, env_open = \<lambda>_. True, env_write = \<lambda>_. True\<rparr> False 0
     [\<lparr>ld_name = ''a'', ld_level = INFO, ld_appenders = []\<rparr>]
     [\<lparr>ld_name = ''a'', ld_level = WARN, ld_appenders = []\<rparr>] (\<lambda>_. None) 0 = Inl Null_Deref"
  using config_change [of "[]" _ False 0 "[]" "\<lambda>_. None" 0 "\<lparr>ld_name = ''a'', ld_level = INFO, ld_appenders = []\<rparr>"
    "\<lparr>ld_name = ''a'', ld_level = WARN, ld_appenders = []\<rparr>"] by simp

end
