(* ===== verification/Log_Yaml.thy ===== *)
theory Log_Yaml
  imports Logger Lexical_Cast
begin

text \<open>
  The YAML forms of the log (\<open>log/log.cc\<close>): the dumps of appenders, loggers and the manager, and the conversions of a log definition
  from and to a string. Nodes and the library are those of the configuration; two more operations of a node are arguments: its field of
  a name, and its string.
\<close>

section \<open>Fields of nodes\<close>

text \<open>
  \<open>na_field n k\<close> is \<open>n[k]\<close>: no value when it throws, \<open>Some None\<close> when the field is not defined. \<open>na_text\<close> is \<open>as<std::string>()\<close>.
\<close>

record node_access =
  na_field :: "yaml \<Rightarrow> string \<Rightarrow> yaml option option"
  na_text :: "yaml \<Rightarrow> string option"

section \<open>Dumps\<close>

definition load_text :: "yaml_lib \<Rightarrow> string \<Rightarrow> yaml result" where
  "load_text lib s = (case y_load lib s of None \<Rightarrow> Inl Yaml_Error | Some n \<Rightarrow> Inr n)"

definition Stdout_ToYamlString :: "yaml_lib \<Rightarrow> appender \<Rightarrow> string result" where
  "Stdout_ToYamlString lib a =
     (case ap_formatter a of
        None \<Rightarrow> Inl Null_Deref
      | Some fm \<Rightarrow> Inr (y_emit lib (YMap [(''type'', Scalar ''StdoutLogAppender''), (''pattern'', Scalar (fm_pattern fm))])))"

definition File_ToYamlString :: "yaml_lib \<Rightarrow> string \<Rightarrow> appender \<Rightarrow> string result" where
  "File_ToYamlString lib file a =
     Inr (y_emit lib (YMap [(''type'', Scalar ''FileLogAppender''), (''file'', Scalar file),
       (''pattern'', Scalar (case ap_formatter a of Some fm \<Rightarrow> fm_pattern fm | None \<Rightarrow> fm_pattern (ap_default a)))]))"

text \<open>The virtual call.\<close>

definition Appender_ToYamlString :: "yaml_lib \<Rightarrow> appender \<Rightarrow> string result" where
  "Appender_ToYamlString lib a =
     (case ap_file a of None \<Rightarrow> Stdout_ToYamlString lib a | Some file \<Rightarrow> File_ToYamlString lib file a)"

lemmas dump_defs = Appender_ToYamlString_def Stdout_ToYamlString_def File_ToYamlString_def

fun dump_nodes :: "yaml_lib \<Rightarrow> ('a \<Rightarrow> string result) \<Rightarrow> 'a list \<Rightarrow> yaml list result" where
  "dump_nodes lib dump [] = Inr []"
| "dump_nodes lib dump (x # xs) =
     rbind (dump x) (\<lambda>s. rbind (load_text lib s) (\<lambda>n. rbind (dump_nodes lib dump xs) (\<lambda>ns. Inr (n # ns))))"

definition Logger_ToYamlString :: "yaml_lib \<Rightarrow> logger \<Rightarrow> string result" where
  "Logger_ToYamlString lib l =
     rbind (dump_nodes lib (Appender_ToYamlString lib) (lg_appenders l)) (\<lambda>ns.
     Inr (y_emit lib (YMap ([(''name'', Scalar (lg_name l)), (''level'', Scalar (Level_ToString (lg_level l)))] @
       (if ns = [] then [] else [(''appenders'', Sequence ns)])))))"

text \<open>The loggers of the manager are given in the order of its map, by name.\<close>

definition Manager_ToYamlString :: "yaml_lib \<Rightarrow> logger list \<Rightarrow> string result" where
  "Manager_ToYamlString lib ls =
     rbind (dump_nodes lib (Logger_ToYamlString lib) ls) (\<lambda>ns. Inr (y_emit lib (if ns = [] then YNull else Sequence ns)))"

section \<open>Log definitions\<close>

definition define_less :: "log_define \<Rightarrow> log_define \<Rightarrow> bool" where
  "define_less a b \<longleftrightarrow> str_less (ld_name a) (ld_name b)"

definition pattern_field :: "node_access \<Rightarrow> yaml \<Rightarrow> string option" where
  "pattern_field na a =
     Option.bind (na_field na a ''pattern'') (\<lambda>p. case p of None \<Rightarrow> Some '''' | Some p \<Rightarrow> na_text na p)"

text \<open>One item of the list of appenders: no value when it throws, \<open>Some None\<close> when it is passed over.\<close>

definition appender_from_node :: "node_access \<Rightarrow> yaml \<Rightarrow> log_appender_define option option" where
  "appender_from_node na a =
     Option.bind (na_field na a ''type'') (\<lambda>t. case t of
       None \<Rightarrow> Some None
     | Some t \<Rightarrow> Option.bind (na_text na t) (\<lambda>type.
         if type = ''FileLogAppender'' then
           Option.bind (na_field na a ''file'') (\<lambda>f. case f of
             None \<Rightarrow> Some None
           | Some f \<Rightarrow> Option.bind (na_text na f) (\<lambda>file. Option.bind (pattern_field na a) (\<lambda>pattern.
               Some (Some \<lparr>lad_type = 1, lad_pattern = pattern, lad_file = file\<rparr>))))
         else if type = ''StdoutLogAppender'' then
           Option.bind (pattern_field na a) (\<lambda>pattern. Some (Some \<lparr>lad_type = 2, lad_pattern = pattern, lad_file = ''''\<rparr>))
         else Some None))"

fun appenders_from_nodes :: "node_access \<Rightarrow> yaml list \<Rightarrow> log_appender_define list option" where
  "appenders_from_nodes na [] = Some []"
| "appenders_from_nodes na (n # ns) =
     Option.bind (appender_from_node na n) (\<lambda>lad. Option.bind (appenders_from_nodes na ns) (\<lambda>lads.
     Some (case lad of None \<Rightarrow> lads | Some lad \<Rightarrow> lad # lads)))"

definition LogDefine_from_string :: "yaml_lib \<Rightarrow> node_access \<Rightarrow> log_define from_str" where
  "LogDefine_from_string lib na v =
     Option.bind (y_load lib v) (\<lambda>n. Option.bind (na_field na n ''name'') (\<lambda>name. case name of
       None \<Rightarrow> None
     | Some name \<Rightarrow> Option.bind (na_text na name) (\<lambda>name. Option.bind (na_field na n ''level'') (\<lambda>level.
         Option.bind (case level of None \<Rightarrow> Some '''' | Some level \<Rightarrow> na_text na level) (\<lambda>level.
         Option.bind (na_field na n ''appenders'') (\<lambda>as.
         Option.bind (case as of None \<Rightarrow> Some [] | Some as \<Rightarrow> Option.bind (y_items lib as) (appenders_from_nodes na)) (\<lambda>lads.
         Some \<lparr>ld_name = name, ld_level = Level_FromString level, ld_appenders = lads\<rparr>)))))))"

text \<open>A node that nothing is assigned to is null.\<close>

definition node_of_appender :: "log_appender_define \<Rightarrow> yaml" where
  "node_of_appender a =
     (let fields =
        (if lad_type a = 1 then [(''type'', Scalar ''FileLogAppender''), (''file'', Scalar (lad_file a))]
         else if lad_type a = 2 then [(''type'', Scalar ''StdoutLogAppender'')] else []) @
        (if lad_pattern a \<noteq> '''' then [(''pattern'', Scalar (lad_pattern a))] else [])
      in if fields = [] then YNull else YMap fields)"

definition node_of_define :: "log_define \<Rightarrow> yaml" where
  "node_of_define i =
     YMap ([(''name'', Scalar (ld_name i)), (''level'', Scalar (Level_ToString (ld_level i)))] @
       (if ld_appenders i = [] then [] else [(''appenders'', Sequence (map node_of_appender (ld_appenders i)))]))"

definition LogDefine_to_string :: "yaml_lib \<Rightarrow> log_define to_str" where
  "LogDefine_to_string lib i = Some (y_emit lib (node_of_define i))"

section \<open>Reading back\<close>

text \<open>What is asked of the library: fields of maps, strings of scalars, the items of sequences; and that it reads the node it wrote.\<close>

definition access_ok :: "yaml_lib \<Rightarrow> node_access \<Rightarrow> bool" where
  "access_ok lib na \<longleftrightarrow> (\<forall>ps k. distinct (map fst ps) \<longrightarrow> na_field na (YMap ps) k = Some (map_of ps k)) \<and>
     (\<forall>s. na_text na (Scalar s) = Some s) \<and> (\<forall>ns. y_items lib (Sequence ns) = Some ns)"

definition reads_back :: "yaml_lib \<Rightarrow> yaml \<Rightarrow> bool" where
  "reads_back lib n \<longleftrightarrow> y_load lib (y_emit lib n) = Some n"

text \<open>The appenders a definition can have when it comes from a document.\<close>

definition define_kind :: "log_define \<Rightarrow> bool" where
  "define_kind d \<longleftrightarrow> list_all (\<lambda>a. lad_type a = 1 \<or> lad_type a = 2 \<and> lad_file a = '''') (ld_appenders d)"

lemma appender_from_own:
  assumes "access_ok lib na" "lad_type a = 1 \<or> lad_type a = 2 \<and> lad_file a = ''''"
  shows "appender_from_node na (node_of_appender a) = Some (Some a)"
  using assms by (cases a) (auto simp: access_ok_def appender_from_node_def node_of_appender_def pattern_field_def)

lemma appenders_from_own:
  assumes "access_ok lib na" "list_all (\<lambda>a. lad_type a = 1 \<or> lad_type a = 2 \<and> lad_file a = '''') as"
  shows "appenders_from_nodes na (map node_of_appender as) = Some as"
  using assms(2) by (induction as) (simp_all add: appender_from_own [OF assms(1)])

lemma define_from_own:
  assumes "access_ok lib na" "define_kind d" "reads_back lib (node_of_define d)"
  shows "LogDefine_from_string lib na (y_emit lib (node_of_define d)) = Some d"
  using assms appenders_from_own [OF assms(1), of "ld_appenders d"]
  by (cases d) (auto simp: LogDefine_from_string_def reads_back_def node_of_define_def access_ok_def define_kind_def Level_FromString_ToString)

lemma define_faithful:
  assumes "access_ok lib na" "define_kind d" "reads_back lib (node_of_define d)"
  shows "node_of lib (LogDefine_to_string lib) d = Some (node_of_define d)"
    "faithful lib (LogDefine_from_string lib na) (LogDefine_to_string lib) d"
  using assms define_from_own [OF assms] by (simp_all add: faithful_def node_of_def LogDefine_to_string_def reads_back_def)

lemma define_order: "sorted_wrt define_less ds \<Longrightarrow> sorted_wrt (\<lambda>x y. define_less x y \<and> \<not> define_less y x) ds"
  by (erule sorted_wrt_mono_rel [rotated]) (auto simp: define_less_def dest: string_order.asym)

lemma defines_roundtrip:
  assumes "access_ok lib na" "list_all define_kind ds" "list_all (reads_back lib) (map node_of_define ds)"
    "reads_back lib (Sequence (map node_of_define ds))" "sorted_wrt define_less ds"
  shows "faithful lib (set_from_string define_less lib (LogDefine_from_string lib na)) (set_to_string lib (LogDefine_to_string lib)) ds"
    "set_from_string define_less lib (LogDefine_from_string lib na) (y_emit lib (Sequence (map node_of_define ds))) = Some ds"
proof -
  let ?t = "LogDefine_to_string lib" and ?f = "LogDefine_from_string lib na"
  have 1: "map (node_of lib ?t) ds = map Some (map node_of_define ds)" "list_all (faithful lib ?f ?t) ds"
    using assms(2, 3) define_faithful [OF assms(1)] by (auto simp: list_all_iff)
  have 2: "node_ok lib (Sequence (map node_of_define ds))" using assms(1, 4) by (simp add: node_ok_def reads_back_def access_ok_def)
  have 3: "fold (set_insert define_less) ds [] = ds" using fold_set_insert [of define_less "[]" ds] define_order [OF assms(5)] by simp
  note defs = set_from_string_def [abs_def] set_to_string_def [abs_def]
  from items_roundtrip [OF 1 2 3] show
    *: "faithful lib (set_from_string define_less lib ?f) (set_to_string lib ?t) ds" by (simp add: defs)
  then show "set_from_string define_less lib ?f (y_emit lib (Sequence (map node_of_define ds))) = Some ds"
    using assms(4) push_nodes_map [OF 1(1), of "[]"]
    by (simp add: faithful_def node_of_def set_to_string_def items_to_def reads_back_def)
qed

section \<open>What a dump says of the loggers\<close>

text \<open>The definition of an appender and of a logger that the dump amounts to.\<close>

definition appender_define :: "appender \<Rightarrow> log_appender_define" where
  "appender_define a =
     \<lparr>lad_type = (case ap_file a of None \<Rightarrow> 2 | Some _ \<Rightarrow> 1), lad_pattern = fm_pattern (GetFormatter a),
      lad_file = (case ap_file a of None \<Rightarrow> '''' | Some file \<Rightarrow> file)\<rparr>"

definition logger_define :: "logger \<Rightarrow> log_define" where
  "logger_define l = \<lparr>ld_name = lg_name l, ld_level = lg_level l, ld_appenders = map appender_define (lg_appenders l)\<rparr>"

text \<open>An appender on the standard output needs a formatter of its own; the formatter is one that its pattern gives.\<close>

definition dumpable :: "appender \<Rightarrow> bool" where
  "dumpable a \<longleftrightarrow> \<not> (ap_file a = None \<and> ap_formatter a = None) \<and> fm_pattern (GetFormatter a) \<noteq> '''' \<and>
     LogFormatter (fm_pattern (GetFormatter a)) = Inr (GetFormatter a)"

lemma appender_dump: "dumpable a \<Longrightarrow> Appender_ToYamlString lib a = Inr (y_emit lib (node_of_appender (appender_define a)))"
  by (auto simp: dumpable_def dump_defs node_of_appender_def appender_define_def GetFormatter_def split: option.splits)

lemma dump_nodes_map:
  assumes "\<And>x. x \<in> set xs \<Longrightarrow> dump x = Inr (y_emit lib (g x)) \<and> reads_back lib (g x)"
  shows "dump_nodes lib dump xs = Inr (map g xs)"
  using assms by (induction xs) (simp_all add: load_text_def reads_back_def)

lemma logger_dump:
  assumes "list_all dumpable (lg_appenders l)" "list_all (reads_back lib) (map (node_of_appender \<circ> appender_define) (lg_appenders l))"
  shows "Logger_ToYamlString lib l = Inr (y_emit lib (node_of_define (logger_define l)))"
proof -
  have "dump_nodes lib (Appender_ToYamlString lib) (lg_appenders l) = Inr (map (node_of_appender \<circ> appender_define) (lg_appenders l))"
    using assms by (intro dump_nodes_map) (auto simp: list_all_iff appender_dump)
  then show ?thesis by (simp add: Logger_ToYamlString_def node_of_define_def logger_define_def)
qed

text \<open>The nodes the library has to read back in a dump of the manager.\<close>

definition dump_ok :: "yaml_lib \<Rightarrow> logger list \<Rightarrow> bool" where
  "dump_ok lib ls \<longleftrightarrow> reads_back lib (Sequence (map (node_of_define \<circ> logger_define) ls)) \<and>
     list_all (\<lambda>l. list_all dumpable (lg_appenders l) \<and> reads_back lib (node_of_define (logger_define l)) \<and>
       list_all (reads_back lib) (map (node_of_appender \<circ> appender_define) (lg_appenders l))) ls"

lemma manager_dump:
  assumes "dump_ok lib ls" "ls \<noteq> []"
  shows "Manager_ToYamlString lib ls = Inr (y_emit lib (Sequence (map node_of_define (map logger_define ls))))"
proof -
  have "dump_nodes lib (Logger_ToYamlString lib) ls = Inr (map (node_of_define \<circ> logger_define) ls)"
    using assms(1) by (intro dump_nodes_map) (auto simp: dump_ok_def list_all_iff logger_dump)
  then show ?thesis using assms(2) by (simp add: Manager_ToYamlString_def)
qed

section \<open>Configuring loggers from a dump\<close>

text \<open>Two loggers that print the same: what is left out is the state of the file streams.\<close>

definition appender_key :: "appender \<Rightarrow> string option \<times> log_formatter" where
  "appender_key a = (ap_file a, GetFormatter a)"

definition same_logger :: "logger \<Rightarrow> logger \<Rightarrow> bool" where
  "same_logger l l' \<longleftrightarrow> lg_name l' = lg_name l \<and> lg_level l' = lg_level l \<and>
     map appender_key (lg_appenders l') = map appender_key (lg_appenders l)"

definition named :: "logger_manager \<Rightarrow> bool" where
  "named lm \<longleftrightarrow> (\<forall>n l. lm n = Some l \<longrightarrow> lg_name l = n)"

lemma default_formatter: "\<exists>fm. LogFormatter default_pattern = Inr fm"
  by (rule FileLogAppender_ok [of 0 "[]"]) (auto simp: FileLogAppender_def result_simps)

lemma make_appender_define:
  assumes "dumpable a"
  shows "\<exists>ap. make_appender env False i (appender_define a) = Inr (Some ap) \<and> appender_key ap = appender_key a"
proof -
  from default_formatter obtain fm where "LogFormatter default_pattern = Inr fm" ..
  with assms show ?thesis
    by (auto simp: make_appender_def appender_define_def dumpable_def appender_key_def StdoutLogAppender_def FileLogAppender_def
        Reopen_def new_appender_def SetFormatter_def GetFormatter_def Let_def split: option.splits)
qed

lemma make_appenders_define:
  assumes "list_all dumpable as"
  shows "\<exists>l' i'. make_appenders env False i (map appender_define as) l = Inr (l', i') \<and> lg_name l' = lg_name l \<and> lg_level l' = lg_level l \<and>
    map appender_key (lg_appenders l') = map appender_key (lg_appenders l) @ map appender_key as"
  using assms
proof (induction as arbitrary: i l)
  case (Cons a as)
  then obtain ap where ap: "make_appender env False i (appender_define a) = Inr (Some ap)" "appender_key ap = appender_key a"
    using make_appender_define by fastforce
  from Cons.IH [of "Suc i" "AddAppender l ap"] Cons.prems ap show ?case by (auto simp: AddAppender_def)
qed simp

lemma update_loggers_define:
  assumes "list_all (\<lambda>l. list_all dumpable (lg_appenders l)) ls" "distinct (map lg_name ls)" "named lm"
  shows "\<exists>lm' i'. update_loggers env False now [] (map logger_define ls) lm i = Inr (lm', i') \<and> named lm' \<and>
    list_all (\<lambda>l. case lm' (lg_name l) of None \<Rightarrow> False | Some l' \<Rightarrow> same_logger l l') ls"
  using assms
proof (induction ls arbitrary: lm i)
  case (Cons l ls)
  obtain l0 lm1 where g: "GetLogger now lm (lg_name l) = (l0, lm1)" by fastforce
  from g Cons.prems(3) have l0: "lg_name l0 = lg_name l" and n1: "named lm1"
    by (auto simp: GetLogger_def named_def new_Logger_def Let_def split: option.splits if_splits)
  from make_appenders_define [of "lg_appenders l" env i "ClearAppenders (SetLevel l0 (lg_level l))"] Cons.prems(1) obtain l' j where
    m: "make_appenders env False i (map appender_define (lg_appenders l)) (ClearAppenders (SetLevel l0 (lg_level l))) = Inr (l', j)"
      "same_logger l l'" by (auto simp: same_logger_def ClearAppenders_def SetLevel_def l0)
  have "named (lm1(lg_name l \<mapsto> l'))" using n1 m(2) by (simp add: named_def same_logger_def)
  with Cons obtain lm' i' where u: "update_loggers env False now [] (map logger_define ls) (lm1(lg_name l \<mapsto> l')) j = Inr (lm', i')" "named lm'"
    "list_all (\<lambda>l. case lm' (lg_name l) of None \<Rightarrow> False | Some l' \<Rightarrow> same_logger l l') ls" by fastforce
  have "lm' (lg_name l) = Some l'"
    using update_loggers_other [OF u(1), of "lg_name l"] Cons.prems(2) by (simp add: logger_define_def image_image)
  moreover have "update_loggers env False now [] (map logger_define (l # ls)) lm i = Inr (lm', i')"
    using g m(1) u(1) by (simp add: logger_define_def find_define_def)
  ultimately show ?case using u m(2) by simp
qed simp

section \<open>Properties\<close>

text \<open>
  A set of log definitions is recovered from the string it is converted to, whenever the library reads back the nodes it wrote and
  the appenders are of the two kinds a document can have.
\<close>

theorem define_roundtrip:
  assumes "access_ok lib na" "list_all define_kind ds" "list_all (reads_back lib) (map node_of_define ds)"
    "reads_back lib (Sequence (map node_of_define ds))" "sorted_wrt define_less ds"
  shows "\<exists>s. set_to_string lib (LogDefine_to_string lib) ds = Some s \<and>
    set_from_string define_less lib (LogDefine_from_string lib na) s = Some ds"
proof -
  have "map (node_of lib (LogDefine_to_string lib)) ds = map Some (map node_of_define ds)"
    using assms(2, 3) define_faithful(1) [OF assms(1)] by (auto simp: list_all_iff)
  from push_nodes_map [OF this, of "[]"] defines_roundtrip(2) [OF assms] show ?thesis by (simp add: set_to_string_def items_to_def)
qed


text \<open>The logger the manager is constructed with can not be dumped: its appender has no formatter of its own.\<close>

theorem root_dump_fails:
  assumes "LoggerManager now = Inr lm" "lm ''root'' = Some l"
  shows "Manager_ToYamlString lib [l] = Inl Null_Deref"
proof -
  from default_formatter obtain fm where fm: "LogFormatter default_pattern = Inr fm" ..
  from assms have l: "l = AddAppender (new_Logger ''root'' now) (new_appender 0 None fm)"
    by (simp add: LoggerManager_def StdoutLogAppender_def fm) (metis fun_upd_same option.inject)
  have "Appender_ToYamlString lib (new_appender 0 None fm) = Inl Null_Deref" by (simp add: dump_defs new_appender_def)
  then have "Logger_ToYamlString lib l = Inl Null_Deref" by (simp add: Logger_ToYamlString_def l AddAppender_def new_Logger_def)
  then show ?thesis by (simp add: Manager_ToYamlString_def)
qed

text \<open>A library for the documents of a table, and one logger with an appender on the standard output.\<close>

definition table_lib :: "(string \<times> yaml) list \<Rightarrow> yaml_lib" where
  "table_lib tab = \<lparr>y_load = map_of tab,
     y_emit = (\<lambda>n. case List.find (\<lambda>p. snd p = n) tab of Some p \<Rightarrow> fst p | None \<Rightarrow> ''~''),
     y_items = (\<lambda>n. case n of Sequence ns \<Rightarrow> Some ns | _ \<Rightarrow> Some []),
     y_pairs = (\<lambda>n. case n of YMap ps \<Rightarrow> Some ps | _ \<Rightarrow> None)\<rparr>"

definition map_access :: node_access where
  "map_access = \<lparr>na_field = (\<lambda>n k. case n of YMap ps \<Rightarrow> Some (map_of ps k) | YNull \<Rightarrow> Some None | _ \<Rightarrow> None),
     na_text = (\<lambda>n. case n of Scalar s \<Rightarrow> Some s | _ \<Rightarrow> None)\<rparr>"

definition plain_formatter :: log_formatter where
  "plain_formatter = \<lparr>fm_pattern = ''%m%n'', fm_items = [MessageFormatItem, NewLineFormatItem], fm_error = False\<rparr>"

definition plain_logger :: logger where
  "plain_logger = SetLevel (AddAppender (new_Logger ''root'' 0) (SetFormatter (new_appender 0 None plain_formatter) plain_formatter)) WARN"

definition plain_lib :: yaml_lib where
  "plain_lib = table_lib [(''{type: StdoutLogAppender, pattern: \"%m%n\"}'', node_of_appender (appender_define (hd (lg_appenders plain_logger)))),
     (''{name: root, level: WARN, appenders: [{type: StdoutLogAppender, pattern: \"%m%n\"}]}'', node_of_define (logger_define plain_logger)),
     (''[{name: root, level: WARN, appenders: [{type: StdoutLogAppender, pattern: \"%m%n\"}]}]'', Sequence [node_of_define (logger_define plain_logger)])]"

lemma plain_ok: "access_ok plain_lib map_access" "dump_ok plain_lib [plain_logger]" "define_kind (logger_define plain_logger)"
proof -
  have "items_ok [MessageFormatItem, NewLineFormatItem]" "pattern_of [MessageFormatItem, NewLineFormatItem] = ''%m%n''"
    by (simp_all add: items_ok_def pattern_of_def)
  from LogFormatter_items [OF this(1)] this(2) have f: "LogFormatter ''%m%n'' = Inr plain_formatter" by (simp add: plain_formatter_def)
  note defs = plain_lib_def table_lib_def node_of_appender_def appender_define_def plain_logger_def SetLevel_def AddAppender_def new_Logger_def
    SetFormatter_def new_appender_def node_of_define_def logger_define_def GetFormatter_def plain_formatter_def
  show "access_ok plain_lib map_access" by (simp add: access_ok_def map_access_def plain_lib_def table_lib_def)
  have "list_all dumpable (lg_appenders plain_logger)"
    using f by (simp add: dumpable_def plain_logger_def SetLevel_def AddAppender_def new_Logger_def SetFormatter_def GetFormatter_def
        plain_formatter_def)
  moreover have "reads_back plain_lib (Sequence [node_of_define (logger_define plain_logger)])"
    "reads_back plain_lib (node_of_define (logger_define plain_logger))"
    "list_all (reads_back plain_lib) (map (node_of_appender \<circ> appender_define) (lg_appenders plain_logger))"
    by code_simp+
  ultimately show "dump_ok plain_lib [plain_logger]" by (simp add: dump_ok_def)
  show "define_kind (logger_define plain_logger)" by (simp add: define_kind_def defs)
qed

theorem define_roundtrip_witness:
  "\<exists>s. set_to_string plain_lib (LogDefine_to_string plain_lib) [logger_define plain_logger] = Some s \<and>
     set_from_string define_less plain_lib (LogDefine_from_string plain_lib map_access) s = Some [logger_define plain_logger]"
  by (rule define_roundtrip) (use plain_ok in \<open>simp_all add: dump_ok_def\<close>)


theorem root_dump_fails_witness:
  "\<exists>lm l. LoggerManager 0 = Inr lm \<and> lm ''root'' = Some l \<and> Manager_ToYamlString plain_lib [l] = Inl Null_Deref"
proof -
  from default_formatter obtain fm where "LogFormatter default_pattern = Inr fm" ..
  then obtain lm l where "LoggerManager 0 = Inr lm" "lm ''root'' = Some l" by (simp add: LoggerManager_def StdoutLogAppender_def)
  with root_dump_fails [OF this] show ?thesis by blast
qed

end
