(* ===== verification/Byte_Stream.thy ===== *)
theory Byte_Stream
  imports Prelude
begin

text \<open>
  Streams (\<open>util/stream.h\<close>, \<open>util/stream.cc\<close>): the loops that read or write a fixed number of bytes. \<open>read\<close> and \<open>write\<close> are pure virtual,
  so they are parameters here, functions on the state of the stream.
\<close>

section \<open>The loops\<close>

text \<open>
  \<open>read\<close> is given the state and the number of bytes wanted, and gives its result, the bytes it has stored and the new state;
  \<open>write\<close> is given the state and the bytes offered. \<open>left\<close> is a signed 64-bit number.
\<close>

type_synonym 's reader = "'s \<Rightarrow> nat \<Rightarrow> int \<times> u8 list \<times> 's"
type_synonym 's writer = "'s \<Rightarrow> u8 list \<Rightarrow> int \<times> 's"

function read_fix_loop :: "'s reader \<Rightarrow> 's \<Rightarrow> u8 list \<Rightarrow> nat \<Rightarrow> int \<Rightarrow> int option \<times> u8 list \<times> 's" where
  "read_fix_loop rd s buffer offset left =
     (if left \<le> 0 then (None, buffer, s)
      else
        let (len, bs, s') = rd s (nat left) in
        if len \<le> 0 then (Some len, buffer, s')
        else read_fix_loop rd s' (overwrite offset bs buffer) (offset + nat len) (left - len))"
  by auto
termination by (relation "measure (\<lambda>(_, _, _, _, left). nat left)") auto

definition ReadFixSize :: "'s reader \<Rightarrow> 's \<Rightarrow> u8 list \<Rightarrow> u64 \<Rightarrow> int \<times> u8 list \<times> 's" where
  "ReadFixSize rd s buffer len =
     (case read_fix_loop rd s buffer 0 (sint len) of
        (Some r, buffer', s') \<Rightarrow> (r, buffer', s')
      | (None, buffer', s') \<Rightarrow> (c_int (uint len), buffer', s'))"

text \<open>Into and from a byte array: the array is part of the state the virtual function changes.\<close>

function fix_loop_ba :: "('s \<Rightarrow> 'b \<Rightarrow> nat \<Rightarrow> int \<times> 's \<times> 'b) \<Rightarrow> 's \<Rightarrow> 'b \<Rightarrow> int \<Rightarrow> int option \<times> 's \<times> 'b" where
  "fix_loop_ba io s ba left =
     (if left \<le> 0 then (None, s, ba)
      else
        let (len, s', ba') = io s ba (nat left) in
        if len \<le> 0 then (Some len, s', ba') else fix_loop_ba io s' ba' (left - len))"
  by auto
termination by (relation "measure (\<lambda>(_, _, _, left). nat left)") auto

definition ReadFixSize_ba :: "('s \<Rightarrow> 'b \<Rightarrow> nat \<Rightarrow> int \<times> 's \<times> 'b) \<Rightarrow> 's \<Rightarrow> 'b \<Rightarrow> u64 \<Rightarrow> int \<times> 's \<times> 'b" where
  "ReadFixSize_ba rd s ba len =
     (case fix_loop_ba rd s ba (sint len) of (r, s', ba') \<Rightarrow> (case r of Some r \<Rightarrow> r | None \<Rightarrow> c_int (uint len), s', ba'))"

definition WriteFixSize_ba :: "('s \<Rightarrow> 'b \<Rightarrow> nat \<Rightarrow> int \<times> 's \<times> 'b) \<Rightarrow> 's \<Rightarrow> 'b \<Rightarrow> u64 \<Rightarrow> int \<times> 's \<times> 'b" where
  "WriteFixSize_ba wr s ba len =
     (case fix_loop_ba wr s ba (sint len) of (r, s', ba') \<Rightarrow> (case r of Some r \<Rightarrow> r | None \<Rightarrow> c_int (uint len), s', ba'))"

function write_fix_loop :: "'s writer \<Rightarrow> 's \<Rightarrow> u8 list \<Rightarrow> nat \<Rightarrow> int \<Rightarrow> int option \<times> 's" where
  "write_fix_loop wr s buffer offset left =
     (if left \<le> 0 then (None, s)
      else
        let (len, s') = wr s (take (nat left) (drop offset buffer)) in
        if len \<le> 0 then (Some len, s') else write_fix_loop wr s' buffer (offset + nat len) (left - len))"
  by auto
termination by (relation "measure (\<lambda>(_, _, _, _, left). nat left)") auto

definition WriteFixSize :: "'s writer \<Rightarrow> 's \<Rightarrow> u8 list \<Rightarrow> u64 \<Rightarrow> int \<times> 's" where
  "WriteFixSize wr s buffer len =
     (case write_fix_loop wr s buffer 0 (sint len) of (r, s') \<Rightarrow> (case r of Some r \<Rightarrow> r | None \<Rightarrow> c_int (uint len), s'))"

declare read_fix_loop.simps [simp del] fix_loop_ba.simps [simp del] write_fix_loop.simps [simp del]

section \<open>What the virtual functions promise\<close>

text \<open>
  The documented results: a positive result is the number of bytes that were transferred, at most as many as asked for; otherwise
  nothing was. \<open>content\<close> is what the stream still has to deliver. It does not stall as long as a call transfers something.
\<close>

definition reads_from :: "'s reader \<Rightarrow> ('s \<Rightarrow> u8 list) \<Rightarrow> bool" where
  "reads_from rd content \<longleftrightarrow> (\<forall>s n len bs s'. 0 < n \<longrightarrow> rd s n = (len, bs, s') \<longrightarrow>
     content s = bs @ content s' \<and> length bs \<le> n \<and> int (length bs) = max 0 len)"

definition delivers :: "'s reader \<Rightarrow> ('s \<Rightarrow> u8 list) \<Rightarrow> bool" where
  "delivers rd content \<longleftrightarrow> (\<forall>s n. 0 < n \<longrightarrow> content s \<noteq> [] \<longrightarrow> 0 < fst (rd s n))"

definition writes_to :: "'s writer \<Rightarrow> ('s \<Rightarrow> u8 list) \<Rightarrow> bool" where
  "writes_to wr content \<longleftrightarrow> (\<forall>s bs len s'. wr s bs = (len, s') \<longrightarrow>
     content s' = content s @ take (nat len) bs \<and> nat len \<le> length bs)"

definition accepts :: "'s writer \<Rightarrow> bool" where
  "accepts wr \<longleftrightarrow> (\<forall>s bs. bs \<noteq> [] \<longrightarrow> 0 < fst (wr s bs))"

lemma reads_fromD:
  assumes "reads_from rd content" "rd s n = (len, bs, s')" "0 < n"
  shows "content s = bs @ content s'" "length bs \<le> n" "int (length bs) = max 0 len"
  using assms unfolding reads_from_def by blast+

lemma writes_toD:
  assumes "writes_to wr content" "wr s bs = (len, s')"
  shows "content s' = content s @ take (nat len) bs" "nat len \<le> length bs"
  using assms unfolding writes_to_def by blast+

lemma read_fix_loop_prefix:
  assumes "reads_from rd content" "read_fix_loop rd s buf off left = (r, buf', s')" "off + nat left \<le> length buf"
  shows "\<exists>got. content s = got @ content s' \<and> buf' = overwrite off got buf \<and>
    (case r of None \<Rightarrow> length got = nat left | Some e \<Rightarrow> e \<le> 0 \<and> length got < nat left)"
  using assms(2, 3)
proof (induction "nat left" arbitrary: s buf off left rule: less_induct)
  case less
  obtain len bs s1 where rd: "rd s (nat left) = (len, bs, s1)" by (cases "rd s (nat left)") auto
  consider "left \<le> 0" | "0 < left" "len \<le> 0" | "0 < left" "0 < len" by linarith
  then show ?case
  proof cases
    case 1
    then show ?thesis using less.prems(1) by (simp add: read_fix_loop.simps)
  next
    case 2
    then have "bs = []" "content s = content s1" using reads_fromD [OF assms(1) rd] by simp_all
    then show ?thesis using 2 less.prems(1) rd by (auto simp: read_fix_loop.simps)
  next
    case 3
    then have bs: "content s = bs @ content s1" "length bs \<le> nat left" "int (length bs) = len"
      using reads_fromD [OF assms(1) rd] by simp_all
    have len: "nat len = length bs" using bs(3) by linarith
    have rec: "read_fix_loop rd s1 (overwrite off bs buf) (off + length bs) (left - len) = (r, buf', s')"
      using less.prems(1) 3 rd len by (simp add: read_fix_loop.simps [of rd s])
    have "nat (left - len) < nat left" using 3 by linarith
    moreover have fit: "off + length bs + nat (left - len) \<le> length (overwrite off bs buf)"
      using less.prems(2) bs(2, 3) 3 by simp
    ultimately obtain got where "content s1 = got @ content s'"
      "buf' = overwrite (off + length bs) got (overwrite off bs buf)"
      "case r of None \<Rightarrow> length got = nat (left - len) | Some e \<Rightarrow> e \<le> 0 \<and> length got < nat (left - len)"
      using less.hyps [OF _ rec] by blast
    moreover have "overwrite (off + length bs) got (overwrite off bs buf) = overwrite off (bs @ got) buf"
      using less.prems(2) bs(2) by (intro overwrite_overwrite) linarith
    ultimately show ?thesis using bs 3 by (intro exI [of _ "bs @ got"]) (auto split: option.splits)
  qed
qed

lemma read_fix_loop_delivers:
  assumes "reads_from rd content" "delivers rd content" "nat left \<le> length (content s)"
  shows "fst (read_fix_loop rd s buf off left) = None"
  using assms(3)
proof (induction "nat left" arbitrary: s buf off left rule: less_induct)
  case less
  obtain len bs s1 where rd: "rd s (nat left) = (len, bs, s1)" by (cases "rd s (nat left)") auto
  show ?case
  proof (cases "left \<le> 0")
    case False
    then have "0 < fst (rd s (nat left))" using assms(2) less.prems unfolding delivers_def by (metis list.size(3) nat_0_iff leD not_le zero_less_nat_eq)
    then have 0: "0 < len" using rd by simp
    then have bs: "content s = bs @ content s1" "int (length bs) = len"
      using reads_fromD [OF assms(1) rd] False by simp_all
    then have "nat (left - len) \<le> length (content s1)" using less.prems by simp
    moreover have "nat (left - len) < nat left" using False 0 by linarith
    ultimately show ?thesis using less.hyps rd False 0 by (simp add: read_fix_loop.simps [of rd s])
  qed (simp add: read_fix_loop.simps)
qed

lemma write_fix_loop_prefix:
  assumes "writes_to wr content" "write_fix_loop wr s buf off left = (r, s')" "off + nat left \<le> length buf"
  shows "\<exists>k. content s' = content s @ take k (drop off buf) \<and>
    (case r of None \<Rightarrow> k = nat left | Some e \<Rightarrow> e \<le> 0 \<and> k < nat left) \<and> (accepts wr \<longrightarrow> r = None)"
  using assms(2, 3)
proof (induction "nat left" arbitrary: s off left rule: less_induct)
  case less
  let ?bs = "take (nat left) (drop off buf)"
  obtain len s1 where wr: "wr s ?bs = (len, s1)" by (cases "wr s ?bs") auto
  have c: "content s1 = content s @ take (nat len) ?bs" "nat len \<le> nat left"
    using writes_toD [OF assms(1) wr] by auto
  consider "left \<le> 0" | "0 < left" "len \<le> 0" | "0 < left" "0 < len" by linarith
  then show ?case
  proof cases
    case 1
    then show ?thesis using less.prems(1) by (auto simp: write_fix_loop.simps intro!: exI [of _ 0])
  next
    case 2
    then have "?bs \<noteq> []" using less.prems(2) by simp
    then have "\<not> accepts wr" using wr 2 unfolding accepts_def by (metis fst_conv not_le)
    then show ?thesis using 2 less.prems(1) wr c by (auto simp: write_fix_loop.simps intro!: exI [of _ 0])
  next
    case 3
    have rec: "write_fix_loop wr s1 buf (off + nat len) (left - len) = (r, s')"
      using less.prems(1) 3 wr by (simp add: write_fix_loop.simps [of wr s])
    have "nat (left - len) < nat left" "off + nat len + nat (left - len) \<le> length buf" using 3 less.prems(2) c(2) by linarith+
    from less.hyps [OF this(1) rec this(2)] obtain k where k:
      "content s' = content s1 @ take k (drop (off + nat len) buf)"
      "case r of None \<Rightarrow> k = nat (left - len) | Some e \<Rightarrow> e \<le> 0 \<and> k < nat (left - len)" "accepts wr \<longrightarrow> r = None"
      by blast
    have "take (nat len + k) (drop off buf) = take (nat len) ?bs @ take k (drop (off + nat len) buf)"
      unfolding take_add using c(2) by (simp add: min_def add.commute)
    then show ?thesis using k c 3 by (intro exI [of _ "nat len + k"]) (auto split: option.splits)
  qed
qed

section \<open>Properties\<close>

lemma small_size:
  assumes "unat (len :: u64) < 2 ^ 31"
  shows "sint len = int (unat len)" "nat (sint len) = unat len" "c_int (uint len) = int (unat len)"
proof -
  have u: "uint len = int (unat len)" by simp
  have "- (2 ^ 63) \<le> int (unat len)" by (rule order_trans [of _ 0]) simp_all
  moreover have "int (unat len) < int (2 ^ 63)" unfolding of_nat_less_iff by (rule less_trans [OF assms]) simp
  then have "int (unat len) < 2 ^ 63" by simp
  ultimately have "signed_take_bit 63 (uint len) = uint len" unfolding u by (rule signed_take_bit_int_eq_self)
  then show s: "sint len = int (unat len)" by (simp add: sint_uint)
  show "nat (sint len) = unat len" unfolding s by simp
  have "c_int (int n) = int n" if "n < 2 ^ 31" for n by (rule c_int_small) (use that in simp_all)
  from this [OF assms] show "c_int (uint len) = int (unat len)" by simp
qed

text \<open>
  Reading a fixed size, over a stream that may deliver as little as it likes per call: the buffer holds the next bytes of the stream
  from its start on, in order, and no byte of the stream is lost. The result is the size exactly when all of it was read, otherwise that of
  the failed call; and when the stream has that many bytes and does not stall, all are read.
\<close>

theorem read_fix_size:
  assumes "reads_from rd content" "unat len \<le> length buf" "unat len < 2 ^ 31" "ReadFixSize rd s buf len = (r, buf', s')"
  shows "(\<exists>got. content s = got @ content s' \<and> buf' = overwrite 0 got buf \<and>
      (if length got = unat len then r = int (unat len) else r \<le> 0 \<and> length got < unat len)) \<and>
    (delivers rd content \<and> unat len \<le> length (content s) \<longrightarrow> r = int (unat len))"
proof -
  obtain o' where l: "read_fix_loop rd s buf 0 (sint len) = (o', buf', s')" and r: "r = (case o' of Some e \<Rightarrow> e | None \<Rightarrow> int (unat len))"
    using assms(4) small_size(3) [OF assms(3)] by (auto simp: ReadFixSize_def split: prod.splits option.splits)
  have "\<exists>got. content s = got @ content s' \<and> buf' = overwrite 0 got buf \<and>
      (case o' of None \<Rightarrow> length got = unat len | Some e \<Rightarrow> e \<le> 0 \<and> length got < unat len)"
    using read_fix_loop_prefix [OF assms(1) l, unfolded small_size(2) [OF assms(3)]] assms(2) by simp
  moreover have "o' = None" if "delivers rd content" "unat len \<le> length (content s)"
    using read_fix_loop_delivers [OF assms(1) that(1), of "sint len" s buf 0] that(2) l by (simp add: small_size(2) [OF assms(3)])
  ultimately show ?thesis using r by (auto split: option.splits)
qed

text \<open>A pipe that hands over at most two bytes per read and three per write.\<close>

definition pipe_read :: "u8 list reader" where
  "pipe_read s n = (let k = min n 2 in (int (length (take k s)), take k s, drop k s))"

definition pipe_write :: "u8 list writer" where
  "pipe_write s bs = (let k = min 3 (length bs) in (int k, s @ take k bs))"

lemma pipe_laws: "reads_from pipe_read id" "delivers pipe_read id" "writes_to pipe_write id" "accepts pipe_write"
proof -
  show "reads_from pipe_read id" by (auto simp: reads_from_def pipe_read_def Let_def)
  show "delivers pipe_read id" by (auto simp: delivers_def pipe_read_def Let_def)
  show "writes_to pipe_write id" by (auto simp: writes_to_def pipe_write_def Let_def)
  show "accepts pipe_write" by (auto simp: accepts_def pipe_write_def Let_def)
qed

theorem read_fix_size_witness:
  "\<exists>buf' s'. ReadFixSize pipe_read [1, 2, 3, 4, 5, 6] (replicate 5 0) 5 = (5, buf', s')"
proof -
  obtain r buf' s' where "ReadFixSize pipe_read [1, 2, 3, 4, 5, 6] (replicate 5 0) 5 = (r, buf', s')"
    by (cases "ReadFixSize pipe_read [1, 2, 3, 4, 5, 6] (replicate 5 0) 5") auto
  with read_fix_size [OF pipe_laws(1) _ _ this] pipe_laws(2) show ?thesis by auto
qed

text \<open>
  What is written with a fixed size to a stream that takes at most part of it per call, but always something, is all written, and a
  reader of the same stream that asks for as many bytes gets exactly the bytes written.
\<close>

theorem fix_size_roundtrip:
  assumes "writes_to wr content" "accepts wr" "reads_from rd content" "delivers rd content" "content s = []"
    "unat len < 2 ^ 31" "length src = unat len" "length dst = unat len"
    "WriteFixSize wr s src len = (r, s1)" "ReadFixSize rd s1 dst len = (r', dst', s2)"
  shows "r = int (unat len) \<and> r' = int (unat len) \<and> dst' = src \<and> content s2 = []"
proof -
  note small = small_size [OF assms(6)]
  obtain o1 where w: "write_fix_loop wr s src 0 (sint len) = (o1, s1)" and r: "r = (case o1 of Some e \<Rightarrow> e | None \<Rightarrow> int (unat len))"
    using assms(9) unfolding WriteFixSize_def small(3) by (auto split: prod.splits)
  from write_fix_loop_prefix [OF assms(1) w] assms(2, 5, 7) have 1: "o1 = None" "content s1 = src"
    by (auto simp: small(2))
  obtain o2 where l: "read_fix_loop rd s1 dst 0 (sint len) = (o2, dst', s2)" and r': "r' = (case o2 of Some e \<Rightarrow> e | None \<Rightarrow> int (unat len))"
    using assms(10) small(3) by (auto simp: ReadFixSize_def split: prod.splits option.splits)
  have 2: "o2 = None"
    using read_fix_loop_delivers [OF assms(3, 4), of "sint len" s1 dst 0] l 1 assms(7) by (simp add: small(2))
  with read_fix_loop_prefix [OF assms(3) l] assms(8) obtain got
    where "content s1 = got @ content s2" "dst' = overwrite 0 got dst" "length got = unat len"
    by (auto simp: small(2))
  then have "got = src" "content s2 = []" "dst' = got" using 1(2) assms(7, 8) by (auto simp: overwrite_def)
  then show ?thesis using r r' 1 2 by simp
qed

theorem fix_size_roundtrip_witness:
  "\<exists>s1 s2. WriteFixSize pipe_write [] [7, 8, 9, 10] 4 = (4, s1) \<and> ReadFixSize pipe_read s1 [0, 0, 0, 0] 4 = (4, [7, 8, 9, 10], s2)"
proof -
  obtain r s1 where w: "WriteFixSize pipe_write [] [7, 8, 9, 10] 4 = (r, s1)" by fastforce
  obtain r' dst' s2 where l: "ReadFixSize pipe_read s1 [0, 0, 0, 0] 4 = (r', dst', s2)"
    by (cases "ReadFixSize pipe_read s1 [0, 0, 0, 0] 4") auto
  from fix_size_roundtrip [OF pipe_laws(3, 4, 1, 2) _ _ _ _ w l] w l show ?thesis by simp
qed

end
