(* ===== verification/Locks.thy ===== *)
theory Locks
  imports Prelude
begin

text \<open>
  Locks and semaphores (\<open>env/mutex.h\<close>, \<open>env/mutex.cc\<close>). A lock is a state and two operations of a thread: taking it, which gives no
  state while the thread has to wait, and releasing it. The scoped locks are the objects by which all other code takes and releases
  locks; the locale \<open>lock_laws\<close> has what they need of a lock, and is interpreted on every lock class of the file.
\<close>

section \<open>The lock classes\<close>

datatype lock_kind = Plain | Rd | Wr

record 'm lock_ops =
  lk_lock :: "lock_kind \<Rightarrow> 'm \<Rightarrow> nat \<Rightarrow> 'm option"
  lk_unlock :: "'m \<Rightarrow> nat \<Rightarrow> 'm result"

text \<open>\<open>Mutex\<close> and \<open>Spinlock\<close>: the thread that holds the lock, if any. They have the plain lock only.\<close>

definition Mutex :: "nat option" where
  "Mutex = None"

definition Mutex_lock :: "nat option \<Rightarrow> nat \<Rightarrow> nat option option" where
  "Mutex_lock m t = (if m = None then Some (Some t) else None)"

definition Mutex_unlock :: "nat option \<Rightarrow> nat \<Rightarrow> nat option result" where
  "Mutex_unlock m t = (if m = Some t then Inr None else Inl Undefined_Unlock)"

definition Spinlock :: "nat option" where
  "Spinlock = None"

definition Spinlock_lock :: "nat option \<Rightarrow> nat \<Rightarrow> nat option option" where
  "Spinlock_lock m t = (if m = None then Some (Some t) else None)"

definition Spinlock_unlock :: "nat option \<Rightarrow> nat \<Rightarrow> nat option result" where
  "Spinlock_unlock m t = (if m = Some t then Inr None else Inl Undefined_Unlock)"

text \<open>\<open>RWMutex\<close>: the writer, if any, and the readers. A thread waits when it asks for a lock that excludes one it has itself.\<close>

record rwlock =
  rw_writer :: "nat option"
  rw_readers :: "nat list"

definition RWMutex :: rwlock where
  "RWMutex = \<lparr>rw_writer = None, rw_readers = []\<rparr>"

definition rdlock :: "rwlock \<Rightarrow> nat \<Rightarrow> rwlock option" where
  "rdlock m t = (if rw_writer m = None then Some (m\<lparr>rw_readers := t # rw_readers m\<rparr>) else None)"

definition wrlock :: "rwlock \<Rightarrow> nat \<Rightarrow> rwlock option" where
  "wrlock m t = (if rw_writer m = None \<and> rw_readers m = [] then Some (m\<lparr>rw_writer := Some t\<rparr>) else None)"

definition RWMutex_unlock :: "rwlock \<Rightarrow> nat \<Rightarrow> rwlock result" where
  "RWMutex_unlock m t =
     (if rw_writer m = Some t then Inr (m\<lparr>rw_writer := None\<rparr>)
      else if t \<in> set (rw_readers m) then Inr (m\<lparr>rw_readers := remove1 t (rw_readers m)\<rparr>)
      else Inl Undefined_Unlock)"

text \<open>
  \<open>CASLock\<close>: the flag, with the thread that has set it as a ghost. \<open>lock\<close> repeats the atomic test-and-set until the flag was clear;
  \<open>cas_spin\<close> is the loop over the values the flag has at the attempts. \<open>unlock\<close> clears the flag whoever set it.
\<close>

record cas_lock =
  cas_flag :: bool
  cas_owner :: "nat option"

definition CASLock :: cas_lock where
  "CASLock = \<lparr>cas_flag = False, cas_owner = None\<rparr>"

definition test_and_set :: "bool \<Rightarrow> bool \<times> bool" where
  "test_and_set flag = (flag, True)"

fun cas_spin :: "bool list \<Rightarrow> nat option" where
  "cas_spin [] = None"
| "cas_spin (flag # flags) = (if fst (test_and_set flag) then map_option Suc (cas_spin flags) else Some 1)"

definition CASLock_lock :: "cas_lock \<Rightarrow> nat \<Rightarrow> cas_lock option" where
  "CASLock_lock m t =
     (let (old, new) = test_and_set (cas_flag m) in if old then None else Some \<lparr>cas_flag = new, cas_owner = Some t\<rparr>)"

definition CASLock_unlock :: "cas_lock \<Rightarrow> nat \<Rightarrow> cas_lock result" where
  "CASLock_unlock m t = Inr \<lparr>cas_flag = False, cas_owner = None\<rparr>"

text \<open>The null locks do nothing.\<close>

definition NullMutex_lock :: "unit \<Rightarrow> nat \<Rightarrow> unit option" where
  "NullMutex_lock m t = Some ()"

definition NullMutex_unlock :: "unit \<Rightarrow> nat \<Rightarrow> unit result" where
  "NullMutex_unlock m t = Inr ()"

definition mutex_ops :: "nat option lock_ops" where
  "mutex_ops = \<lparr>lk_lock = (\<lambda>k m t. if k = Plain then Mutex_lock m t else None), lk_unlock = Mutex_unlock\<rparr>"

definition spinlock_ops :: "nat option lock_ops" where
  "spinlock_ops = \<lparr>lk_lock = (\<lambda>k m t. if k = Plain then Spinlock_lock m t else None), lk_unlock = Spinlock_unlock\<rparr>"

definition rwmutex_ops :: "rwlock lock_ops" where
  "rwmutex_ops = \<lparr>lk_lock = (\<lambda>k m t. case k of Rd \<Rightarrow> rdlock m t | Wr \<Rightarrow> wrlock m t | Plain \<Rightarrow> None), lk_unlock = RWMutex_unlock\<rparr>"

definition caslock_ops :: "cas_lock lock_ops" where
  "caslock_ops = \<lparr>lk_lock = (\<lambda>k m t. if k = Plain then CASLock_lock m t else None), lk_unlock = CASLock_unlock\<rparr>"

section \<open>Scoped locks\<close>

text \<open>An object of thread \<open>so_thread\<close>. The three templates differ in the operation that takes the lock.\<close>

record scoped =
  so_thread :: nat
  so_kind :: lock_kind
  so_locked :: bool

definition scoped_new :: "'m lock_ops \<Rightarrow> lock_kind \<Rightarrow> 'm \<Rightarrow> nat \<Rightarrow> ('m \<times> scoped) option" where
  "scoped_new ops k m t =
     (case lk_lock ops k m t of None \<Rightarrow> None | Some m' \<Rightarrow> Some (m', \<lparr>so_thread = t, so_kind = k, so_locked = True\<rparr>))"

definition scoped_lock :: "'m lock_ops \<Rightarrow> 'm \<Rightarrow> scoped \<Rightarrow> ('m \<times> scoped) option" where
  "scoped_lock ops m so =
     (if \<not> so_locked so then
        (case lk_lock ops (so_kind so) m (so_thread so) of None \<Rightarrow> None | Some m' \<Rightarrow> Some (m', so\<lparr>so_locked := True\<rparr>))
      else Some (m, so))"

definition scoped_unlock :: "'m lock_ops \<Rightarrow> 'm \<Rightarrow> scoped \<Rightarrow> ('m \<times> scoped) result" where
  "scoped_unlock ops m so =
     (if so_locked so then rbind (lk_unlock ops m (so_thread so)) (\<lambda>m'. Inr (m', so\<lparr>so_locked := False\<rparr>))
      else Inr (m, so))"

definition scoped_destroy :: "'m lock_ops \<Rightarrow> 'm \<Rightarrow> scoped \<Rightarrow> 'm result" where
  "scoped_destroy ops m so = rbind (scoped_unlock ops m so) (\<lambda>(m', _). Inr m')"

definition ScopedLockImpl :: "'m lock_ops \<Rightarrow> 'm \<Rightarrow> nat \<Rightarrow> ('m \<times> scoped) option" where
  "ScopedLockImpl ops m t = scoped_new ops Plain m t"

definition ReadScopedLockImpl :: "'m lock_ops \<Rightarrow> 'm \<Rightarrow> nat \<Rightarrow> ('m \<times> scoped) option" where
  "ReadScopedLockImpl ops m t = scoped_new ops Rd m t"

definition WriteScopedLockImpl :: "'m lock_ops \<Rightarrow> 'm \<Rightarrow> nat \<Rightarrow> ('m \<times> scoped) option" where
  "WriteScopedLockImpl ops m t = scoped_new ops Wr m t"

text \<open>A lock and the scoped objects on it, of any threads; each operation is one step, a thread that waits takes none.\<close>

record 'm lock_sys =
  ls_mutex :: 'm
  ls_objs :: "scoped list"

inductive lock_step :: "'m lock_ops \<Rightarrow> 'm lock_sys \<Rightarrow> 'm lock_sys \<Rightarrow> bool" for ops where
  construct: "scoped_new ops k (ls_mutex s) t = Some (m, so) \<Longrightarrow>
    lock_step ops s \<lparr>ls_mutex = m, ls_objs = ls_objs s @ [so]\<rparr>"
| relock: "i < length (ls_objs s) \<Longrightarrow> scoped_lock ops (ls_mutex s) (ls_objs s ! i) = Some (m, so) \<Longrightarrow>
    lock_step ops s \<lparr>ls_mutex = m, ls_objs = (ls_objs s)[i := so]\<rparr>"
| unlock: "i < length (ls_objs s) \<Longrightarrow> scoped_unlock ops (ls_mutex s) (ls_objs s ! i) = Inr (m, so) \<Longrightarrow>
    lock_step ops s \<lparr>ls_mutex = m, ls_objs = (ls_objs s)[i := so]\<rparr>"
| destroy: "i < length (ls_objs s) \<Longrightarrow> scoped_destroy ops (ls_mutex s) (ls_objs s ! i) = Inr m \<Longrightarrow>
    lock_step ops s \<lparr>ls_mutex = m, ls_objs = take i (ls_objs s) @ drop (Suc i) (ls_objs s)\<rparr>"

inductive lock_reachable :: "'m lock_ops \<Rightarrow> 'm \<Rightarrow> 'm lock_sys \<Rightarrow> bool" for ops m0 where
  start: "lock_reachable ops m0 \<lparr>ls_mutex = m0, ls_objs = []\<rparr>"
| step: "lock_reachable ops m0 s \<Longrightarrow> lock_step ops s s' \<Longrightarrow> lock_reachable ops m0 s'"

section \<open>What the scoped locks guarantee\<close>

definition locked_count :: "scoped list \<Rightarrow> lock_kind \<Rightarrow> nat \<Rightarrow> nat" where
  "locked_count objs k t = length (filter (\<lambda>so. so_locked so \<and> so_kind so = k \<and> so_thread so = t) objs)"

definition at_most_one_locked :: "scoped list \<Rightarrow> bool" where
  "at_most_one_locked objs = sorted_wrt (\<lambda>a b. \<not> (so_locked a \<and> so_locked b)) objs"

lemma locked_count_simps [simp]:
  "locked_count [] k t = 0"
  "locked_count (so # objs) k t = (if so_locked so \<and> so_kind so = k \<and> so_thread so = t then 1 else 0) + locked_count objs k t"
  "locked_count (xs @ ys) k t = locked_count xs k t + locked_count ys k t"
  by (simp_all add: locked_count_def)

lemma locked_count_split:
  "i < length objs \<Longrightarrow> locked_count objs k t = locked_count (take i objs) k t + locked_count [objs ! i] k t + locked_count (drop (Suc i) objs) k t"
  by (metis (no_types, lifting) append_Cons append_Nil id_take_nth_drop locked_count_simps(3) add.assoc)

lemma locked_count_update:
  "i < length objs \<Longrightarrow> locked_count (objs[i := so]) k t = locked_count (take i objs) k t + locked_count [so] k t + locked_count (drop (Suc i) objs) k t"
  by (simp add: upd_conv_take_nth_drop)

text \<open>
  \<open>held m k t\<close> counts the locks of a kind that a thread has. Taking and releasing count, and a lock that is not shared excludes every other.
\<close>

locale lock_laws =
  fixes ops :: "'m lock_ops" and held :: "'m \<Rightarrow> lock_kind \<Rightarrow> nat \<Rightarrow> nat" and ok :: "'m \<Rightarrow> bool" and m0 :: 'm
  assumes start_ok: "ok m0" "held m0 k t = 0"
    and lock_ok: "ok m \<Longrightarrow> lk_lock ops k m t = Some m' \<Longrightarrow> ok m' \<and> (\<forall>j u. held m' j u = held m j u + (if j = k \<and> u = t then 1 else 0))"
    and unlock_ok: "ok m \<Longrightarrow> 0 < held m k t \<Longrightarrow>
      \<exists>m'. lk_unlock ops m t = Inr m' \<and> ok m' \<and> (\<forall>j u. held m' j u = held m j u - (if j = k \<and> u = t then 1 else 0))"
    and exclusive: "ok m \<Longrightarrow> k \<noteq> Rd \<Longrightarrow> 0 < held m k t \<Longrightarrow> held m k t = 1 \<and> (j \<noteq> k \<or> u \<noteq> t \<longrightarrow> held m j u = 0)"
begin

text \<open>The objects that say they are locked are exactly the locks that are held.\<close>

definition agrees :: "'m lock_sys \<Rightarrow> bool" where
  "agrees s \<longleftrightarrow> ok (ls_mutex s) \<and> (\<forall>k t. held (ls_mutex s) k t = locked_count (ls_objs s) k t)"

lemma scoped_unlock_total:
  assumes "agrees s" "i < length (ls_objs s)"
  shows "\<exists>m. scoped_unlock ops (ls_mutex s) (ls_objs s ! i) = Inr (m, (ls_objs s ! i)\<lparr>so_locked := False\<rparr>) \<and> ok m \<and>
    (\<forall>k t. held m k t = locked_count (take i (ls_objs s)) k t + locked_count (drop (Suc i) (ls_objs s)) k t)"
proof (cases "so_locked (ls_objs s ! i)")
  case True
  let ?so = "ls_objs s ! i"
  have h: "held (ls_mutex s) k t = locked_count (take i (ls_objs s)) k t + locked_count [?so] k t + locked_count (drop (Suc i) (ls_objs s)) k t" for k t
    using assms locked_count_split by (simp add: agrees_def)
  then have "0 < held (ls_mutex s) (so_kind ?so) (so_thread ?so)" using True by simp
  with unlock_ok assms(1) obtain m where m: "lk_unlock ops (ls_mutex s) (so_thread ?so) = Inr m" "ok m"
    "held m j u = held (ls_mutex s) j u - (if j = so_kind ?so \<and> u = so_thread ?so then 1 else 0)" for j u
    unfolding agrees_def by blast
  then show ?thesis using True h by (auto simp: scoped_unlock_def)
next
  case False
  then have "(ls_objs s ! i)\<lparr>so_locked := False\<rparr> = ls_objs s ! i" by simp
  then show ?thesis using False assms locked_count_split [OF assms(2)] by (simp add: scoped_unlock_def agrees_def)
qed

lemma agrees_step:
  assumes "lock_step ops s s'" "agrees s"
  shows "agrees s'"
  using assms
proof (induction rule: lock_step.induct)
  case (construct k s t m so)
  then have "lk_lock ops k (ls_mutex s) t = Some m" "so = \<lparr>so_thread = t, so_kind = k, so_locked = True\<rparr>"
    by (auto simp: scoped_new_def split: option.splits)
  with lock_ok [of "ls_mutex s" k t m] construct show ?case by (auto simp: agrees_def)
next
  case (relock i s m so)
  show ?case
  proof (cases "so_locked (ls_objs s ! i)")
    case True
    then have "m = ls_mutex s" "so = ls_objs s ! i" using relock(2) by (simp_all add: scoped_lock_def)
    then show ?thesis using relock(3) by (simp add: agrees_def)
  next
    case False
    let ?so = "ls_objs s ! i"
    have l: "lk_lock ops (so_kind ?so) (ls_mutex s) (so_thread ?so) = Some m" "so = ?so\<lparr>so_locked := True\<rparr>"
      using relock(2) False by (auto simp: scoped_lock_def split: option.splits)
    have "ok m" "held m k t = locked_count (ls_objs s) k t + (if k = so_kind ?so \<and> t = so_thread ?so then 1 else 0)" for k t
      using lock_ok [OF _ l(1)] relock(3) by (auto simp: agrees_def)
    then show ?thesis
      using False l(2) relock(1) locked_count_split [OF relock(1)] locked_count_update [OF relock(1), of so] by (auto simp: agrees_def)
  qed
next
  case (unlock i s m so)
  from scoped_unlock_total [OF unlock(3, 1)] unlock(2) have "ok m" "so = (ls_objs s ! i)\<lparr>so_locked := False\<rparr>"
    "held m k t = locked_count (take i (ls_objs s)) k t + locked_count (drop (Suc i) (ls_objs s)) k t" for k t by auto
  then show ?case using locked_count_update [OF unlock(1), of so] by (simp add: agrees_def)
next
  case (destroy i s m)
  from scoped_unlock_total [OF destroy(3, 1)] destroy(2) have "ok m"
    "held m k t = locked_count (take i (ls_objs s)) k t + locked_count (drop (Suc i) (ls_objs s)) k t" for k t
    by (auto simp: scoped_destroy_def)
  then show ?case by (simp add: agrees_def)
qed

lemma reachable_agrees: "lock_reachable ops m0 s \<Longrightarrow> agrees s"
proof (induction rule: lock_reachable.induct)
  case start
  show ?case using start_ok by (simp add: agrees_def)
qed (rule agrees_step)

text \<open>Releasing and destroying never fails, and two objects locked at the same time are both for reading.\<close>

lemma unlock_never_fails:
  assumes "lock_reachable ops m0 s" "i < length (ls_objs s)"
  shows "\<exists>m so. scoped_unlock ops (ls_mutex s) (ls_objs s ! i) = Inr (m, so) \<and> \<not> so_locked so"
    and "\<exists>m. scoped_destroy ops (ls_mutex s) (ls_objs s ! i) = Inr m"
  using scoped_unlock_total [OF reachable_agrees [OF assms(1)] assms(2)] by (auto simp: scoped_destroy_def)

lemma exclusion:
  assumes "lock_reachable ops m0 s" "i < j" "j < length (ls_objs s)" "so_locked (ls_objs s ! i)" "so_locked (ls_objs s ! j)"
  shows "so_kind (ls_objs s ! i) = Rd \<and> so_kind (ls_objs s ! j) = Rd"
proof (rule ccontr)
  let ?a = "ls_objs s ! i" and ?b = "ls_objs s ! j"
  note ag = reachable_agrees [OF assms(1), unfolded agrees_def]
  have ge: "locked_count [?a] k t + locked_count [?b] k t \<le> held (ls_mutex s) k t" for k t
  proof -
    have "?b = drop (Suc i) (ls_objs s) ! (j - Suc i)" "j - Suc i < length (drop (Suc i) (ls_objs s))" using assms(2, 3) by simp_all
    then have "locked_count [?b] k t \<le> locked_count (drop (Suc i) (ls_objs s)) k t"
      using locked_count_split [of "j - Suc i" "drop (Suc i) (ls_objs s)" k t] by simp
    then show ?thesis using ag locked_count_split [of i "ls_objs s" k t] assms(2, 3) by simp
  qed
  assume shared: "\<not> (so_kind ?a = Rd \<and> so_kind ?b = Rd)"
  show False
  proof (cases "so_kind ?a = so_kind ?b \<and> so_thread ?a = so_thread ?b")
    case True
    then have "2 \<le> held (ls_mutex s) (so_kind ?a) (so_thread ?a)" "so_kind ?a \<noteq> Rd"
      using ge [of "so_kind ?a" "so_thread ?a"] assms(4, 5) shared by auto
    with exclusive [of "ls_mutex s" "so_kind ?a" "so_thread ?a"] ag show False by auto
  next
    case False
    have "0 < held (ls_mutex s) (so_kind ?a) (so_thread ?a)" "0 < held (ls_mutex s) (so_kind ?b) (so_thread ?b)"
      using ge [of "so_kind ?a" "so_thread ?a"] ge [of "so_kind ?b" "so_thread ?b"] assms(4, 5) by auto
    with exclusive [of "ls_mutex s" "so_kind ?a" "so_thread ?a" "so_kind ?b" "so_thread ?b"]
      exclusive [of "ls_mutex s" "so_kind ?b" "so_thread ?b" "so_kind ?a" "so_thread ?a"] ag False shared show False by fastforce
  qed
qed

lemma single:
  assumes "\<And>m t. held m Rd t = 0" "lock_reachable ops m0 s"
  shows "at_most_one_locked (ls_objs s)"
proof -
  have "so_kind (ls_objs s ! i) \<noteq> Rd" if "i < length (ls_objs s)" "so_locked (ls_objs s ! i)" for i
  proof
    assume "so_kind (ls_objs s ! i) = Rd"
    then have "0 < locked_count (ls_objs s) Rd (so_thread (ls_objs s ! i))" using locked_count_split [OF that(1)] that(2) by simp
    moreover have "locked_count (ls_objs s) Rd t = 0" for t using reachable_agrees [OF assms(2)] assms(1) unfolding agrees_def by metis
    ultimately show False by simp
  qed
  then show ?thesis
    unfolding at_most_one_locked_def sorted_wrt_iff_nth_less using exclusion [OF assms(2)] by (meson order.strict_trans)
qed

lemma all_released:
  assumes "lock_reachable ops m0 s"
  shows "list_all (\<lambda>so. \<exists>m. scoped_destroy ops (ls_mutex s) so = Inr m) (ls_objs s)"
  using unlock_never_fails(2) [OF assms] by (auto simp: list_all_length)

end

section \<open>The lock classes keep the laws\<close>

definition mutex_held :: "nat option \<Rightarrow> lock_kind \<Rightarrow> nat \<Rightarrow> nat" where
  "mutex_held m k t = (if k = Plain \<and> m = Some t then 1 else 0)"

definition rw_held :: "rwlock \<Rightarrow> lock_kind \<Rightarrow> nat \<Rightarrow> nat" where
  "rw_held m k t =
     (case k of Plain \<Rightarrow> 0 | Rd \<Rightarrow> count_list (rw_readers m) t | Wr \<Rightarrow> if rw_writer m = Some t then 1 else 0)"

definition cas_held :: "cas_lock \<Rightarrow> lock_kind \<Rightarrow> nat \<Rightarrow> nat" where
  "cas_held m k t = mutex_held (cas_owner m) k t"

interpretation mutex: lock_laws mutex_ops mutex_held "\<lambda>_. True" Mutex
  by unfold_locales (auto simp: mutex_ops_def Mutex_def Mutex_lock_def Mutex_unlock_def mutex_held_def split: if_splits)

interpretation spinlock: lock_laws spinlock_ops mutex_held "\<lambda>_. True" Spinlock
  by unfold_locales (auto simp: spinlock_ops_def Spinlock_def Spinlock_lock_def Spinlock_unlock_def mutex_held_def split: if_splits)

interpretation caslock: lock_laws caslock_ops cas_held "\<lambda>m. cas_flag m \<longleftrightarrow> cas_owner m \<noteq> None" CASLock
  by unfold_locales
    (auto simp: caslock_ops_def CASLock_def CASLock_lock_def CASLock_unlock_def cas_held_def mutex_held_def test_and_set_def split: if_splits)

lemma count_list_remove1: "count_list (remove1 x xs) y = count_list xs y - (if x = y then 1 else 0)"
  by (induction xs) (auto simp: count_list_0_iff)

lemma count_list_pos: "0 < count_list xs x \<longleftrightarrow> x \<in> set xs"
  using count_list_0_iff [of xs x] by auto

interpretation rwmutex: lock_laws rwmutex_ops rw_held "\<lambda>m. rw_writer m = None \<or> rw_readers m = []" RWMutex
proof
  fix m m' :: rwlock and k j :: lock_kind and t u :: nat
  assume ok: "rw_writer m = None \<or> rw_readers m = []"
  show "(rw_writer m' = None \<or> rw_readers m' = []) \<and> (\<forall>j u. rw_held m' j u = rw_held m j u + (if j = k \<and> u = t then 1 else 0))"
    if "lk_lock rwmutex_ops k m t = Some m'"
    using that ok by (auto simp: rwmutex_ops_def rdlock_def wrlock_def rw_held_def split: lock_kind.splits if_splits)
  show "\<exists>m'. lk_unlock rwmutex_ops m t = Inr m' \<and> (rw_writer m' = None \<or> rw_readers m' = []) \<and>
      (\<forall>j u. rw_held m' j u = rw_held m j u - (if j = k \<and> u = t then 1 else 0))" if "0 < rw_held m k t"
    using that ok
    by (auto simp: rwmutex_ops_def RWMutex_unlock_def rw_held_def count_list_pos count_list_remove1 split: lock_kind.splits if_splits)
  show "rw_held m k t = 1 \<and> (j \<noteq> k \<or> u \<noteq> t \<longrightarrow> rw_held m j u = 0)" if "k \<noteq> Rd" "0 < rw_held m k t"
    using that ok by (auto simp: rw_held_def split: lock_kind.splits if_splits)
qed (auto simp: RWMutex_def rw_held_def split: lock_kind.splits)

section \<open>Semaphores\<close>

definition SEM_VALUE_MAX :: nat where "SEM_VALUE_MAX = 2147483647"

definition Semaphore :: "u32 \<Rightarrow> nat result" where
  "Semaphore count = (if unat count \<le> SEM_VALUE_MAX then Inr (unat count) else Inl Logic_Error)"

text \<open>\<open>wait\<close> gives no value while the thread has to wait.\<close>

definition sem_wait :: "nat \<Rightarrow> nat option" where
  "sem_wait c = (if c = 0 then None else Some (c - 1))"

definition sem_notify :: "nat \<Rightarrow> nat result" where
  "sem_notify c = (if c = SEM_VALUE_MAX then Inl Logic_Error else Inr (c + 1))"

text \<open>The semaphore with the numbers of waits and notifies that have returned.\<close>

inductive sem_reachable :: "nat \<Rightarrow> nat \<times> nat \<times> nat \<Rightarrow> bool" for c0 where
  sem_start: "sem_reachable c0 (c0, 0, 0)"
| sem_wait: "sem_reachable c0 (c, w, n) \<Longrightarrow> sem_wait c = Some c' \<Longrightarrow> sem_reachable c0 (c', Suc w, n)"
| sem_notify: "sem_reachable c0 (c, w, n) \<Longrightarrow> sem_notify c = Inr c' \<Longrightarrow> sem_reachable c0 (c', w, Suc n)"

lemma sem_reachable_count:
  "sem_reachable c0 s \<Longrightarrow> c0 \<le> SEM_VALUE_MAX \<Longrightarrow> case s of (c, w, n) \<Rightarrow> w + c = c0 + n \<and> c \<le> SEM_VALUE_MAX"
  by (induction rule: sem_reachable.induct) (auto simp: sem_wait_def sem_notify_def split: if_splits)

section \<open>Properties\<close>

text \<open>
  (C25) Scoped locks on a \<open>Mutex\<close>, a \<open>Spinlock\<close> or a \<open>CASLock\<close>, however the threads construct, lock, unlock and destroy them: at most one
  is locked at any time, none is ever released by a thread that does not hold the lock, and releasing or destroying one always succeeds.
\<close>

theorem scoped_lock_exclusion:
  assumes "lock_reachable mutex_ops Mutex s1" "lock_reachable spinlock_ops Spinlock s2" "lock_reachable caslock_ops CASLock s3"
  shows "at_most_one_locked (ls_objs s1) \<and> at_most_one_locked (ls_objs s2) \<and> at_most_one_locked (ls_objs s3) \<and>
    list_all (\<lambda>so. \<exists>m. scoped_destroy mutex_ops (ls_mutex s1) so = Inr m) (ls_objs s1) \<and>
    list_all (\<lambda>so. \<exists>m. scoped_destroy spinlock_ops (ls_mutex s2) so = Inr m) (ls_objs s2) \<and>
    list_all (\<lambda>so. \<exists>m. scoped_destroy caslock_ops (ls_mutex s3) so = Inr m) (ls_objs s3)"
  using mutex.single [OF _ assms(1)] spinlock.single [OF _ assms(2)] caslock.single [OF _ assms(3)]
    mutex.all_released [OF assms(1)] spinlock.all_released [OF assms(2)] caslock.all_released [OF assms(3)]
  by (simp add: cas_held_def mutex_held_def)

lemma mutex_one_object:
  "lock_reachable mutex_ops Mutex \<lparr>ls_mutex = Some 1, ls_objs = [\<lparr>so_thread = 1, so_kind = Plain, so_locked = True\<rparr>]\<rparr>"
proof -
  let ?s = "\<lparr>ls_mutex = Mutex, ls_objs = []\<rparr>"
  have "scoped_new mutex_ops Plain (ls_mutex ?s) 1 = Some (Some 1, \<lparr>so_thread = 1, so_kind = Plain, so_locked = True\<rparr>)"
    by (simp add: scoped_new_def mutex_ops_def Mutex_lock_def Mutex_def)
  from lock_reachable.step [OF lock_reachable.start lock_step.construct [OF this]] show ?thesis by simp
qed

theorem scoped_lock_exclusion_witness:
  "at_most_one_locked [\<lparr>so_thread = 1, so_kind = Plain, so_locked = True\<rparr>] \<and>
   (\<exists>m. scoped_destroy mutex_ops (Some 1) \<lparr>so_thread = 1, so_kind = Plain, so_locked = True\<rparr> = Inr m)"
  using scoped_lock_exclusion [OF mutex_one_object lock_reachable.start lock_reachable.start] by simp


definition two_readers :: "rwlock lock_sys" where
  "two_readers = \<lparr>ls_mutex = \<lparr>rw_writer = None, rw_readers = [2, 1]\<rparr>,
     ls_objs = [\<lparr>so_thread = 1, so_kind = Rd, so_locked = True\<rparr>, \<lparr>so_thread = 2, so_kind = Rd, so_locked = True\<rparr>]\<rparr>"

lemma two_readers_reachable: "lock_reachable rwmutex_ops RWMutex two_readers"
proof -
  let ?s = "\<lparr>ls_mutex = RWMutex, ls_objs = []\<rparr>" and ?o = "\<lambda>t. \<lparr>so_thread = t, so_kind = Rd, so_locked = True\<rparr>"
  have 1: "scoped_new rwmutex_ops Rd (ls_mutex ?s) 1 = Some (\<lparr>rw_writer = None, rw_readers = [1]\<rparr>, ?o 1)"
    by (simp add: scoped_new_def rwmutex_ops_def rdlock_def RWMutex_def)
  note r1 = lock_reachable.step [OF lock_reachable.start lock_step.construct [OF 1]]
  let ?s1 = "\<lparr>ls_mutex = \<lparr>rw_writer = None, rw_readers = [1]\<rparr>, ls_objs = [?o 1]\<rparr>"
  have "scoped_new rwmutex_ops Rd (ls_mutex ?s1) 2 = Some (\<lparr>rw_writer = None, rw_readers = [2, 1]\<rparr>, ?o 2)"
    by (simp add: scoped_new_def rwmutex_ops_def rdlock_def)
  from lock_reachable.step [OF _ lock_step.construct [OF this]] r1 show ?thesis by (simp add: two_readers_def)
qed


text \<open>
  A semaphore never lets more waits return than its initial count and the notifies together: its count is what is left over, never
  above the maximum; and after every notify a wait can return.
\<close>

theorem semaphore_count:
  assumes "Semaphore count = Inr c0" "sem_reachable c0 (c, w, n)"
  shows "w + c = unat count + n \<and> c \<le> SEM_VALUE_MAX \<and> (\<forall>c'. sem_notify c = Inr c' \<longrightarrow> sem_wait c' = Some c)"
proof -
  have c0: "c0 = unat count" "c0 \<le> SEM_VALUE_MAX" using assms(1) by (auto simp: Semaphore_def split: if_splits)
  from sem_reachable_count [OF assms(2) c0(2)] have "w + c = c0 + n \<and> c \<le> SEM_VALUE_MAX" by simp
  then show ?thesis using c0 by (auto simp: sem_notify_def sem_wait_def split: if_splits)
qed

theorem semaphore_count_witness: "Semaphore 0 = Inr 0 \<and> sem_notify 0 = Inr 1 \<and> sem_wait 1 = Some 0"
proof -
  have s: "Semaphore 0 = Inr 0" by (simp add: Semaphore_def)
  have n: "sem_notify 0 = Inr 1" by (simp add: sem_notify_def SEM_VALUE_MAX_def)
  from semaphore_count [OF s sem_reachable.sem_start] s n show ?thesis by blast
qed

text \<open>
  The spinning of a \<open>CASLock\<close> ends exactly at the first attempt that finds the flag clear: it has the lock then, and keeps spinning
  only as long as another thread has it at every attempt.
\<close>

theorem cas_spin_ends:
  "cas_spin flags = Some n \<longleftrightarrow> 0 < n \<and> n \<le> length flags \<and> \<not> flags ! (n - 1) \<and> list_all (\<lambda>b. b) (take (n - 1) flags)"
proof (induction flags arbitrary: n)
  case (Cons f flags)
  show ?case
  proof (cases f)
    case True
    have "cas_spin (f # flags) = Some n \<longleftrightarrow> (\<exists>k. n = Suc k \<and> cas_spin flags = Some k)" using True by (auto simp: test_and_set_def)
    also have "\<dots> \<longleftrightarrow> (\<exists>k. n = Suc (Suc k) \<and> Suc k \<le> length flags \<and> \<not> flags ! k \<and> list_all (\<lambda>b. b) (take k flags))"
      unfolding Cons by (metis Suc_pred diff_Suc_1 zero_less_Suc)
    finally show ?thesis using True by (cases n; cases "n - 1") auto
  qed (auto simp: test_and_set_def take_Cons' nth_Cons' split: if_splits)
qed auto

end
