(* ===== verification/Process.thy ===== *)
theory Process
  imports Locks Std_String
begin

text \<open>
  Threads (\<open>env/thread.h\<close>, \<open>env/thread.cc\<close>) and the daemon mode of the program (\<open>util/daemon.h\<close>, \<open>util/daemon.cc\<close>). The start of a
  thread is a protocol between the constructor and the new thread over a semaphore; it is a step relation over the statements of both.
\<close>

section \<open>Threads\<close>

text \<open>\<open>th_thread\<close> is the handle, zero for none.\<close>

record 'cb thread =
  th_id :: int
  th_thread :: nat
  th_cb :: "'cb option"
  th_name :: string

text \<open>The variables of a thread: \<open>t_thread\<close>, whether it has a \<open>Thread\<close> object, and \<open>t_thread_name\<close>.\<close>

record thread_locals =
  t_thread :: bool
  t_thread_name :: string

definition thread_locals0 :: thread_locals where
  "thread_locals0 = \<lparr>t_thread = False, t_thread_name = ''UNKNOW''\<rparr>"

definition SetName :: "thread_locals \<Rightarrow> 'cb thread \<Rightarrow> string \<Rightarrow> thread_locals \<times> 'cb thread" where
  "SetName loc th name =
     (if name = [] then (loc, th)
      else (loc\<lparr>t_thread_name := name\<rparr>, if t_thread loc then th\<lparr>th_name := name\<rparr> else th))"

text \<open>The constructor up to the call of \<open>pthread_create\<close>, which gives \<open>rt\<close> and the handle; then it waits.\<close>

definition Thread_create :: "'cb \<Rightarrow> string \<Rightarrow> int \<Rightarrow> nat \<Rightarrow> 'cb thread result" where
  "Thread_create cb name rt handle =
     (let th = \<lparr>th_id = - 1, th_thread = 0, th_cb = Some cb, th_name = (if name = [] then ''UNKNOW'' else name)\<rparr> in
      if rt \<noteq> 0 then Inl Logic_Error else Inr (th\<lparr>th_thread := handle\<rparr>))"

definition Thread_Join :: "'cb thread \<Rightarrow> int \<Rightarrow> 'cb thread result" where
  "Thread_Join th rt =
     (if th_thread th \<noteq> 0 then if rt \<noteq> 0 then Inl Logic_Error else Inr (th\<lparr>th_thread := 0\<rparr>) else Inr th)"

text \<open>The destructor detaches a thread that was not joined; whether it does.\<close>

definition Thread_destroy :: "'cb thread \<Rightarrow> bool" where
  "Thread_destroy th \<longleftrightarrow> th_thread th \<noteq> 0"

text \<open>
  The object, the semaphore, whether the constructor has returned, and of the new thread: the next statement of \<open>Run\<close>, its
  variables, the name the kernel has for it, its local \<open>cb\<close> and what it has called.
\<close>

record 'cb thread_start =
  ts_thread :: "'cb thread"
  ts_sem :: nat
  ts_returned :: bool
  ts_pc :: nat
  ts_locals :: thread_locals
  ts_kernel_name :: string
  ts_cb :: "'cb option"
  ts_called :: "'cb list"

definition thread_begin :: "'cb thread \<Rightarrow> 'cb thread_start" where
  "thread_begin th = \<lparr>ts_thread = th, ts_sem = 0, ts_returned = False, ts_pc = 0, ts_locals = thread_locals0, ts_kernel_name = '''',
     ts_cb = None, ts_called = []\<rparr>"

inductive thread_step :: "int \<Rightarrow> 'cb thread_start \<Rightarrow> 'cb thread_start \<Rightarrow> bool" for tid where
  set_this: "ts_pc s = 0 \<Longrightarrow> thread_step tid s (s\<lparr>ts_pc := 1, ts_locals := (ts_locals s)\<lparr>t_thread := True\<rparr>\<rparr>)"
| set_local_name: "ts_pc s = 1 \<Longrightarrow>
    thread_step tid s (s\<lparr>ts_pc := 2, ts_locals := (ts_locals s)\<lparr>t_thread_name := th_name (ts_thread s)\<rparr>\<rparr>)"
| set_id: "ts_pc s = 2 \<Longrightarrow> thread_step tid s (s\<lparr>ts_pc := 3, ts_thread := (ts_thread s)\<lparr>th_id := tid\<rparr>\<rparr>)"
| set_kernel_name: "ts_pc s = 3 \<Longrightarrow> thread_step tid s (s\<lparr>ts_pc := 4, ts_kernel_name := take 15 (th_name (ts_thread s))\<rparr>)"
| swap_cb: "ts_pc s = 4 \<Longrightarrow>
    thread_step tid s (s\<lparr>ts_pc := 5, ts_cb := th_cb (ts_thread s), ts_thread := (ts_thread s)\<lparr>th_cb := ts_cb s\<rparr>\<rparr>)"
| do_notify: "ts_pc s = 5 \<Longrightarrow> sem_notify (ts_sem s) = Inr c \<Longrightarrow> thread_step tid s (s\<lparr>ts_pc := 6, ts_sem := c\<rparr>)"
| call_cb: "ts_pc s = 6 \<Longrightarrow> ts_cb s = Some cb \<Longrightarrow> thread_step tid s (s\<lparr>ts_pc := 7, ts_called := ts_called s @ [cb]\<rparr>)"
| constructor_returns: "\<not> ts_returned s \<Longrightarrow> sem_wait (ts_sem s) = Some c \<Longrightarrow> thread_step tid s (s\<lparr>ts_returned := True, ts_sem := c\<rparr>)"

inductive thread_reachable :: "int \<Rightarrow> 'cb thread \<Rightarrow> 'cb thread_start \<Rightarrow> bool" for tid th where
  start: "thread_reachable tid th (thread_begin th)"
| step: "thread_reachable tid th s \<Longrightarrow> thread_step tid s s' \<Longrightarrow> thread_reachable tid th s'"

text \<open>What is so before each statement.\<close>

definition thread_inv :: "int \<Rightarrow> 'cb \<Rightarrow> string \<Rightarrow> nat \<Rightarrow> 'cb thread_start \<Rightarrow> bool" where
  "thread_inv tid cb name handle s \<longleftrightarrow>
     ts_pc s \<le> 7 \<and> th_name (ts_thread s) = name \<and> th_thread (ts_thread s) = handle \<and>
     (1 \<le> ts_pc s \<longrightarrow> t_thread (ts_locals s)) \<and> (2 \<le> ts_pc s \<longrightarrow> t_thread_name (ts_locals s) = name) \<and>
     (3 \<le> ts_pc s \<longrightarrow> th_id (ts_thread s) = tid) \<and> (4 \<le> ts_pc s \<longrightarrow> ts_kernel_name s = take 15 name) \<and>
     (if 5 \<le> ts_pc s then ts_cb s = Some cb \<and> th_cb (ts_thread s) = None else ts_cb s = None \<and> th_cb (ts_thread s) = Some cb) \<and>
     (if 6 \<le> ts_pc s then ts_sem s = (if ts_returned s then 0 else 1) else ts_sem s = 0 \<and> \<not> ts_returned s) \<and>
     ts_called s = (if ts_pc s = 7 then [cb] else [])"

lemma thread_step_inv: "thread_step tid s s' \<Longrightarrow> thread_inv tid cb name handle s \<Longrightarrow> thread_inv tid cb name handle s'"
  by (induction rule: thread_step.induct)
    (auto simp: thread_inv_def sem_notify_def sem_wait_def split: if_splits)

lemma thread_reachable_inv:
  assumes "thread_reachable tid th s" "Thread_create cb name rt handle = Inr th"
  shows "thread_inv tid cb (if name = [] then ''UNKNOW'' else name) handle s"
  using assms(1)
proof (induction rule: thread_reachable.induct)
  case start
  show ?case using assms(2) by (auto simp: thread_inv_def thread_begin_def Thread_create_def split: if_splits)
qed (rule thread_step_inv)

definition thread_left :: "'cb thread_start \<Rightarrow> nat" where
  "thread_left s = (7 - ts_pc s) + (if ts_returned s then 0 else 1)"

lemma thread_progress:
  assumes "Thread_create cb name rt handle = Inr th" "thread_reachable tid th s"
  shows "(\<forall>s'. thread_step tid s s' \<longrightarrow> thread_left s' < thread_left s) \<and>
    ((\<exists>s'. thread_step tid s s') \<or> ts_returned s \<and> ts_called s = [cb])"
proof -
  note inv = thread_reachable_inv [OF assms(2, 1)]
  have "thread_left s' < thread_left s" if "thread_step tid s s'" for s'
    using that inv by (induction rule: thread_step.induct) (auto simp: thread_left_def thread_inv_def)
  moreover have "(\<exists>s'. thread_step tid s s') \<or> ts_returned s \<and> ts_called s = [cb]"
  proof (cases "ts_pc s = 7 \<and> ts_returned s")
    case True
    then show ?thesis using inv by (simp add: thread_inv_def)
  next
    case False
    have at: "ts_pc s = 5 \<Longrightarrow> sem_notify (ts_sem s) = Inr 1" "ts_pc s = 6 \<Longrightarrow> ts_cb s = Some cb"
      "ts_pc s = 7 \<Longrightarrow> \<not> ts_returned s \<and> sem_wait (ts_sem s) = Some 0"
      using inv False by (auto simp: thread_inv_def sem_notify_def sem_wait_def SEM_VALUE_MAX_def)
    have "ts_pc s \<le> 7" using inv by (simp add: thread_inv_def)
    then consider "ts_pc s = 0" | "ts_pc s = 1" | "ts_pc s = 2" | "ts_pc s = 3" | "ts_pc s = 4" | "ts_pc s = 5" | "ts_pc s = 6" | "ts_pc s = 7"
      by linarith
    then show ?thesis by cases (use at in \<open>blast intro: thread_step.intros\<close>)+
  qed
  ultimately show ?thesis by blast
qed

lemma thread_finishes:
  assumes "Thread_create cb name rt handle = Inr th" "thread_reachable tid th s"
  shows "\<exists>s'. thread_reachable tid th s' \<and> ts_returned s' \<and> ts_called s' = [cb]"
  using assms(2)
proof (induction "thread_left s" arbitrary: s rule: less_induct)
  case less
  from thread_progress [OF assms(1) less.prems] consider "ts_returned s \<and> ts_called s = [cb]"
    | s' where "thread_step tid s s'" "thread_left s' < thread_left s" by blast
  then show ?case
  proof cases
    case 2
    then show ?thesis using less.hyps thread_reachable.step [OF less.prems] by blast
  qed (use less.prems in blast)
qed

section \<open>The daemon\<close>

record process_info =
  pi_parent_id :: int
  pi_main_id :: int
  pi_parent_start_time :: u64
  pi_main_start_time :: u64
  pi_restart_count :: u32

definition ProcessInfo :: process_info where
  "ProcessInfo = \<lparr>pi_parent_id = 0, pi_main_id = 0, pi_parent_start_time = 0, pi_main_start_time = 0, pi_restart_count = 0\<rparr>"

definition ProcessInfo_ToString :: "(u64 \<Rightarrow> string) \<Rightarrow> process_info \<Rightarrow> string" where
  "ProcessInfo_ToString Time2Str p =
     ''[ProcessInfo parent_id_='' @ show_int (pi_parent_id p) @ '' main_id_='' @ show_int (pi_main_id p) @
     '' parent_start_time_='' @ Time2Str (pi_parent_start_time p) @ '' main_start_time='' @ Time2Str (pi_main_start_time p) @
     '' restart_count_='' @ show_nat (unat (pi_restart_count p)) @ '']''"

definition RealStart :: "(string list \<Rightarrow> int) \<Rightarrow> string list \<Rightarrow> int" where
  "RealStart main_cb argv = main_cb argv"

text \<open>
  What one \<open>fork\<close> gives the process in which it returns: in the child its id and the time, in the parent the status the child later ended
  with, or a failure. \<open>real_daemon_loop\<close> gives no value while the parent is still waiting for a child.
\<close>

datatype fork_result = Fork_Child int u64 | Fork_Fail int | Fork_Parent int int

fun real_daemon_loop :: "(string list \<Rightarrow> int) \<Rightarrow> string list \<Rightarrow> process_info \<Rightarrow> fork_result list \<Rightarrow> (int \<times> process_info) option" where
  "real_daemon_loop main_cb argv p [] = None"
| "real_daemon_loop main_cb argv p (Fork_Child pid now # fs) =
     Some (RealStart main_cb argv, p\<lparr>pi_main_id := pid, pi_main_start_time := now\<rparr>)"
| "real_daemon_loop main_cb argv p (Fork_Fail e # fs) = Some (- 1, p)"
| "real_daemon_loop main_cb argv p (Fork_Parent pid status # fs) =
     (if status \<noteq> 0 then real_daemon_loop main_cb argv (p\<lparr>pi_restart_count := pi_restart_count p + 1\<rparr>) fs else Some (0, p))"

definition RealDaemon :: "(string list \<Rightarrow> int) \<Rightarrow> string list \<Rightarrow> process_info \<Rightarrow> int \<Rightarrow> u64 \<Rightarrow> fork_result list \<Rightarrow> (int \<times> process_info) option" where
  "RealDaemon main_cb argv p pid now fs =
     real_daemon_loop main_cb argv (p\<lparr>pi_parent_id := pid, pi_parent_start_time := now\<rparr>) fs"

definition StartDaemon :: "(string list \<Rightarrow> int) \<Rightarrow> string list \<Rightarrow> bool \<Rightarrow> process_info \<Rightarrow> int \<Rightarrow> u64 \<Rightarrow> fork_result list \<Rightarrow>
    (int \<times> process_info) option" where
  "StartDaemon main_cb argv is_daemon p pid now fs =
     (if \<not> is_daemon then Some (RealStart main_cb argv, p) else RealDaemon main_cb argv p pid now fs)"

definition crashed :: "fork_result \<Rightarrow> bool" where
  "crashed f = (case f of Fork_Parent _ status \<Rightarrow> status \<noteq> 0 | _ \<Rightarrow> False)"

lemma daemon_crashes:
  "list_all crashed cs \<Longrightarrow> real_daemon_loop main_cb argv p (cs @ fs) =
     real_daemon_loop main_cb argv (p\<lparr>pi_restart_count := pi_restart_count p + of_nat (length cs)\<rparr>) fs"
proof (induction cs arbitrary: p)
  case (Cons f cs)
  then show ?case by (cases f) (auto simp: crashed_def add.assoc)
qed simp

section \<open>Properties\<close>

text \<open>
  When the constructor of a thread has returned, the thread has its id and its name, is known to itself, and has taken the callback
  over: nothing the constructor's caller does afterwards with the object races with the start.
\<close>

theorem thread_constructed:
  assumes "Thread_create cb name rt handle = Inr th" "thread_reachable tid th s" "ts_returned s"
  shows "th_id (ts_thread s) = tid \<and> th_name (ts_thread s) = (if name = [] then ''UNKNOW'' else name) \<and> th_cb (ts_thread s) = None \<and>
    ts_cb s = Some cb \<and> t_thread (ts_locals s) \<and> t_thread_name (ts_locals s) = th_name (ts_thread s)"
  using thread_reachable_inv [OF assms(2, 1)] assms(3) by (auto simp: thread_inv_def split: if_splits)

theorem thread_constructed_witness:
  "\<exists>th s. Thread_create ''job'' ''worker'' 0 1 = Inr th \<and> thread_reachable 42 th s \<and> th_id (ts_thread s) = 42 \<and> ts_cb s = Some ''job''"
proof -
  obtain th where c: "Thread_create ''job'' ''worker'' 0 1 = Inr th" by (simp add: Thread_create_def Let_def)
  from thread_finishes [OF c thread_reachable.start] obtain s where s: "thread_reachable 42 th s" "ts_returned s" by blast
  from thread_constructed [OF c s] c s show ?thesis by blast
qed



text \<open>
  The daemon restarts the program after every crash and only then: with any number of crashes before it, a clean end of the child ends the
  parent with result 0, a failed fork with -1, and each child runs the program with the number of restarts so far recorded, modulo
  \<open>2 ^ 32\<close>; while every child crashes the parent does not return.
\<close>

theorem daemon_supervises:
  assumes "list_all crashed cs"
  shows "(let info = p\<lparr>pi_parent_id := pid, pi_parent_start_time := now, pi_restart_count := pi_restart_count p + of_nat (length cs)\<rparr>;
        run = StartDaemon main_cb argv True p pid now in
     run (cs @ Fork_Parent cpid 0 # fs) = Some (0, info) \<and> run (cs @ Fork_Fail e # fs) = Some (- 1, info) \<and>
     run (cs @ Fork_Child cpid cnow # fs) = Some (main_cb argv, info\<lparr>pi_main_id := cpid, pi_main_start_time := cnow\<rparr>) \<and>
     run cs = None)"
  using daemon_crashes [OF assms, of main_cb argv] daemon_crashes [OF assms, of main_cb argv _ "[]"]
  by (simp add: StartDaemon_def RealDaemon_def RealStart_def Let_def)

theorem daemon_supervises_witness:
  "StartDaemon (\<lambda>_. 7) [] True ProcessInfo 10 0 ([Fork_Parent 11 9, Fork_Parent 12 9] @ [Fork_Parent 13 0]) =
     Some (0, ProcessInfo\<lparr>pi_parent_id := 10, pi_parent_start_time := 0, pi_restart_count := pi_restart_count ProcessInfo + of_nat 2\<rparr>)"
  using daemon_supervises [of "[Fork_Parent 11 9, Fork_Parent 12 9]" ProcessInfo 0 10 "\<lambda>_. 7" "[]" 13 "[]"]
  by (simp add: crashed_def Let_def)

end
