(* ===== verification/Event_Table.thy ===== *)
theory Event_Table
  imports IO_Manager
begin

text \<open>
  What the I/O scheduler promises its clients, as a table of waiting parties: a map from a descriptor and an event to the wake-up
  that is due when the event occurs. The locale \<open>event_table\<close> has the laws of the operations; the operations of \<open>net/iomanager.cc\<close>
  refine the table, and the locale is interpreted on them.
\<close>

section \<open>The contract\<close>

type_synonym event_key = "int \<times> u32"

text \<open>An operation that wakes: the keys it takes out of the table, and their wake-ups in the same order.\<close>

definition wakes :: "('k \<rightharpoonup> 'w) \<Rightarrow> ('k \<rightharpoonup> 'w) \<Rightarrow> 'k list \<Rightarrow> 'w list \<Rightarrow> bool" where
  "wakes t t' ks ws \<longleftrightarrow> distinct ks \<and> map t ks = map Some ws \<and> t' = t |` (- set ks)"

lemma wakes_none [simp]: "wakes t t [] []"
  by (simp add: wakes_def restrict_map_def)

lemma wakes_one: "t k = Some w \<Longrightarrow> wakes t (t(k := None)) [k] [w]"
  by (auto simp: wakes_def restrict_map_def)

lemma wakes_trans: "wakes t t' ks ws \<Longrightarrow> wakes t' t'' ks' ws' \<Longrightarrow> wakes t t'' (ks @ ks') (ws @ ws')"
proof -
  assume 1: "wakes t t' ks ws" and 2: "wakes t' t'' ks' ws'"
  have d: "k \<in> set ks' \<Longrightarrow> k \<notin> set ks \<and> t' k = t k" for k
  proof -
    assume "k \<in> set ks'"
    with 2 have "t' k \<noteq> None" unfolding wakes_def by (metis in_set_conv_nth length_map nth_map option.distinct(1))
    with 1 show ?thesis by (auto simp: wakes_def restrict_map_def split: if_splits)
  qed
  then have "map t ks' = map t' ks'" by simp
  with 1 2 d show ?thesis by (auto simp: wakes_def)
qed

lemma wakesD:
  assumes "wakes t t' ks ws"
  shows "t' k = (if k \<in> set ks then None else t k)" "k \<in> set ks \<Longrightarrow> \<exists>w. t k = Some w \<and> w \<in> set ws"
proof -
  show "t' k = (if k \<in> set ks then None else t k)" using assms by (simp add: wakes_def)
  show "\<exists>w. t k = Some w \<and> w \<in> set ws" if "k \<in> set ks"
    using assms that unfolding wakes_def by (metis imageE image_eqI list.set_map)
qed

text \<open>How often a wake-up is delivered: once for each key it was waiting under.\<close>

lemma count_wakes:
  assumes "wakes t t' ks ws"
  shows "count_list ws w = length (filter (\<lambda>k. t k = Some w) ks)"
proof -
  have "count_list ws w = length (filter (\<lambda>x. x = Some w) (map Some ws))"
    by (induction ws) auto
  also have "\<dots> = length (filter (\<lambda>x. x = Some w) (map t ks))" using assms by (simp add: wakes_def)
  finally show ?thesis by (simp add: filter_map comp_def)
qed

lemma count_wakes_unique:
  assumes "wakes t t' ks ws" "\<And>k. t k = Some w \<Longrightarrow> k = k0"
  shows "count_list ws w = (if t k0 = Some w \<and> t' k0 = None then 1 else 0)"
proof -
  have d: "distinct (filter (\<lambda>k. t k = Some w) ks)" using assms(1) by (simp add: wakes_def)
  have "set (filter (\<lambda>k. t k = Some w) ks) \<subseteq> {k0}" using assms(2) by (simp add: subset_iff)
  moreover have "k0 \<in> set (filter (\<lambda>k. t k = Some w) ks) \<longleftrightarrow> t k0 = Some w \<and> t' k0 = None"
    using wakesD(1) [OF assms(1), of k0] by auto
  ultimately have "set (filter (\<lambda>k. t k = Some w) ks) = (if t k0 = Some w \<and> t' k0 = None then {k0} else {})"
    by (simp only: subset_singleton_iff) (auto simp del: set_filter)
  then have "length (filter (\<lambda>k. t k = Some w) ks) = (if t k0 = Some w \<and> t' k0 = None then 1 else 0)"
    using distinct_card [OF d] by (auto split: if_splits)
  then show ?thesis using count_wakes [OF assms(1), of w] by simp
qed

locale event_table =
  fixes view :: "'s \<Rightarrow> event_key \<rightharpoonup> 'w" and inv :: "'s \<Rightarrow> bool"
    and wake :: "'p \<Rightarrow> 'w" and add :: "'e \<Rightarrow> 'p \<Rightarrow> 's \<Rightarrow> int \<Rightarrow> u32 \<Rightarrow> (int \<times> 's) result"
    and cancel :: "'e \<Rightarrow> 's \<Rightarrow> int \<Rightarrow> u32 \<Rightarrow> (bool \<times> 's \<times> 'w list) result"
    and cancel_all :: "'e \<Rightarrow> 's \<Rightarrow> int \<Rightarrow> (bool \<times> 's \<times> 'w list) result"
    and report :: "'e \<Rightarrow> 's \<Rightarrow> int \<Rightarrow> u32 \<Rightarrow> ('s \<times> 'w list) result" and legal :: "'s \<Rightarrow> int \<Rightarrow> u32 \<Rightarrow> bool"
  assumes add_law: "inv s \<Longrightarrow> 0 \<le> fd \<Longrightarrow> is_event ev \<Longrightarrow> add e p s fd ev = Inr (rt, s') \<Longrightarrow> inv s' \<and> view s (fd, ev) = None \<and>
      (if rt = 0 then view s' = (view s)((fd, ev) \<mapsto> wake p) else view s' = view s)"
    and cancel_law: "inv s \<Longrightarrow> is_event ev \<Longrightarrow> cancel e s fd ev = Inr (b, s', ws) \<Longrightarrow> inv s' \<and>
      wakes (view s) (view s') (if b then [(fd, ev)] else []) ws"
    and cancel_all_law: "inv s \<Longrightarrow> cancel_all e s fd = Inr (b, s', ws) \<Longrightarrow> inv s' \<and>
      (\<exists>ks. set ks = (if b then {k \<in> dom (view s). fst k = fd} else {}) \<and> wakes (view s) (view s') ks ws)"
    and report_law: "inv s \<Longrightarrow> legal s fd ev \<Longrightarrow> report e s fd ev = Inr (s', ws) \<Longrightarrow> inv s' \<and>
      (\<exists>ks. set ks \<subseteq> {k. fst k = fd} \<and> wakes (view s) (view s') ks ws)"
begin

lemma cancel_wakes: "inv s \<Longrightarrow> is_event ev \<Longrightarrow> cancel e s fd ev = Inr (b, s', ws) \<Longrightarrow> inv s' \<and> (\<exists>ks. wakes (view s) (view s') ks ws)"
  using cancel_law by blast

lemma cancel_all_wakes: "inv s \<Longrightarrow> cancel_all e s fd = Inr (b, s', ws) \<Longrightarrow> inv s' \<and> (\<exists>ks. wakes (view s) (view s') ks ws)"
  using cancel_all_law by blast

lemma report_wakes: "inv s \<Longrightarrow> legal s fd ev \<Longrightarrow> report e s fd ev = Inr (s', ws) \<Longrightarrow> inv s' \<and> (\<exists>ks. wakes (view s) (view s') ks ws)"
  using report_law by blast

end

section \<open>The table of the I/O scheduler\<close>

definition fc_view :: "'cb fd_context \<Rightarrow> u32 \<rightharpoonup> 'cb wakeup" where
  "fc_view fc ev = (if is_event ev \<and> fc_events fc AND ev \<noteq> 0 then Some (wakeup_of (ctx_of fc ev)) else None)"

definition io_view :: "'cb iomanager \<Rightarrow> event_key \<rightharpoonup> 'cb wakeup" where
  "io_view io k =
     (case context_at io (fst k) of Inl _ \<Rightarrow> None | Inr fc \<Rightarrow> fc_view fc (snd k))"

text \<open>The kernel reports only registered events, or an error.\<close>

definition legal_report :: "'cb iomanager \<Rightarrow> int \<Rightarrow> u32 \<Rightarrow> bool" where
  "legal_report io fd reported \<longleftrightarrow>
     (case context_at io fd of Inl _ \<Rightarrow> False
      | Inr fc \<Rightarrow> real_events (fc_events fc) reported AND NOT (fc_events fc) = 0)"

text \<open>A party that registers: the scheduler of its thread, the running fiber, and a callback if one is given.\<close>

definition party_wake :: "nat \<times> nat \<times> 'cb option \<Rightarrow> 'cb wakeup" where
  "party_wake p = (case p of (sched, fiber, cb) \<Rightarrow> wakeup_of (new_ctx sched fiber cb))"

definition party_add :: "epoll_ctl \<Rightarrow> nat \<times> nat \<times> 'cb option \<Rightarrow> 'cb iomanager \<Rightarrow> int \<Rightarrow> u32 \<Rightarrow> (int \<times> 'cb iomanager) result" where
  "party_add ectl p io fd ev = (case p of (sched, fiber, cb) \<Rightarrow> AddEvent ectl (Some sched) (fiber, RUNNING) io fd ev cb)"

lemma io_view_put:
  assumes "context_at io fd = Inr fc"
  shows "io_view (put_context (io\<lparr>io_pending := p\<rparr>) fd fc') k = (if fst k = fd then fc_view fc' (snd k) else io_view io k)"
proof -
  have "0 \<le> fd" "nat fd < length (io_contexts io)" using assms by (auto simp: context_at_def split: if_splits)
  then show ?thesis
    by (cases "nat (fst k) = nat fd") (auto simp: io_view_def context_at_def put_context_def)
qed

lemma io_view_put_upd:
  assumes "context_at io fd = Inr fc" "\<And>ev'. fc_view fc' ev' = (if ev' = ev then v else fc_view fc ev')"
  shows "io_view (put_context (io\<lparr>io_pending := p\<rparr>) fd fc') = (io_view io)((fd, ev) := v)"
proof
  fix k
  have "io_view io (fd, e) = fc_view fc e" for e using assms(1) by (simp add: io_view_def)
  then show "io_view (put_context (io\<lparr>io_pending := p\<rparr>) fd fc') k = ((io_view io)((fd, ev) := v)) k"
    unfolding io_view_put [OF assms(1)] by (cases k) (auto simp: assms(2))
qed

lemma mask_event:
  assumes "e \<in> {0, 1, 4, 5}" "is_event ev" "is_event ev'"
  shows "((e AND NOT ev) AND ev' = 0) \<longleftrightarrow> ev' = ev \<or> e AND ev' = 0" "((e OR ev) AND ev' = 0) \<longleftrightarrow> ev' \<noteq> ev \<and> e AND ev' = 0"
proof -
  have "ev = 1 \<or> ev = 4" "ev' = 1 \<or> ev' = 4" using assms(2, 3) by (auto simp: is_event_def READ_def WRITE_def)
  with assms(1) show "((e AND NOT ev) AND ev' = 0) \<longleftrightarrow> ev' = ev \<or> e AND ev' = 0" "((e OR ev) AND ev' = 0) \<longleftrightarrow> ev' \<noteq> ev \<and> e AND ev' = 0"
    by (elim disjE insertE emptyE; simp)+
qed

lemma fc_view_other:
  assumes "fc_ok fc" "is_event ev"
  shows "fc_view (put_event_context (fc\<lparr>fc_events := fc_events fc AND NOT ev\<rparr>) ev ResetEventContext) ev' =
      (if ev' = ev then None else fc_view fc ev')"
    "fc_view (put_event_context (fc\<lparr>fc_events := fc_events fc OR ev\<rparr>) ev ctx) ev' =
      (if ev' = ev then Some (wakeup_of ctx) else fc_view fc ev')"
proof -
  let ?del = "put_event_context (fc\<lparr>fc_events := fc_events fc AND NOT ev\<rparr>) ev ResetEventContext"
  let ?add = "put_event_context (fc\<lparr>fc_events := fc_events fc OR ev\<rparr>) ev ctx"
  have e: "fc_events fc \<in> {0, 1, 4, 5}" using assms(1) by (simp add: fc_ok_def)
  have c: "fc_events ?del = fc_events fc AND NOT ev" "fc_events ?add = fc_events fc OR ev" "ctx_of ?add ev = ctx"
    "\<And>e. is_event e \<Longrightarrow> e \<noteq> ev \<Longrightarrow> ctx_of ?del e = ctx_of fc e \<and> ctx_of ?add e = ctx_of fc e"
    using assms(2) by (auto simp: put_event_context_def ctx_of_def is_event_def)
  show "fc_view ?del ev' = (if ev' = ev then None else fc_view fc ev')" "fc_view ?add ev' = (if ev' = ev then Some (wakeup_of ctx) else fc_view fc ev')"
    using mask_event [OF e assms(2), of ev'] c assms(2) by (auto simp: fc_view_def)
qed

lemma io_view_resize:
  assumes "io_wf io" "needs_resize io fd"
  shows "io_view (resize_for io fd) = io_view io"
proof
  fix k
  let ?xs = "io_contexts io" and ?sz = "nat (fd * 3 div 2)"
  have "length ?xs \<le> ?sz" using assms by (auto simp: needs_resize_def io_wf_def)
  then have e: "io_contexts (resize_for io fd) = ?xs @ map FdContext [length ?xs..<?sz]"
    by (simp add: resize_for_def ContextResize_def Let_def)
  show "io_view (resize_for io fd) k = io_view io k"
  proof (cases "nat (fst k) < length ?xs")
    case True
    then show ?thesis by (simp add: io_view_def context_at_def e nth_append)
  next
    case False
    have "fc_view (map FdContext [length ?xs..<?sz] ! (nat (fst k) - length ?xs)) ev = None" if "nat (fst k) < length ?xs + (?sz - length ?xs)" for ev
    proof -
      have i: "nat (fst k) - length ?xs < length [length ?xs..<?sz]" unfolding length_upt using that False by linarith
      show ?thesis unfolding nth_map [OF i] by (simp add: fc_view_def FdContext_def NONE_def)
    qed
    with False show ?thesis by (auto simp: io_view_def context_at_def e nth_append)
  qed
qed

lemma add_refines:
  assumes "io_wf io" "0 \<le> fd" "is_event ev" "AddEvent ectl (Some sched) (fiber, RUNNING) io fd ev cb = Inr (rt, io')"
  shows "io_view io (fd, ev) = None \<and>
    (if rt = 0 then io_view io' = (io_view io)((fd, ev) \<mapsto> wakeup_of (new_ctx sched fiber cb)) else io_view io' = io_view io)"
proof -
  define io1 where "io1 = (if needs_resize io fd then resize_for io fd else io)"
  have wf: "io_wf io1" "fd < int (length (io_contexts io1))" and v: "io_view io1 = io_view io"
    using assms(1) resize_for_ok [of io fd] io_view_resize [of io fd] by (auto simp: io1_def io_wf_def needs_resize_def)
  then obtain fc where fc: "context_at io1 fd = Inr fc" using assms(2) by (auto simp: context_at_def nat_less_iff)
  have add: "AddEvent_context ectl (Some sched) (fiber, RUNNING) io1 fd ev cb = Inr (rt, io')"
    using assms(4) by (simp add: AddEvent_def io1_def)
  have free: "fc_events fc AND ev = 0" using add fc by (cases "fc_events fc AND ev = 0") (auto simp: AddEvent_context_def)
  have ok: "fc_ok fc" using wf(1) fc context_at_ok unfolding io_wf_def by blast
  have "io_view io1 (fd, ev) = None" using fc free by (simp add: io_view_def fc_view_def)
  with add AddEvent_context_ok [OF wf(1) fc assms(3) free] io_view_put_upd [OF fc fc_view_other(2) [OF ok assms(3)]] v
  show ?thesis by (auto split: if_splits)
qed

lemma cancel_refines:
  assumes "io_wf io" "is_event ev" "CancelEvent ectl io fd ev = Inr (b, io', ws)"
  shows "wakes (io_view io) (io_view io') (if b then [(fd, ev)] else []) ws"
proof (cases b)
  case False
  then show ?thesis using assms(3) by (auto simp: CancelEvent_def Let_def result_simps split: if_splits)
next
  case True
  then obtain fc fc' w where fc: "context_at io fd = Inr fc" "fc_events fc AND ev \<noteq> 0" "TriggerEvent fc ev = Inr (fc', w)" "ws = [w]"
    "io' = put_context (io\<lparr>io_pending := sub64 (io_pending io) 1\<rparr>) fd fc'"
    using assms(3) by (auto simp: CancelEvent_def Let_def result_simps split: if_splits)
  have ok: "fc_ok fc" using assms(1) fc(1) context_at_ok unfolding io_wf_def by blast
  from TriggerEvent_ok [OF ok assms(2) fc(2)] fc(3) have
    w: "w = wakeup_of (ctx_of fc ev)" and fc': "fc' = put_event_context (fc\<lparr>fc_events := fc_events fc AND NOT ev\<rparr>) ev ResetEventContext"
    by auto
  have "io_view io (fd, ev) = Some w" using fc(1, 2) assms(2) w by (simp add: io_view_def fc_view_def)
  moreover have "io_view io' = (io_view io)((fd, ev) := None)"
    using io_view_put_upd [OF fc(1) fc_view_other(1) [OF ok assms(2)]] fc' fc(5) by simp
  ultimately show ?thesis using wakes_one True fc(4) by simp
qed

text \<open>Triggering the events of a mask takes their entries out, reads first.\<close>

lemma trigger_if_wakes:
  assumes "fc_ok fc" "is_event ev" "b \<Longrightarrow> fc_events fc AND ev \<noteq> 0" "trigger_if b ev (fc, p, ws) = Inr (fc', q, ws')"
  shows "fc_ok fc' \<and> (\<exists>w. wakes (fc_view fc) (fc_view fc') (if b then [ev] else []) w \<and> ws' = ws @ w)"
proof (cases b)
  case True
  from TriggerEvent_ok [OF assms(1, 2) assms(3) [OF True]] obtain fc1 where
    1: "TriggerEvent fc ev = Inr (fc1, wakeup_of (ctx_of fc ev))" "fc_ok fc1"
      "fc1 = put_event_context (fc\<lparr>fc_events := fc_events fc AND NOT ev\<rparr>) ev ResetEventContext" by blast
  have "fc_view fc1 = (fc_view fc)(ev := None)" using fc_view_other(1) [OF assms(1, 2)] 1(3) by auto
  moreover have "fc_view fc ev = Some (wakeup_of (ctx_of fc ev))" using assms(2) assms(3) [OF True] by (simp add: fc_view_def)
  ultimately show ?thesis using True 1 assms(4) wakes_one [of "fc_view fc" ev] by (auto simp: trigger_if_def)
qed (use assms in \<open>auto simp: trigger_if_def\<close>)

lemma trigger_mask_wakes:
  assumes "fc_ok fc" "real AND NOT (fc_events fc) = 0" "trigger_mask real fc p = Inr (fc', q, ws)"
  shows "fc_ok fc' \<and> wakes (fc_view fc) (fc_view fc') (filter (\<lambda>ev. real AND ev \<noteq> 0) [READ, WRITE]) ws"
proof -
  have sub: "fc_events fc AND ev \<noteq> 0" if "real AND ev \<noteq> 0" "is_event ev" for ev
  proof
    assume 0: "fc_events fc AND ev = 0"
    have "real = real AND (fc_events fc OR NOT (fc_events fc))" by simp
    also have "\<dots> = (real AND fc_events fc) OR (real AND NOT (fc_events fc))" by (rule bit.conj_disj_distrib)
    finally have "real AND ev = real AND (fc_events fc AND ev)" using assms(2) by (metis and.assoc or.right_neutral)
    with 0 that(1) show False by simp
  qed
  obtain f1 p1 w1 where 1: "trigger_if (real AND READ \<noteq> 0) READ (fc, p, []) = Inr (f1, p1, w1)"
    "trigger_if (real AND WRITE \<noteq> 0) WRITE (f1, p1, w1) = Inr (fc', q, ws)"
    using assms(3) by (auto simp: trigger_mask_def result_simps)
  from trigger_if_wakes [OF assms(1) _ sub 1(1)] have
    s1: "fc_ok f1" "wakes (fc_view fc) (fc_view f1) (if real AND READ \<noteq> 0 then [READ] else []) w1" by (auto simp: is_event_def)
  have "fc_events f1 AND WRITE = fc_events fc AND WRITE" using 1(1) by (rule trigger_read_keeps_write)
  with sub [of WRITE] have "real AND WRITE \<noteq> 0 \<Longrightarrow> fc_events f1 AND WRITE \<noteq> 0" by (simp add: is_event_def)
  from trigger_if_wakes [OF s1(1) _ this 1(2)] obtain w2 where
    s2: "fc_ok fc'" "wakes (fc_view f1) (fc_view fc') (if real AND WRITE \<noteq> 0 then [WRITE] else []) w2" "ws = w1 @ w2"
    by (auto simp: is_event_def)
  from wakes_trans [OF s1(2) s2(2)] s2 show ?thesis by (auto split: if_splits)
qed

lemma wakes_put:
  assumes "context_at io fd = Inr fc" "wakes (fc_view fc) (fc_view fc') ks ws"
  shows "wakes (io_view io) (io_view (put_context (io\<lparr>io_pending := p\<rparr>) fd fc')) (map (Pair fd) ks) ws"
proof -
  have v: "io_view io (fd, e) = fc_view fc e" for e using assms(1) by (simp add: io_view_def)
  have "io_view (put_context (io\<lparr>io_pending := p\<rparr>) fd fc') k = (io_view io |` (- set (map (Pair fd) ks))) k" for k
    unfolding io_view_put [OF assms(1)] wakesD(1) [OF assms(2)] by (cases k) (auto simp: v restrict_map_def)
  moreover have "distinct (map (Pair fd) ks)" using assms(2) by (simp add: wakes_def distinct_map inj_on_def)
  moreover have "map (io_view io) (map (Pair fd) ks) = map Some ws" using assms(2) by (simp add: wakes_def v comp_def)
  ultimately show ?thesis unfolding wakes_def by blast
qed

lemma report_refines:
  assumes "io_wf io" "legal_report io fd reported" "handle_event ectl io fd reported = Inr (io', ws)"
  shows "io_wf io' \<and> (\<exists>ks. set ks \<subseteq> {k. fst k = fd} \<and> wakes (io_view io) (io_view io') ks ws)"
proof -
  from assms(2) obtain fc where fc: "context_at io fd = Inr fc" "real_events (fc_events fc) reported AND NOT (fc_events fc) = 0"
    by (auto simp: legal_report_def split: sum.splits)
  have ok: "fc_ok fc" using assms(1) fc(1) context_at_ok unfolding io_wf_def by blast
  have wf: "io_wf io'" using handle_event_ok [OF assms(1) fc(1) refl fc(2), of ectl] assms(3) by auto
  show ?thesis
  proof (cases "io' = io \<and> ws = []")
    case True
    then show ?thesis using wf by (intro conjI exI [of _ "[]"]) auto
  next
    case False
    define real where "real = real_events (fc_events fc) reported"
    note h = assms(3) [unfolded handle_event_def fc(1) rbind.simps Let_def, folded real_def]
    from False h have "rbind (trigger_mask real fc (io_pending io)) (\<lambda>(fc, pending, ws).
        Inr (put_context (io\<lparr>io_pending := pending\<rparr>) fd fc, ws)) = Inr (io', ws)" by (auto split: if_splits)
    then obtain fc' p where t: "trigger_mask real fc (io_pending io) = Inr (fc', p, ws)" "io' = put_context (io\<lparr>io_pending := p\<rparr>) fd fc'"
      by (auto simp: result_simps)
    let ?ks = "map (Pair fd) (filter (\<lambda>ev. real AND ev \<noteq> 0) [READ, WRITE])"
    have "wakes (io_view io) (io_view io') ?ks ws"
      unfolding t(2) by (rule wakes_put [OF fc(1) trigger_mask_wakes [OF ok fc(2) [folded real_def] t(1), THEN conjunct2]])
    moreover have "set ?ks \<subseteq> {k. fst k = fd}" by auto
    ultimately show ?thesis using wf by blast
  qed
qed

lemma cancel_all_refines:
  assumes "io_wf io" "CancelAll ectl io fd = Inr (b, io', ws)"
  shows "io_wf io' \<and>
    (\<exists>ks. set ks = (if b then {k \<in> dom (io_view io). fst k = fd} else {}) \<and> wakes (io_view io) (io_view io') ks ws)"
proof (cases "context_at io fd")
  case (Inl e)
  then show ?thesis using assms by (auto simp: CancelAll_def split: if_splits intro: exI [of _ "[]"])
next
  case (Inr fc)
  have ok: "fc_ok fc" using assms(1) Inr context_at_ok unfolding io_wf_def by blast
  have wf: "io_wf io'" using CancelAll_ok [OF assms(1) Inr, of ectl] assms by (auto split: if_splits)
  show ?thesis
  proof (cases b)
    case False
    then have "io' = io \<and> ws = []" using assms(2) Inr
      by (auto simp: CancelAll_def cancel_triggers result_simps split: if_splits)
    then show ?thesis using wf False by (intro conjI exI [of _ "[]"]) auto
  next
    case True
    then obtain fc' p where t: "trigger_mask (fc_events fc) fc (io_pending io) = Inr (fc', p, ws)"
      "io' = put_context (io\<lparr>io_pending := p\<rparr>) fd fc'"
      using assms(2) Inr by (auto simp: CancelAll_def cancel_triggers result_simps split: if_splits)
    let ?ks = "map (Pair fd) (filter (\<lambda>ev. fc_events fc AND ev \<noteq> 0) [READ, WRITE])"
    have "wakes (io_view io) (io_view io') ?ks ws"
      using wakes_put [OF Inr trigger_mask_wakes [OF ok _ t(1), THEN conjunct2], of p] t(2) by simp
    moreover have "set ?ks = {k \<in> dom (io_view io). fst k = fd}"
      using Inr by (auto simp: io_view_def fc_view_def is_event_def split: if_splits)
    ultimately show ?thesis using True wf by (intro conjI exI [of _ ?ks]) simp_all
  qed
qed

interpretation io: event_table io_view io_wf party_wake party_add CancelEvent CancelAll handle_event legal_report
proof
  fix s :: "'cb iomanager" and fd ev e p rt s'
  assume a: "io_wf s" "0 \<le> fd" "is_event ev" "party_add e p s fd ev = Inr (rt, s')"
  obtain sched f cb where p: "p = (sched, f, cb)" by (cases p)
  have "AddEvent e (Some sched) (f, RUNNING) s fd ev cb = Inr (rt, s')" using a(4) by (simp add: party_add_def p)
  from add_refines [OF a(1-3) this] AddEvent_wf [OF a(1-3) this]
  show "io_wf s' \<and> io_view s (fd, ev) = None \<and>
      (if rt = 0 then io_view s' = (io_view s)((fd, ev) \<mapsto> party_wake p) else io_view s' = io_view s)"
    by (simp add: party_wake_def p)
next
  fix s :: "'cb iomanager" and fd ev e b s' ws
  assume "io_wf s" "is_event ev" "CancelEvent e s fd ev = Inr (b, s', ws)"
  from CancelEvent_wf [OF this] cancel_refines [OF this]
  show "io_wf s' \<and> wakes (io_view s) (io_view s') (if b then [(fd, ev)] else []) ws" by (rule conjI)
qed (rule cancel_all_refines report_refines; assumption)+

text \<open>The number of pending events is the size of the table.\<close>

lemma fc_view_card: "fc_ok fc \<Longrightarrow> card (dom (fc_view fc)) = event_count fc"
proof -
  assume "fc_ok fc"
  have "dom (fc_view fc) = (if fc_events fc AND READ \<noteq> 0 then {READ} else {}) \<union> (if fc_events fc AND WRITE \<noteq> 0 then {WRITE} else {})"
    by (auto simp: fc_view_def is_event_def split: if_splits)
  then show ?thesis by (simp add: event_count_def)
qed

lemma io_view_card:
  assumes "io_wf io"
  shows "io_pending io = card (dom (io_view io))" "finite (dom (io_view io))"
proof -
  let ?xs = "io_contexts io"
  have d: "dom (io_view io) = (\<Union>i \<in> {..<length ?xs}. Pair (int i) ` dom (fc_view (?xs ! i)))"
  proof (intro set_eqI iffI)
    fix k
    assume "k \<in> dom (io_view io)"
    then have "0 \<le> fst k" "nat (fst k) < length ?xs" "snd k \<in> dom (fc_view (?xs ! nat (fst k)))"
      by (auto simp: io_view_def context_at_def split: if_splits)
    then show "k \<in> (\<Union>i \<in> {..<length ?xs}. Pair (int i) ` dom (fc_view (?xs ! i)))"
      by (intro UN_I [of "nat (fst k)"]) (auto intro: image_eqI [of _ _ "snd k"] simp: prod_eq_iff)
  qed (auto simp: io_view_def context_at_def)
  have ok: "fc_ok (?xs ! i)" if "i < length ?xs" for i using assms that by (simp add: io_wf_def io_ok_def)
  have fin: "finite (dom (fc_view fc))" for fc :: "'a fd_context"
    by (rule finite_subset [of _ "{READ, WRITE}"]) (auto simp: fc_view_def is_event_def split: if_splits)
  show "finite (dom (io_view io))" unfolding d by (simp add: fin)
  have "card (dom (io_view io)) = (\<Sum>i<length ?xs. card (Pair (int i) ` dom (fc_view (?xs ! i))))"
    unfolding d by (intro card_UN_disjoint) (auto simp: fin)
  also have "\<dots> = (\<Sum>i<length ?xs. event_count (?xs ! i))"
    by (rule sum.cong) (simp_all add: card_image inj_on_def fc_view_card ok)
  also have "\<dots> = sum_list (map event_count ?xs)" by (simp add: sum_list_sum_nth atLeast0LessThan)
  finally show "io_pending io = card (dom (io_view io))" using assms by (simp add: io_wf_def io_ok_def)
qed

lemma del_refines:
  assumes "io_wf io" "is_event ev" "DelEvent ectl io fd ev = Inr (b, io')"
  shows "io_view io' = (if b then (io_view io)((fd, ev) := None) else io_view io) \<and> (b \<longrightarrow> io_view io (fd, ev) \<noteq> None)"
proof (cases b)
  case False
  then show ?thesis using assms(3) by (auto simp: DelEvent_def Let_def result_simps split: if_splits)
next
  case True
  then obtain fc where fc: "context_at io fd = Inr fc" "fc_events fc AND ev \<noteq> 0"
    "io' = put_context (io\<lparr>io_pending := sub64 (io_pending io) 1\<rparr>) fd
      (put_event_context (fc\<lparr>fc_events := fc_events fc AND NOT ev\<rparr>) ev ResetEventContext)"
    using assms(3) by (auto simp: DelEvent_def Let_def result_simps split: if_splits)
  have ok: "fc_ok fc" using assms(1) fc(1) context_at_ok unfolding io_wf_def by blast
  have "io_view io (fd, ev) \<noteq> None" using fc(1, 2) assms(2) by (simp add: io_view_def fc_view_def)
  then show ?thesis using True io_view_put_upd [OF fc(1) fc_view_other(1) [OF ok assms(2)]] fc(3) by simp
qed

text \<open>A registration fails its assertion exactly when the key is taken.\<close>

lemma add_cases:
  assumes "io_wf io" "0 \<le> fd" "is_event ev"
  shows "if io_view io (fd, ev) = None then \<exists>rt io'. AddEvent ectl (Some sched) (f, RUNNING) io fd ev cb = Inr (rt, io')
    else AddEvent ectl (Some sched) (f, RUNNING) io fd ev cb = Inl Assertion_Failed"
proof -
  define io1 where "io1 = (if needs_resize io fd then resize_for io fd else io)"
  have wf: "io_wf io1" "fd < int (length (io_contexts io1))" and v: "io_view io1 = io_view io"
    using assms(1) resize_for_ok [of io fd] io_view_resize [of io fd] by (auto simp: io1_def io_wf_def needs_resize_def)
  then obtain fc where fc: "context_at io1 fd = Inr fc" using assms(2) by (auto simp: context_at_def nat_less_iff)
  have a: "AddEvent ectl (Some sched) (f, RUNNING) io fd ev cb = AddEvent_context ectl (Some sched) (f, RUNNING) io1 fd ev cb"
    by (simp add: AddEvent_def io1_def)
  have "io_view io1 (fd, ev) = None \<longleftrightarrow> fc_events fc AND ev = 0" using fc assms(3) by (simp add: io_view_def fc_view_def)
  then have e: "io_view io (fd, ev) = None \<longleftrightarrow> fc_events fc AND ev = 0" unfolding v .
  show ?thesis
  proof (cases "fc_events fc AND ev = 0")
    case True
    from AddEvent_context_ok [OF wf(1) fc assms(3) True, of ectl sched f cb] True e a show ?thesis by (auto split: if_splits)
  next
    case False
    then show ?thesis using fc by (simp add: a e AddEvent_context_def)
  qed
qed

section \<open>The kernel that accepts every registration\<close>

definition accepting :: epoll_ctl where
  "accepting op fd events = 0"

lemma add_accepted:
  assumes "io_wf io" "0 \<le> fd" "is_event ev" "io_view io (fd, ev) = None"
  shows "\<exists>io'. AddEvent accepting (Some sched) (f, RUNNING) io fd ev cb = Inr (0, io') \<and> io_wf io' \<and>
    io_view io' = (io_view io)((fd, ev) \<mapsto> party_wake (sched, f, cb))"
proof -
  define io1 where "io1 = (if needs_resize io fd then resize_for io fd else io)"
  have wf: "io_wf io1" "fd < int (length (io_contexts io1))" and v: "io_view io1 = io_view io"
    using assms(1) resize_for_ok [of io fd] io_view_resize [of io fd] by (auto simp: io1_def io_wf_def needs_resize_def)
  then obtain fc where fc: "context_at io1 fd = Inr fc" using assms(2) by (auto simp: context_at_def nat_less_iff)
  have "fc_events fc AND ev = 0" using assms(3, 4) fc v [THEN fun_cong, of "(fd, ev)"] by (auto simp: io_view_def fc_view_def split: if_splits)
  from AddEvent_context_ok [OF wf(1) fc assms(3) this, of accepting sched f cb] obtain io' where
    a: "AddEvent accepting (Some sched) (f, RUNNING) io fd ev cb = Inr (0, io')" by (auto simp: AddEvent_def io1_def accepting_def)
  then have "party_add accepting (sched, f, cb) io fd ev = Inr (0, io')" by (simp add: party_add_def)
  from io.add_law [OF assms(1-3) this] a show ?thesis by auto
qed

lemma cancel_accepted:
  assumes "io_wf io" "0 \<le> fd" "is_event ev"
  shows "\<exists>io' ws. CancelEvent accepting io fd ev = Inr (io_view io (fd, ev) \<noteq> None, io', ws) \<and> io_wf io' \<and>
    wakes (io_view io) (io_view io') (if io_view io (fd, ev) \<noteq> None then [(fd, ev)] else []) ws"
proof -
  have "\<exists>io' ws. CancelEvent accepting io fd ev = Inr (io_view io (fd, ev) \<noteq> None, io', ws)"
  proof (cases "int (length (io_contexts io)) \<le> fd")
    case True
    then show ?thesis by (auto simp: CancelEvent_def io_view_def context_at_def)
  next
    case False
    then obtain fc where fc: "context_at io fd = Inr fc" using assms(2) by (auto simp: context_at_def nat_less_iff)
    then have ok: "fc_ok fc" using assms(1) context_at_ok unfolding io_wf_def by blast
    show ?thesis
    proof (cases "fc_events fc AND ev = 0")
      case True
      then show ?thesis using fc False by (auto simp: CancelEvent_def io_view_def fc_view_def)
    next
      case ev: False
      from TriggerEvent_ok [OF ok assms(3) ev] fc False ev assms(3) show ?thesis
        by (auto simp: CancelEvent_def io_view_def fc_view_def accepting_def)
    qed
  qed
  then obtain io' ws where c: "CancelEvent accepting io fd ev = Inr (io_view io (fd, ev) \<noteq> None, io', ws)" by blast
  from io.cancel_law [OF assms(1, 3) this] c show ?thesis by blast
qed

lemma real_events_own: "is_event ev \<Longrightarrow> real_events e ev = ev"
  by (auto simp: is_event_def real_events_def Let_def event_defs)

text \<open>The kernel reports just the event: \<open>EPOLLIN\<close> and \<open>EPOLLOUT\<close> have the values of the events.\<close>

lemma report_accepted:
  assumes "io_wf io" "is_event ev" "io_view io (fd, ev) = Some w"
  shows "legal_report io fd ev \<and> (\<exists>io'. handle_event accepting io fd ev = Inr (io', [w]) \<and> io_wf io' \<and>
    io_view io' = (io_view io)((fd, ev) := None))"
proof -
  from assms(2, 3) obtain fc where fc: "context_at io fd = Inr fc" "fc_events fc AND ev \<noteq> 0" "w = wakeup_of (ctx_of fc ev)"
    by (auto simp: io_view_def fc_view_def split: sum.splits if_splits)
  have ok: "fc_ok fc" "event_count fc \<le> io_pending io" using assms(1) fc(1) context_at_ok io_pending_le unfolding io_wf_def by blast+
  then have "fc_events fc \<in> {0, 1, 4, 5}" by (simp add: fc_ok_def)
  then have sub: "ev AND NOT (fc_events fc) = 0" using fc(2) assms(2) by (auto simp: is_event_def event_defs)
  then have legal: "legal_report io fd ev" using fc(1) by (simp add: legal_report_def real_events_own [OF assms(2)])
  have in_mask: "ev \<in> {0, 1, 4, 5}" using assms(2) by (auto simp: is_event_def event_defs)
  from trigger_mask_ok [OF ok(1) in_mask sub ok(2)] obtain fc' q ws where t: "trigger_mask ev fc (io_pending io) = Inr (fc', q, ws)" by blast
  have "fc_events fc AND ev \<noteq> NONE" using fc(2) by (simp add: NONE_def)
  then have h: "handle_event accepting io fd ev = Inr (put_context (io\<lparr>io_pending := q\<rparr>) fd fc', ws)"
    using fc(1) t by (simp add: handle_event_def real_events_own [OF assms(2)] accepting_def)
  let ?io = "put_context (io\<lparr>io_pending := q\<rparr>) fd fc'"
  have "filter (\<lambda>e. ev AND e \<noteq> 0) [READ, WRITE] = [ev]" using assms(2) by (auto simp: is_event_def event_defs)
  then have "wakes (io_view io) (io_view ?io) [(fd, ev)] ws"
    using wakes_put [OF fc(1) trigger_mask_wakes [OF ok(1) sub t, THEN conjunct2], of q] by simp
  then have "ws = [w]" "io_view ?io = (io_view io)((fd, ev) := None)"
    using assms(3) by (auto simp: wakes_def restrict_map_def fun_eq_iff Cons_eq_map_conv)
  with h legal io.report_wakes [OF assms(1) legal h] show ?thesis by auto
qed

section \<open>Properties\<close>



end
