(* ===== verification/Blocking_IO.thy ===== *)
theory Blocking_IO
  imports Event_Table Hook
begin

text \<open>
  Fibers that block in hooked calls on one I/O scheduler: \<open>do_io\<close> and \<open>connect_with_timeout\<close> of \<open>net/hook.cc\<close> step by step, with the events and wake-ups of
  \<open>net/iomanager.cc\<close>, the timers of \<open>util/timer.cc\<close> and the task list of \<open>fiber/scheduler.cc\<close>, for any number of fibers, threads and
  descriptors in any interleaving. A step is what a lock or a single thread makes atomic. The tasks are those of the calls; the thread a step
  runs in is not part of the state.
\<close>

section \<open>State\<close>

text \<open>
  The callback of a timer captures a descriptor and an event; the object \<open>tinfo\<close> of a call, which it holds by a weak pointer, is a number.
\<close>

datatype io_cb = On_Timeout int u32

type_synonym cond_cb = "nat \<times> io_cb"

text \<open>
  Where a fiber is in \<open>do_io\<close> or \<open>connect_with_timeout\<close>: about to call the original function, about to set the timer, about to register, registered but not yet
  switched out, switched out, and running again.
\<close>

datatype io_place = Calling | Arming | Registering | Yielding | Suspended | Resumed

text \<open>
  Three fields record the history of the call: when it first had to wait with a timer, the outcomes of the original function, and how its waits ended.
\<close>

record io_call =
  ic_connect :: bool
  ic_fd :: int
  ic_event :: u32
  ic_to :: u64
  ic_info :: nat
  ic_place :: io_place
  ic_timer :: "nat option"
  ic_since :: "u64 option"
  ic_calls :: "(int \<times> int) list"
  ic_waits :: "wait list"

text \<open>
  How a call returns: with what the original function returned, without having been registered, cancelled; or, for a connection, with the answer to
  \<open>SO_ERROR\<close>, after the result of \<open>AddEvent\<close>.
\<close>

datatype outcome = Returned int int | Not_Registered | Cancelled int | Checked int "int option" int

record runtime =
  rt_io :: "cond_cb iomanager"
  rt_tm :: "cond_cb timer_manager"
  rt_tasks :: "cond_cb schedule_task list"
  rt_calls :: "nat \<Rightarrow> io_call option"
  rt_infos :: "nat \<Rightarrow> int option"
  rt_fresh :: nat
  rt_cancels :: "(int \<times> u32) list"
  rt_now :: u64
  rt_results :: "(nat \<times> io_call \<times> outcome \<times> u64) list"

definition runtime_start :: "u64 \<Rightarrow> runtime" where
  "runtime_start now =
     \<lparr>rt_io = IOManager, rt_tm = TimerManager now, rt_tasks = [], rt_calls = (\<lambda>_. None), rt_infos = (\<lambda>_. None), rt_fresh = 0,
      rt_cancels = [], rt_now = now, rt_results = []\<rparr>"

section \<open>Pieces of the steps\<close>

definition new_call :: "bool \<Rightarrow> int \<Rightarrow> u32 \<Rightarrow> u64 \<Rightarrow> nat \<Rightarrow> io_call" where
  "new_call connect fd ev to info =
     \<lparr>ic_connect = connect, ic_fd = fd, ic_event = ev, ic_to = to, ic_info = info, ic_place = Calling, ic_timer = None, ic_since = None,
      ic_calls = [], ic_waits = []\<rparr>"

text \<open>The error number with which the original function says that the call would have to wait.\<close>

definition wait_errno :: "io_call \<Rightarrow> int" where
  "wait_errno c = (if ic_connect c then EINPROGRESS else EAGAIN)"

text \<open>The call is repeated at once, by the loop of \<open>do_io\<close>.\<close>

definition again_errno :: "io_call \<Rightarrow> int \<Rightarrow> bool" where
  "again_errno c errno \<longleftrightarrow> \<not> ic_connect c \<and> errno = EINTR"

definition set_call :: "nat \<Rightarrow> io_call \<Rightarrow> runtime \<Rightarrow> runtime" where
  "set_call f c s = s\<lparr>rt_calls := (rt_calls s)(f \<mapsto> c)\<rparr>"

text \<open>The call returns, and the last strong reference to its \<open>tinfo\<close> goes.\<close>

definition finish :: "nat \<Rightarrow> io_call \<Rightarrow> outcome \<Rightarrow> runtime \<Rightarrow> runtime" where
  "finish f c r s = s\<lparr>rt_calls := (rt_calls s)(f := None), rt_infos := (rt_infos s)(ic_info c := None),
     rt_results := rt_results s @ [(f, c, r, rt_now s)]\<rparr>"

definition enqueue :: "cond_cb schedule_task list \<Rightarrow> runtime \<Rightarrow> runtime" where
  "enqueue ts s = s\<lparr>rt_tasks := rt_tasks s @ filter task_set ts\<rparr>"

definition cancel_timer :: "'cb timer_manager \<Rightarrow> nat option \<Rightarrow> 'cb timer_manager result" where
  "cancel_timer tm timer =
     (case timer of None \<Rightarrow> Inr tm | Some a \<Rightarrow> rbind (Cancel tm a) (\<lambda>(_, tm'). Inr tm'))"

definition fiber_state :: "runtime \<Rightarrow> nat \<Rightarrow> state" where
  "fiber_state s f = (case rt_calls s f of Some c \<Rightarrow> if ic_place c = Suspended then READY else RUNNING | None \<Rightarrow> RUNNING)"

text \<open>The callback of a timer up to \<open>CancelEvent\<close>, which is a step of its own.\<close>

definition run_timeout :: "nat \<Rightarrow> int \<Rightarrow> u32 \<Rightarrow> runtime \<Rightarrow> runtime" where
  "run_timeout info fd ev s =
     (case OnTimer (\<lambda>i. rt_infos s i \<noteq> None) (info, On_Timeout fd ev) of
        None \<Rightarrow> s
      | Some _ \<Rightarrow>
          let (flag, cancel) = on_timeout (rt_infos s info) in
          s\<lparr>rt_infos := (rt_infos s)(info := flag), rt_cancels := (if cancel then rt_cancels s @ [(fd, ev)] else rt_cancels s)\<rparr>)"

section \<open>Steps\<close>

text \<open>
  The kernel is any: \<open>ectl\<close> and the outcomes of the original function are not constrained, and it reports registered events only. The clock
  does not go back and a timer is set before its deadline overflows. An expiry hands the callbacks to the task list in the same step; the idle
  fiber holds them in a local vector in between. A callback sets the flag in one step and cancels the event in another, as it holds no lock.
\<close>

inductive rt_step :: "runtime \<Rightarrow> runtime \<Rightarrow> bool" where
  begin_call: "rt_calls s f = None \<Longrightarrow> 0 \<le> fd \<Longrightarrow> is_event ev \<Longrightarrow> info = rt_fresh s \<Longrightarrow> (connect \<Longrightarrow> ev = WRITE) \<Longrightarrow>
    rt_step s (set_call f (new_call connect fd ev to info) (s\<lparr>rt_infos := (rt_infos s)(info \<mapsto> 0), rt_fresh := Suc info\<rparr>))"
| origin_returns: "rt_calls s f = Some c \<Longrightarrow> ic_place c = Calling \<Longrightarrow> \<not> (n = - 1 \<and> (again_errno c errno \<or> errno = wait_errno c)) \<Longrightarrow>
    rt_step s (finish f c (Returned n errno) s)"
| interrupted: "rt_calls s f = Some c \<Longrightarrow> ic_place c = Calling \<Longrightarrow> again_errno c EINTR \<Longrightarrow>
    rt_step s (set_call f (c\<lparr>ic_calls := ic_calls c @ [(- 1, EINTR)]\<rparr>) s)"
| would_block: "rt_calls s f = Some c \<Longrightarrow> ic_place c = Calling \<Longrightarrow>
    rt_step s (set_call f (c\<lparr>ic_place := Arming, ic_calls := ic_calls c @ [(- 1, wait_errno c)]\<rparr>) s)"
| arm: "rt_calls s f = Some c \<Longrightarrow> ic_place c = Arming \<Longrightarrow> ic_to c \<noteq> - 1 \<Longrightarrow> tm_heap (rt_tm s) a = None \<Longrightarrow> rt_now s \<le> now \<Longrightarrow>
    unat now + unat (ic_to c) < 2 ^ 64 \<Longrightarrow>
    rt_step s (set_call f (c\<lparr>ic_place := Registering, ic_timer := Some a,
        ic_since := (case ic_since c of None \<Rightarrow> Some now | Some t \<Rightarrow> Some t)\<rparr>)
      (s\<lparr>rt_now := now, rt_tm := fst (AddConditionTimer (rt_tm s) a now (ic_to c) (On_Timeout (ic_fd c) (ic_event c)) (ic_info c) False)\<rparr>))"
| arm_forever: "rt_calls s f = Some c \<Longrightarrow> ic_place c = Arming \<Longrightarrow> ic_to c = - 1 \<Longrightarrow>
    rt_step s (set_call f (c\<lparr>ic_place := Registering\<rparr>) s)"
| register: "rt_calls s f = Some c \<Longrightarrow> ic_place c = Registering \<Longrightarrow>
    AddEvent ectl (Some 0) (f, RUNNING) (rt_io s) (ic_fd c) (ic_event c) None = Inr (0, io') \<Longrightarrow>
    rt_step s (set_call f (c\<lparr>ic_place := Yielding\<rparr>) (s\<lparr>rt_io := io'\<rparr>))"
| register_fails: "rt_calls s f = Some c \<Longrightarrow> ic_place c = Registering \<Longrightarrow>
    AddEvent ectl (Some 0) (f, RUNNING) (rt_io s) (ic_fd c) (ic_event c) None = Inr (rt, io') \<Longrightarrow> rt \<noteq> 0 \<Longrightarrow>
    cancel_timer (rt_tm s) (ic_timer c) = Inr tm' \<Longrightarrow>
    rt_step s (finish f c (if ic_connect c then Checked rt soerr errno else Not_Registered) (s\<lparr>rt_io := io', rt_tm := tm'\<rparr>))"
| yield: "rt_calls s f = Some c \<Longrightarrow> ic_place c = Yielding \<Longrightarrow> rt_step s (set_call f (c\<lparr>ic_place := Suspended\<rparr>) s)"
| resume: "pick tid (fiber_state s) (rt_tasks s) False = Inr (Some t, ts, tickle) \<Longrightarrow> st_fiber t = Some f \<Longrightarrow> rt_calls s f = Some c \<Longrightarrow>
    rt_step s (set_call f (c\<lparr>ic_place := Resumed\<rparr>) (s\<lparr>rt_tasks := ts\<rparr>))"
| return_cancelled: "rt_calls s f = Some c \<Longrightarrow> ic_place c = Resumed \<Longrightarrow> cancel_timer (rt_tm s) (ic_timer c) = Inr tm' \<Longrightarrow>
    rt_infos s (ic_info c) = Some e \<Longrightarrow> e \<noteq> 0 \<Longrightarrow> rt_step s (finish f c (Cancelled e) (s\<lparr>rt_tm := tm'\<rparr>))"
| connected: "rt_calls s f = Some c \<Longrightarrow> ic_place c = Resumed \<Longrightarrow> cancel_timer (rt_tm s) (ic_timer c) = Inr tm' \<Longrightarrow>
    rt_infos s (ic_info c) = Some 0 \<Longrightarrow> ic_connect c \<Longrightarrow> rt_step s (finish f c (Checked 0 soerr errno) (s\<lparr>rt_tm := tm'\<rparr>))"
| retry: "rt_calls s f = Some c \<Longrightarrow> ic_place c = Resumed \<Longrightarrow> cancel_timer (rt_tm s) (ic_timer c) = Inr tm' \<Longrightarrow>
    rt_infos s (ic_info c) = Some 0 \<Longrightarrow> \<not> ic_connect c \<Longrightarrow>
    rt_step s (set_call f (c\<lparr>ic_place := Calling, ic_timer := None, ic_waits := ic_waits c @ [\<lparr>wt_rt = 0, wt_errno = 0, wt_cancelled = 0\<rparr>]\<rparr>)
      (s\<lparr>rt_tm := tm'\<rparr>))"
| expire: "rt_now s \<le> now \<Longrightarrow> tm_heap (rt_tm s) now_addr = None \<Longrightarrow> \<not> fst (DetectClockRollover (rt_tm s) now) \<Longrightarrow>
    ListExpiredCb (rt_tm s) now_addr now [] = (tm', cbs) \<Longrightarrow>
    rt_step s (enqueue (map (\<lambda>cb. ScheduleTask None cb (- 1)) cbs) (s\<lparr>rt_tm := tm', rt_now := now\<rparr>))"
| timeout: "pick tid (fiber_state s) (rt_tasks s) False = Inr (Some t, ts, tickle) \<Longrightarrow> st_cb t = Some (info, On_Timeout fd ev) \<Longrightarrow>
    rt_step s (run_timeout info fd ev (s\<lparr>rt_tasks := ts\<rparr>))"
| cancel_event: "(fd, ev) \<in> set (rt_cancels s) \<Longrightarrow> CancelEvent ectl (rt_io s) fd ev = Inr (b, io', ws) \<Longrightarrow>
    rt_step s (enqueue (map snd ws) (s\<lparr>rt_io := io', rt_cancels := remove1 (fd, ev) (rt_cancels s)\<rparr>))"
| report: "legal_report (rt_io s) fd reported \<Longrightarrow> handle_event ectl (rt_io s) fd reported = Inr (io', ws) \<Longrightarrow>
    rt_step s (enqueue (map snd ws) (s\<lparr>rt_io := io'\<rparr>))"
| close_fd: "CancelAll ectl (rt_io s) fd = Inr (b, io', ws) \<Longrightarrow> rt_step s (enqueue (map snd ws) (s\<lparr>rt_io := io'\<rparr>))"

inductive rt_reachable :: "runtime \<Rightarrow> bool" where
  start: "rt_reachable (runtime_start now)"
| step: "rt_reachable s \<Longrightarrow> rt_step s s' \<Longrightarrow> rt_reachable s'"

section \<open>No wake-up is lost\<close>

definition fiber_task :: "nat \<Rightarrow> cond_cb schedule_task" where
  "fiber_task f = ScheduleTask (Some f) None (- 1)"

definition key :: "io_call \<Rightarrow> event_key" where
  "key c = (ic_fd c, ic_event c)"

lemma key_update [simp]: "key (c\<lparr>ic_place := p\<rparr>) = key c" "key (c\<lparr>ic_timer := a\<rparr>) = key c" "key (c\<lparr>ic_since := t\<rparr>) = key c"
    "key (c\<lparr>ic_calls := cs\<rparr>) = key c" "key (c\<lparr>ic_waits := ws\<rparr>) = key c"
  by (simp_all add: key_def)

definition waiting :: "io_call \<Rightarrow> bool" where
  "waiting c \<longleftrightarrow> ic_place c = Yielding \<or> ic_place c = Suspended"

text \<open>The fiber is registered for the event its call waits for.\<close>

definition registered :: "runtime \<Rightarrow> nat \<Rightarrow> io_call \<Rightarrow> bool" where
  "registered s f c \<longleftrightarrow> io_view (rt_io s) (key c) = Some (0, fiber_task f)"

definition cb_ok :: "cond_cb \<Rightarrow> bool" where
  "cb_ok cb \<longleftrightarrow> (case snd cb of On_Timeout fd ev \<Rightarrow> is_event ev)"

definition task_ok :: "cond_cb schedule_task \<Rightarrow> bool" where
  "task_ok t \<longleftrightarrow> (\<exists>f. t = fiber_task f) \<or> (\<exists>cb. t = ScheduleTask None (Some cb) (- 1) \<and> cb_ok cb)"

definition timers_ok :: "cond_cb timer_manager \<Rightarrow> bool" where
  "timers_ok tm \<longleftrightarrow> tm_ok tm \<and> (\<forall>a t cb. tm_heap tm a = Some t \<longrightarrow> tmr_cb t = Some cb \<longrightarrow> cb_ok cb)"

definition entries_ok :: "(event_key \<rightharpoonup> cond_cb wakeup) \<Rightarrow> (nat \<Rightarrow> io_call option) \<Rightarrow> bool" where
  "entries_ok view calls \<longleftrightarrow> (\<forall>k w. view k = Some w \<longrightarrow>
     (\<exists>f c. w = (0, fiber_task f) \<and> calls f = Some c \<and> k = key c \<and> waiting c))"

definition tasks_due :: "(event_key \<rightharpoonup> cond_cb wakeup) \<Rightarrow> (nat \<Rightarrow> io_call option) \<Rightarrow> nat \<Rightarrow> nat" where
  "tasks_due view calls f =
     (case calls f of None \<Rightarrow> 0 | Some c \<Rightarrow> if waiting c \<and> view (key c) \<noteq> Some (0, fiber_task f) then 1 else 0)"

definition wake_inv :: "runtime \<Rightarrow> bool" where
  "wake_inv s \<longleftrightarrow> io_wf (rt_io s) \<and> timers_ok (rt_tm s) \<and> list_all task_ok (rt_tasks s) \<and> list_all (is_event \<circ> snd) (rt_cancels s) \<and>
     (\<forall>f c. rt_calls s f = Some c \<longrightarrow> 0 \<le> ic_fd c \<and> is_event (ic_event c)) \<and>
     entries_ok (io_view (rt_io s)) (rt_calls s) \<and>
     (\<forall>f. count_list (rt_tasks s) (fiber_task f) = tasks_due (io_view (rt_io s)) (rt_calls s) f)"

lemma fiber_task_simps [simp]:
  "st_fiber (fiber_task f) = Some f" "st_cb (fiber_task f) = None" "st_thread (fiber_task f) = - 1" "task_set (fiber_task f)"
  "fiber_task f = fiber_task g \<longleftrightarrow> f = g" "ScheduleTask None cb t \<noteq> fiber_task f" "fiber_task f \<noteq> ScheduleTask None cb t"
  by (auto simp: fiber_task_def ScheduleTask_def task_set_def)

lemma task_ok_set: "task_ok t \<Longrightarrow> task_set t"
  by (auto simp: task_ok_def ScheduleTask_def task_set_def)

lemma task_okD:
  assumes "task_ok t"
  shows "st_fiber t = Some f \<Longrightarrow> t = fiber_task f" "st_cb t = Some cb \<Longrightarrow> t = ScheduleTask None (Some cb) (- 1) \<and> cb_ok cb" "st_thread t = - 1"
  using assms by (auto simp: task_ok_def ScheduleTask_def fiber_task_def)

lemma entries_unique: "entries_ok view calls \<Longrightarrow> view k = Some (0, fiber_task f) \<Longrightarrow> \<exists>c. calls f = Some c \<and> k = key c \<and> waiting c"
  unfolding entries_ok_def by (metis fiber_task_simps(5) prod.inject)

text \<open>Changing the call of a fiber that waits neither before nor after, or that waits for the same before and after.\<close>

lemma calls_idle:
  assumes "entries_ok view calls" "\<And>c. calls f = Some c \<Longrightarrow> \<not> waiting c" "\<And>c. v = Some c \<Longrightarrow> \<not> waiting c"
  shows "entries_ok view (calls(f := v))" "tasks_due view (calls(f := v)) = tasks_due view calls"
proof -
  show "entries_ok view (calls(f := v))" using assms(1, 2) unfolding entries_ok_def by (metis fun_upd_other)
  show "tasks_due view (calls(f := v)) = tasks_due view calls"
    using assms(2, 3) by (auto simp: tasks_due_def fun_eq_iff split: option.splits)
qed

lemma calls_same:
  assumes "entries_ok view calls" "calls f = Some c" "key c' = key c" "waiting c' = waiting c"
  shows "entries_ok view (calls(f \<mapsto> c'))" "tasks_due view (calls(f \<mapsto> c')) = tasks_due view calls"
proof -
  show "entries_ok view (calls(f \<mapsto> c'))"
    unfolding entries_ok_def
  proof (intro allI impI)
    fix k w
    assume "view k = Some w"
    with assms(1) obtain g d where g: "w = (0, fiber_task g)" "calls g = Some d" "k = key d" "waiting d"
      unfolding entries_ok_def by blast
    with assms(2-4) show "\<exists>g d. w = (0, fiber_task g) \<and> (calls(f \<mapsto> c')) g = Some d \<and> k = key d \<and> waiting d"
      by (cases "g = f") auto
  qed
  show "tasks_due view (calls(f \<mapsto> c')) = tasks_due view calls"
    using assms(2-4) by (auto simp: tasks_due_def fun_eq_iff split: option.splits)
qed

lemma due_after_wakes:
  assumes "entries_ok view calls" "wakes view view' ks ws"
  shows "entries_ok view' calls" "list_all (\<lambda>w. \<exists>f. w = (0, fiber_task f)) ws"
    "tasks_due view' calls f = tasks_due view calls f + count_list ws (0, fiber_task f)"
proof -
  note v' = wakesD(1) [OF assms(2)]
  show "entries_ok view' calls" using assms(1) unfolding entries_ok_def v' by (metis option.distinct(1))
  have "\<exists>k. view k = Some w" if "w \<in> set ws" for w
    using assms(2) that unfolding wakes_def by (metis (no_types, lifting) ex_map_conv imageI list.set_map)
  then show "list_all (\<lambda>w. \<exists>f. w = (0, fiber_task f)) ws" using assms(1) unfolding entries_ok_def list_all_iff by blast
  let ?w = "(0, fiber_task f)"
  show "tasks_due view' calls f = tasks_due view calls f + count_list ws ?w"
  proof (cases "calls f")
    case None
    then have "view k \<noteq> Some ?w" for k using entries_unique [OF assms(1), of k f] by auto
    then show ?thesis using None count_wakes [OF assms(2), of ?w] by (simp add: tasks_due_def)
  next
    case (Some c)
    then have u: "view k = Some ?w \<Longrightarrow> k = key c \<and> waiting c" for k using entries_unique [OF assms(1), of k f] by auto
    then have "count_list ws ?w = (if view (key c) = Some ?w \<and> view' (key c) = None then 1 else 0)"
      by (intro count_wakes_unique [OF assms(2)]) blast
    then show ?thesis using Some u [of "key c"] v' [of "key c"] by (auto simp: tasks_due_def)
  qed
qed

lemma count_snd: "list_all (\<lambda>w. \<exists>f. w = (0, fiber_task f)) ws \<Longrightarrow> count_list (map snd ws) (fiber_task f) = count_list ws (0, fiber_task f)"
  by (induction ws) auto

lemma wake_inv_wakes:
  assumes "wake_inv s" "io_wf io'" "wakes (io_view (rt_io s)) (io_view io') ks ws" "list_all (is_event \<circ> snd) cs"
  shows "wake_inv (enqueue (map snd ws) (s\<lparr>rt_io := io', rt_cancels := cs\<rparr>))"
proof -
  have e: "entries_ok (io_view (rt_io s)) (rt_calls s)" using assms(1) by (simp add: wake_inv_def)
  note d = due_after_wakes [OF e assms(3)]
  have "list_all task_ok (map snd ws)" using d(2) by (auto simp: list_all_iff task_ok_def)
  moreover from this have "filter task_set (map snd ws) = map snd ws" by (auto simp: list_all_iff task_ok_set filter_id_conv)
  ultimately show ?thesis using assms d(1, 3) count_snd [OF d(2)] by (simp add: wake_inv_def enqueue_def)
qed

lemma timers_ok_cancel: "timers_ok tm \<Longrightarrow> cancel_timer tm timer = Inr tm' \<Longrightarrow> timers_ok tm'"
proof (cases timer)
  case (Some a)
  assume tm: "timers_ok tm" "cancel_timer tm timer = Inr tm'"
  then obtain b where b: "Cancel tm a = Inr (b, tm')" using Some by (auto simp: cancel_timer_def result_simps)
  then obtain t where c: "Cancel tm a = Inr (b, tm')" "tm_heap tm a = Some t" by (auto simp: Cancel_def split: option.splits)
  from Cancel_cases [OF _ c(2)] tm(1) c show ?thesis by (auto simp: timers_ok_def split: if_splits)
qed (simp add: cancel_timer_def)

lemma timers_ok_add: "timers_ok tm \<Longrightarrow> tm_heap tm a = None \<Longrightarrow> cb_ok cb \<Longrightarrow> timers_ok (fst (AddTimer tm a now ms (Some cb) False))"
  using AddTimer_ok [of tm a "Some cb" now ms False]
  by (auto simp: timers_ok_def AddTimer_def AddTimer_locked_def Timer_def Let_def)

lemma timers_ok_expire:
  assumes "timers_ok tm" "tm_heap tm a = None" "\<not> fst (DetectClockRollover tm now)" "ListExpiredCb tm a now [] = (tm', cbs)"
  shows "timers_ok tm'" "list_all (\<lambda>cb. \<exists>c. cb = Some c \<and> cb_ok c) cbs"
proof -
  have ok: "tm_ok tm" using assms(1) by (simp add: timers_ok_def)
  let ?due = "filter (\<lambda>b. deadline (tm_heap tm) b \<le> now) (tm_timers tm)"
  from ListExpiredCb_ok [OF ok assms(2, 3), of "[]"] assms(4) have
    tm': "tm_ok tm'" "cbs = map (\<lambda>b. tmr_cb (the (tm_heap tm b))) ?due"
      "tm_heap tm' = (\<lambda>b. if b \<in> set ?due then map_option (fired now) (tm_heap tm b) else tm_heap tm b)" by auto
  show "timers_ok tm'" using assms(1) tm'(1) unfolding timers_ok_def tm'(3) by (auto split: if_splits)
  have "\<exists>c. tmr_cb (the (tm_heap tm b)) = Some c \<and> cb_ok c" if "b \<in> set (tm_timers tm)" for b
    using tm_okD(2) [OF ok, of b] that assms(1) by (fastforce simp: timers_ok_def)
  then show "list_all (\<lambda>cb. \<exists>c. cb = Some c \<and> cb_ok c) cbs" unfolding tm'(2) by (auto simp: list_all_iff)
qed

lemma pick_task:
  assumes "list_all task_ok ts" "pick tid st ts tk = Inr (Some t, ts', tk')"
  shows "\<exists>us vs. ts = us @ t # vs \<and> ts' = us @ vs" "task_ok t" "eligible tid st t"
  using assms pick_split [of ts tid st tk] by (auto simp: list_all_iff task_ok_set)

lemma wake_inv_tasks:
  assumes "wake_inv s" "rt_tasks s = us @ t # vs" "st_fiber t = None"
  shows "wake_inv (s\<lparr>rt_tasks := us @ vs\<rparr>)"
proof -
  have "t \<noteq> fiber_task f" for f using assms(3) by auto
  then have "count_list (us @ vs) (fiber_task f) = count_list (us @ t # vs) (fiber_task f)" for f by simp
  with assms(1, 2) show ?thesis by (simp add: wake_inv_def)
qed

text \<open>Steps of one call that leave the table and the task list alone.\<close>

lemma wake_inv_idle:
  assumes "wake_inv s" "rt_io s' = rt_io s" "rt_tasks s' = rt_tasks s" "rt_cancels s' = rt_cancels s" "timers_ok (rt_tm s')"
    "rt_calls s' = (rt_calls s)(f := v)" "\<And>c. rt_calls s f = Some c \<Longrightarrow> \<not> waiting c"
    "\<And>c. v = Some c \<Longrightarrow> \<not> waiting c \<and> 0 \<le> ic_fd c \<and> is_event (ic_event c)"
  shows "wake_inv s'"
proof -
  have e: "entries_ok (io_view (rt_io s)) (rt_calls s)" using assms(1) by (simp add: wake_inv_def)
  have "\<And>c. v = Some c \<Longrightarrow> \<not> waiting c" using assms(8) by blast
  note c = calls_idle [OF e assms(7) this]
  show ?thesis using assms(1, 5, 8) c unfolding wake_inv_def assms(2-4, 6) by simp
qed

lemma wake_inv_same:
  assumes "wake_inv s" "rt_io s' = rt_io s" "rt_tasks s' = rt_tasks s" "rt_cancels s' = rt_cancels s" "timers_ok (rt_tm s')"
    "rt_calls s' = (rt_calls s)(f \<mapsto> c')" "rt_calls s f = Some c" "key c' = key c" "waiting c' = waiting c"
  shows "wake_inv s'"
proof -
  have e: "entries_ok (io_view (rt_io s)) (rt_calls s)" using assms(1) by (simp add: wake_inv_def)
  note c = calls_same [OF e assms(7-9)]
  have "ic_fd c' = ic_fd c" "ic_event c' = ic_event c" using assms(8) by (auto simp: key_def)
  then show ?thesis using assms(1, 5, 7) c unfolding wake_inv_def assms(2-4, 6) by simp
qed

lemma wake_inv_register:
  assumes "wake_inv s" "rt_calls s f = Some c" "ic_place c = Registering"
    "AddEvent ectl (Some 0) (f, RUNNING) (rt_io s) (ic_fd c) (ic_event c) None = Inr (rt, io')"
  shows "rt = 0 \<Longrightarrow> wake_inv (set_call f (c\<lparr>ic_place := Yielding\<rparr>) (s\<lparr>rt_io := io'\<rparr>))" "rt \<noteq> 0 \<Longrightarrow> wake_inv (s\<lparr>rt_io := io'\<rparr>)"
proof -
  let ?v = "io_view (rt_io s)" and ?w = "(0, fiber_task f)"
  have wf: "io_wf (rt_io s)" "0 \<le> ic_fd c" "is_event (ic_event c)" and e: "entries_ok ?v (rt_calls s)"
    using assms(1, 2) by (auto simp: wake_inv_def)
  have nw: "\<not> waiting c" using assms(3) by (simp add: waiting_def)
  have p: "party_wake (0, f, None) = ?w" by (simp add: party_wake_def wakeup_of_def new_ctx_def fiber_task_def)
  have "party_add ectl (0, f, None) (rt_io s) (ic_fd c) (ic_event c) = Inr (rt, io')" using assms(4) by (simp add: party_add_def)
  from io.add_law [OF wf this] have a: "io_wf io'" "?v (key c) = None"
    "if rt = 0 then io_view io' = ?v(key c \<mapsto> ?w) else io_view io' = ?v" by (simp_all add: p key_def)
  then show "wake_inv (s\<lparr>rt_io := io'\<rparr>)" if "rt \<noteq> 0" using assms(1) that by (simp add: wake_inv_def)
  assume 0: "rt = 0"
  let ?c = "c\<lparr>ic_place := Yielding\<rparr>"
  let ?calls = "(rt_calls s)(f \<mapsto> ?c)" and ?v' = "?v(key c \<mapsto> ?w)"
  have k: "key ?c = key c" "waiting ?c" by (simp_all add: key_def waiting_def)
  have nf: "?v k \<noteq> Some ?w" for k using entries_unique [OF e, of k f] assms(2) nw by auto
  have "entries_ok ?v' ?calls"
    using e assms(2) nw k unfolding entries_ok_def by (metis (no_types, lifting) fun_upd_apply option.inject)
  moreover have "tasks_due ?v' ?calls g = tasks_due ?v (rt_calls s) g" for g
  proof (cases "g = f")
    case True
    then show ?thesis using assms(2) nw k by (simp add: tasks_due_def)
  next
    case False
    have "?v' (key d) = Some (0, fiber_task g) \<longleftrightarrow> ?v (key d) = Some (0, fiber_task g)" for d using False a(2) by auto
    with False show ?thesis by (simp add: tasks_due_def split: option.splits)
  qed
  ultimately show "wake_inv (set_call f ?c (s\<lparr>rt_io := io'\<rparr>))" using assms(1, 2) a 0 by (simp add: wake_inv_def set_call_def)
qed

lemma wake_inv_resume:
  assumes "wake_inv s" "pick tid (fiber_state s) (rt_tasks s) False = Inr (Some t, ts, tk)" "st_fiber t = Some f" "rt_calls s f = Some c"
  shows "wake_inv (set_call f (c\<lparr>ic_place := Resumed\<rparr>) (s\<lparr>rt_tasks := ts\<rparr>))" "ic_place c = Suspended" "\<not> registered s f c"
proof -
  let ?v = "io_view (rt_io s)" and ?c = "c\<lparr>ic_place := Resumed\<rparr>"
  have e: "entries_ok ?v (rt_calls s)" and ok: "list_all task_ok (rt_tasks s)"
    and cnt: "\<And>g. count_list (rt_tasks s) (fiber_task g) = tasks_due ?v (rt_calls s) g" using assms(1) by (auto simp: wake_inv_def)
  from pick_task [OF ok assms(2)] obtain us vs where ts: "rt_tasks s = us @ t # vs" "ts = us @ vs" "task_ok t" "eligible tid (fiber_state s) t"
    by blast
  then have t: "t = fiber_task f" using assms(3) task_okD(1) by blast
  show "ic_place c = Suspended" using ts(4) t assms(4) by (auto simp: eligible_def fiber_state_def split: if_splits)
  have due: "count_list (us @ vs) (fiber_task f) = 0" "waiting c" "?v (key c) \<noteq> Some (0, fiber_task f)"
    using cnt [of f] ts(1) t assms(4) by (auto simp: tasks_due_def split: if_splits)
  then show "\<not> registered s f c" by (simp add: registered_def)
  have nf: "?v k \<noteq> Some (0, fiber_task f)" for k using entries_unique [OF e, of k f] assms(4) due(3) by auto
  have "\<not> waiting ?c" by (simp add: waiting_def)
  moreover have "entries_ok ?v ((rt_calls s)(f \<mapsto> ?c))" using e nf unfolding entries_ok_def by (metis fun_upd_other)
  moreover have "count_list ts (fiber_task g) = tasks_due ?v ((rt_calls s)(f \<mapsto> ?c)) g" for g
    using cnt [of g] due(1) ts(1, 2) t \<open>\<not> waiting ?c\<close> by (cases "g = f") (auto simp: tasks_due_def)
  moreover have "list_all task_ok ts" using ok ts(1, 2) by simp
  ultimately show "wake_inv (set_call f ?c (s\<lparr>rt_tasks := ts\<rparr>))"
    using assms(1, 4) by (simp add: wake_inv_def set_call_def)
qed

lemma run_timeout_fields [simp]:
  "rt_io (run_timeout i fd ev s) = rt_io s" "rt_tm (run_timeout i fd ev s) = rt_tm s" "rt_tasks (run_timeout i fd ev s) = rt_tasks s"
  "rt_calls (run_timeout i fd ev s) = rt_calls s" "rt_now (run_timeout i fd ev s) = rt_now s" "rt_results (run_timeout i fd ev s) = rt_results s"
  "rt_fresh (run_timeout i fd ev s) = rt_fresh s"
  by (auto simp: run_timeout_def split: option.splits prod.splits)

lemma run_timeout_cancels: "set (rt_cancels (run_timeout i fd ev s)) \<subseteq> insert (fd, ev) (set (rt_cancels s))"
  by (auto simp: run_timeout_def split: option.splits prod.splits)

lemma wake_inv_set_call:
  "wake_inv s \<Longrightarrow> rt_calls s f = Some c \<Longrightarrow> key c' = key c \<Longrightarrow> waiting c' = waiting c \<Longrightarrow> rt_io s1 = rt_io s \<Longrightarrow> rt_tasks s1 = rt_tasks s \<Longrightarrow>
    rt_cancels s1 = rt_cancels s \<Longrightarrow> rt_calls s1 = rt_calls s \<Longrightarrow> timers_ok (rt_tm s1) \<Longrightarrow> wake_inv (set_call f c' s1)"
  by (rule wake_inv_same [where f = f and c = c and c' = c']) (simp_all add: set_call_def)

lemma wake_inv_finish:
  "wake_inv s \<Longrightarrow> rt_calls s f = Some c \<Longrightarrow> \<not> waiting c \<Longrightarrow> rt_io s1 = rt_io s \<Longrightarrow> rt_tasks s1 = rt_tasks s \<Longrightarrow> rt_cancels s1 = rt_cancels s \<Longrightarrow>
    rt_calls s1 = rt_calls s \<Longrightarrow> timers_ok (rt_tm s1) \<Longrightarrow> wake_inv (finish f c r s1)"
  by (rule wake_inv_idle [where f = f and v = None]) (auto simp: finish_def)

lemma wake_inv_expire:
  assumes "wake_inv s" "tm_heap (rt_tm s) a = None" "\<not> fst (DetectClockRollover (rt_tm s) now)" "ListExpiredCb (rt_tm s) a now [] = (tm', cbs)"
  shows "wake_inv (enqueue (map (\<lambda>cb. ScheduleTask None cb (- 1)) cbs) (s\<lparr>rt_tm := tm', rt_now := now\<rparr>))"
proof -
  have "timers_ok (rt_tm s)" using assms(1) by (simp add: wake_inv_def)
  note t = timers_ok_expire [OF this assms(2-4)]
  let ?ts = "map (\<lambda>cb. ScheduleTask None cb (- 1)) cbs :: cond_cb schedule_task list"
  have "list_all task_ok ?ts" using t(2) by (fastforce simp: list_all_iff task_ok_def)
  then have "list_all task_ok (filter task_set ?ts)" by (auto simp: list_all_iff)
  moreover have "count_list (filter task_set ?ts) (fiber_task f) = 0" for f by (auto simp: count_list_0_iff)
  ultimately show ?thesis using assms(1) t(1) by (simp add: wake_inv_def enqueue_def)
qed

lemma wake_inv_timeout:
  assumes "wake_inv s" "pick tid (fiber_state s) (rt_tasks s) False = Inr (Some t, ts, tk)" "st_cb t = Some (info, On_Timeout fd ev)"
  shows "wake_inv (run_timeout info fd ev (s\<lparr>rt_tasks := ts\<rparr>))"
proof -
  have ok: "list_all task_ok (rt_tasks s)" using assms(1) by (simp add: wake_inv_def)
  from pick_task [OF ok assms(2)] obtain us vs where ts: "rt_tasks s = us @ t # vs" "ts = us @ vs" "task_ok t" by blast
  have t: "t = ScheduleTask None (Some (info, On_Timeout fd ev)) (- 1)" "is_event ev"
    using task_okD(2) [OF ts(3) assms(3)] by (simp_all add: cb_ok_def)
  have "wake_inv (s\<lparr>rt_tasks := ts\<rparr>)" unfolding ts(2) by (rule wake_inv_tasks [OF assms(1) ts(1)]) (simp add: t ScheduleTask_def)
  with t(2) run_timeout_cancels [of info fd ev "s\<lparr>rt_tasks := ts\<rparr>"] show ?thesis by (auto simp: wake_inv_def list_all_iff)
qed

lemma wake_inv_step:
  assumes "rt_step s s'" "wake_inv s"
  shows "wake_inv s'"
proof -
  have tm: "timers_ok (rt_tm s)" "\<And>timer tm'. cancel_timer (rt_tm s) timer = Inr tm' \<Longrightarrow> timers_ok tm'"
    using assms(2) timers_ok_cancel by (auto simp: wake_inv_def)
  have k: "io_wf (rt_io s)" "list_all (is_event \<circ> snd) (rt_cancels s)" using assms(2) by (auto simp: wake_inv_def)
  note wakes = wake_inv_wakes [OF assms(2)]
  show ?thesis
    using assms(1)
  proof cases
    case (begin_call f fd ev info connect to)
    then show ?thesis using tm(1) unfolding begin_call(1)
      by (intro wake_inv_idle [OF assms(2), where f = f and v = "Some (new_call connect fd ev to info)"])
        (auto simp: set_call_def new_call_def waiting_def)
  next
    case (arm f c a now)
    have "is_event (ic_event c)" using assms(2) arm(2) by (auto simp: wake_inv_def)
    then have "timers_ok (fst (AddTimer (rt_tm s) a now (ic_to c) (Some (ic_info c, On_Timeout (ic_fd c) (ic_event c))) False))"
      using tm(1) arm(5) by (intro timers_ok_add) (auto simp: cb_ok_def)
    with arm(2, 3) show ?thesis unfolding arm(1) by (intro wake_inv_set_call [OF assms(2)]) (auto simp: AddConditionTimer_def waiting_def)
  next
    case (register f c ectl io')
    then show ?thesis using wake_inv_register(1) [OF assms(2)] by simp
  next
    case (register_fails f c ectl rt io' tm' soerr errno)
    then have "wake_inv (s\<lparr>rt_io := io'\<rparr>)" using wake_inv_register(2) [OF assms(2)] by simp
    from wake_inv_finish [OF this] register_fails(2, 3) tm(2) [OF register_fails(6)] show ?thesis unfolding register_fails(1) by (auto simp: waiting_def)
  next
    case (resume tid t ts tickle f c)
    then show ?thesis using wake_inv_resume(1) [OF assms(2)] by simp
  next
    case (expire now now_addr tm' cbs)
    then show ?thesis using wake_inv_expire [OF assms(2)] by simp
  next
    case (timeout tid t ts tickle info fd ev)
    then show ?thesis using wake_inv_timeout [OF assms(2)] by simp
  next
    case (cancel_event fd ev ectl b io' ws)
    have e: "is_event ev" "list_all (is_event \<circ> snd) (remove1 (fd, ev) (rt_cancels s))"
      using k(2) cancel_event(2) by (auto simp: list_all_iff dest: notin_set_remove1)
    from io.cancel_wakes [OF k(1) e(1) cancel_event(3)] wakes [OF _ _ e(2)] show ?thesis unfolding cancel_event(1) by blast
  next
    case (report fd reported ectl io' ws)
    from io.report_wakes [OF k(1) report(2, 3)] wakes [OF _ _ k(2)] show ?thesis unfolding report(1) by auto
  next
    case (close_fd ectl fd b io' ws)
    from io.cancel_all_wakes [OF k(1) close_fd(2)] wakes [OF _ _ k(2)] show ?thesis unfolding close_fd(1) by auto
  qed (auto simp: waiting_def intro!: wake_inv_set_call [OF assms(2)] wake_inv_finish [OF assms(2)] intro: tm)
qed

lemma io_view_start [simp]: "io_view IOManager k = None"
  by (auto simp: io_view_def context_at_def fc_view_def IOManager_def ContextResize_def Let_def FdContext_def NONE_def)

lemma rt_reachable_inv: "rt_reachable s \<Longrightarrow> wake_inv s"
proof (induction rule: rt_reachable.induct)
  case (start now)
  show ?case
    by (simp add: wake_inv_def runtime_start_def IOManager_wf timers_ok_def TimerManager_ok entries_ok_def tasks_due_def)
      (simp add: TimerManager_def)
qed (rule wake_inv_step)

section \<open>No call times out early\<close>

text \<open>
  The callback is the one of the call with its object, and that call has waited since a time that, with its timeout, is not after \<open>d\<close>.
\<close>

definition due_by :: "(nat \<Rightarrow> io_call option) \<Rightarrow> cond_cb \<Rightarrow> nat \<Rightarrow> bool" where
  "due_by calls j d \<longleftrightarrow> (\<forall>f c. calls f = Some c \<longrightarrow> ic_info c = fst j \<longrightarrow>
     snd j = On_Timeout (ic_fd c) (ic_event c) \<and> (\<exists>t0. ic_since c = Some t0 \<and> unat t0 + unat (ic_to c) \<le> d))"

text \<open>What can make a call time out, and when: a timer, a callback among the tasks, the flag.\<close>

definition timer_ref :: "cond_cb timer_manager \<Rightarrow> cond_cb \<Rightarrow> nat \<Rightarrow> bool" where
  "timer_ref tm j d \<longleftrightarrow> (\<exists>a t. tm_heap tm a = Some t \<and> tmr_cb t = Some j \<and> d = unat (tmr_next t))"

definition ref_ok :: "runtime \<Rightarrow> cond_cb \<Rightarrow> nat \<Rightarrow> bool" where
  "ref_ok s j d \<longleftrightarrow> fst j < rt_fresh s \<and> due_by (rt_calls s) j d"

definition time_inv :: "runtime \<Rightarrow> bool" where
  "time_inv s \<longleftrightarrow>
     (\<forall>i d. timer_ref (rt_tm s) i d \<longrightarrow> ref_ok s i d) \<and>
     (\<forall>a t. tm_heap (rt_tm s) a = Some t \<longrightarrow> \<not> tmr_recurring t) \<and>
     (\<forall>j. ScheduleTask None (Some j) (- 1) \<in> set (rt_tasks s) \<longrightarrow> ref_ok s j (unat (rt_now s))) \<and>
     (\<forall>i e. rt_infos s i = Some e \<longrightarrow> e = 0 \<or> e = ETIMEDOUT \<and> (\<exists>cb. ref_ok s (i, cb) (unat (rt_now s)))) \<and>
     (\<forall>f c. rt_calls s f = Some c \<longrightarrow> ic_info c < rt_fresh s \<and> rt_infos s (ic_info c) \<noteq> None \<and>
        (\<forall>t0. ic_since c = Some t0 \<longrightarrow> t0 \<le> rt_now s)) \<and>
     (\<forall>f g c d. rt_calls s f = Some c \<longrightarrow> rt_calls s g = Some d \<longrightarrow> ic_info c = ic_info d \<longrightarrow> f = g) \<and>
     (\<forall>f c e t. (f, c, Cancelled e, t) \<in> set (rt_results s) \<longrightarrow> e = ETIMEDOUT \<and>
        (\<exists>t0. ic_since c = Some t0 \<and> unat t0 + unat (ic_to c) \<le> unat t))"

lemma due_by_mono: "due_by calls i d \<Longrightarrow> d \<le> d' \<Longrightarrow> due_by calls i d'"
  unfolding due_by_def by (blast intro: order_trans)

lemma due_by_remove: "due_by calls i d \<Longrightarrow> due_by (calls(f := None)) i d"
  by (auto simp: due_by_def)

lemma due_by_new: "due_by calls i d \<Longrightarrow> ic_info c \<noteq> fst i \<Longrightarrow> due_by (calls(f \<mapsto> c)) i d"
  by (auto simp: due_by_def)

lemma due_by_upd:
  assumes "due_by calls j d" "calls f = Some c" "key c' = key c" "ic_info c' = ic_info c" "ic_to c' = ic_to c" "ic_since c \<noteq> None \<Longrightarrow> ic_since c' = ic_since c"
  shows "due_by (calls(f \<mapsto> c')) j d"
proof (cases "ic_info c = fst j")
  case True
  then obtain t0 where t0: "ic_since c = Some t0" "unat t0 + unat (ic_to c) \<le> d" "snd j = On_Timeout (ic_fd c) (ic_event c)"
    using assms(1, 2) by (auto simp: due_by_def)
  then have c': "ic_since c' = Some t0" "unat t0 + unat (ic_to c') \<le> d" "snd j = On_Timeout (ic_fd c') (ic_event c')"
    using assms(3, 5, 6) by (auto simp: key_def)
  show ?thesis
    unfolding due_by_def
  proof (intro allI impI)
    fix g x
    assume g: "(calls(f \<mapsto> c')) g = Some x" "ic_info x = fst j"
    show "snd j = On_Timeout (ic_fd x) (ic_event x) \<and> (\<exists>t0. ic_since x = Some t0 \<and> unat t0 + unat (ic_to x) \<le> d)"
    proof (cases "g = f")
      case True
      then show ?thesis using g c' by simp
    next
      case False
      then have "calls g = Some x" using g by simp
      with assms(1) g(2) show ?thesis unfolding due_by_def by blast
    qed
  qed
next
  case False
  then show ?thesis using assms(1, 4) by (intro due_by_new) simp_all
qed

text \<open>The references that are left when timers are cancelled, and the ones expiry turns into tasks.\<close>

lemma timer_ref_cancel:
  assumes "tm_ok tm" "cancel_timer tm timer = Inr tm'"
  shows "timer_ref tm' i d \<Longrightarrow> timer_ref tm i d" "tm_heap tm' a = Some t' \<Longrightarrow> \<exists>t. tm_heap tm a = Some t \<and> tmr_recurring t' = tmr_recurring t"
proof -
  have *: "tm_heap tm' = tm_heap tm \<or> (\<exists>b t. tm_heap tm b = Some t \<and> tm_heap tm' = (tm_heap tm)(b \<mapsto> t\<lparr>tmr_cb := None\<rparr>))"
  proof (cases timer)
    case (Some b)
    then obtain r where r: "Cancel tm b = Inr (r, tm')" using assms(2) by (auto simp: cancel_timer_def result_simps)
    then obtain t where "tm_heap tm b = Some t" by (auto simp: Cancel_def split: option.splits)
    with Cancel_cases [OF assms(1) this] r show ?thesis by auto
  qed (use assms(2) in \<open>simp add: cancel_timer_def\<close>)
  then show "timer_ref tm' i d \<Longrightarrow> timer_ref tm i d" "tm_heap tm' a = Some t' \<Longrightarrow> \<exists>t. tm_heap tm a = Some t \<and> tmr_recurring t' = tmr_recurring t"
    by (auto simp: timer_ref_def split: if_splits) blast+
qed

lemma timer_ref_add:
  assumes "tm' = fst (AddConditionTimer tm a now ms cb i0 False)"
  shows "timer_ref tm' i d \<Longrightarrow> timer_ref tm i d \<or> i = (i0, cb) \<and> d = unat (now + ms)"
    "tm_heap tm' b = Some t \<Longrightarrow> \<not> tmr_recurring t \<or> tm_heap tm b = Some t"
proof -
  have "tm_heap tm' = (tm_heap tm)(a \<mapsto> Timer now ms (Some (i0, cb)) False)"
    unfolding assms AddConditionTimer_def AddTimer_def AddTimer_locked_def Let_def by simp
  then show "timer_ref tm' i d \<Longrightarrow> timer_ref tm i d \<or> i = (i0, cb) \<and> d = unat (now + ms)"
    "tm_heap tm' b = Some t \<Longrightarrow> \<not> tmr_recurring t \<or> tm_heap tm b = Some t"
    unfolding timer_ref_def Timer_def by (auto split: if_splits)
qed

lemma timer_ref_expire:
  assumes "tm_ok tm" "tm_heap tm a = None" "\<not> fst (DetectClockRollover tm now)" "ListExpiredCb tm a now [] = (tm', cbs)"
    "\<And>b t. tm_heap tm b = Some t \<Longrightarrow> \<not> tmr_recurring t"
  shows "timer_ref tm' i d \<Longrightarrow> timer_ref tm i d" "tm_heap tm' b = Some t' \<Longrightarrow> \<not> tmr_recurring t'"
    "Some j \<in> set cbs \<Longrightarrow> \<exists>d. timer_ref tm j d \<and> d \<le> unat now"
proof -
  let ?due = "filter (\<lambda>b. deadline (tm_heap tm) b \<le> now) (tm_timers tm)"
  from ListExpiredCb_ok [OF assms(1-3), of "[]"] assms(4) have
    tm': "cbs = map (\<lambda>b. tmr_cb (the (tm_heap tm b))) ?due"
      "tm_heap tm' = (\<lambda>b. if b \<in> set ?due then map_option (fired now) (tm_heap tm b) else tm_heap tm b)" by auto
  have f: "\<not> tmr_recurring t \<Longrightarrow> fired now t = t\<lparr>tmr_cb := None\<rparr>" for t :: "cond_cb timer" by (simp add: fired_def)
  show "timer_ref tm' i d \<Longrightarrow> timer_ref tm i d"
    unfolding timer_ref_def tm'(2) using assms(5) by (auto simp: f split: if_splits)
  show "tm_heap tm' b = Some t' \<Longrightarrow> \<not> tmr_recurring t'" using assms(5) unfolding tm'(2) by (auto simp: f split: if_splits)
  assume "Some j \<in> set cbs"
  then obtain b where b: "b \<in> set (tm_timers tm)" "deadline (tm_heap tm) b \<le> now" "tmr_cb (the (tm_heap tm b)) = Some j"
    unfolding tm'(1) by auto
  with tm_okD(2) [OF assms(1), of b] obtain t where "tm_heap tm b = Some t" by auto
  with b show "\<exists>d. timer_ref tm j d \<and> d \<le> unat now" by (auto simp: timer_ref_def deadline_def word_le_nat_alt intro!: exI)
qed

definition cb_task :: "cond_cb \<Rightarrow> cond_cb schedule_task" where
  "cb_task j = ScheduleTask None (Some j) (- 1)"

lemma time_invD:
  assumes "time_inv s"
  shows "timer_ref (rt_tm s) j d \<Longrightarrow> ref_ok s j d" "tm_heap (rt_tm s) a = Some t \<Longrightarrow> \<not> tmr_recurring t"
    "cb_task j \<in> set (rt_tasks s) \<Longrightarrow> ref_ok s j (unat (rt_now s))"
    "rt_infos s i = Some e \<Longrightarrow> e = 0 \<or> e = ETIMEDOUT \<and> (\<exists>cb. ref_ok s (i, cb) (unat (rt_now s)))"
    "rt_calls s f = Some c \<Longrightarrow> ic_info c < rt_fresh s \<and> rt_infos s (ic_info c) \<noteq> None"
    "rt_calls s f = Some c \<Longrightarrow> ic_since c = Some t0 \<Longrightarrow> t0 \<le> rt_now s"
    "rt_calls s f = Some c \<Longrightarrow> rt_calls s g = Some d' \<Longrightarrow> ic_info c = ic_info d' \<Longrightarrow> f = g"
    "(f, c, Cancelled e, t1) \<in> set (rt_results s) \<Longrightarrow> e = ETIMEDOUT \<and> (\<exists>t0. ic_since c = Some t0 \<and> unat t0 + unat (ic_to c) \<le> unat t1)"
  using assms unfolding time_inv_def cb_task_def by blast+

lemma time_invI:
  assumes "\<And>i d. timer_ref (rt_tm s) i d \<Longrightarrow> ref_ok s i d" "\<And>a t. tm_heap (rt_tm s) a = Some t \<Longrightarrow> \<not> tmr_recurring t"
    "\<And>j. cb_task j \<in> set (rt_tasks s) \<Longrightarrow> ref_ok s j (unat (rt_now s))"
    "\<And>i e. rt_infos s i = Some e \<Longrightarrow> e = 0 \<or> e = ETIMEDOUT \<and> (\<exists>cb. ref_ok s (i, cb) (unat (rt_now s)))"
    "\<And>f c. rt_calls s f = Some c \<Longrightarrow> ic_info c < rt_fresh s \<and> rt_infos s (ic_info c) \<noteq> None"
    "\<And>f c t0. rt_calls s f = Some c \<Longrightarrow> ic_since c = Some t0 \<Longrightarrow> t0 \<le> rt_now s"
    "\<And>f g c d. rt_calls s f = Some c \<Longrightarrow> rt_calls s g = Some d \<Longrightarrow> ic_info c = ic_info d \<Longrightarrow> f = g"
    "\<And>f c e t. (f, c, Cancelled e, t) \<in> set (rt_results s) \<Longrightarrow> e = ETIMEDOUT \<and> (\<exists>t0. ic_since c = Some t0 \<and> unat t0 + unat (ic_to c) \<le> unat t)"
  shows "time_inv s"
  using assms unfolding time_inv_def cb_task_def by blast

lemma ref_ok_mono: "ref_ok s i d \<Longrightarrow> d \<le> d' \<Longrightarrow> ref_ok s i d'"
  by (auto simp: ref_ok_def intro: due_by_mono)

text \<open>The steps by what they change: one call, the end of a call, and everything else.\<close>

lemma time_inv_upd:
  assumes inv: "time_inv s" and c: "rt_calls s f = Some c" "rt_calls s' = (rt_calls s)(f \<mapsto> c')" "ic_info c' = ic_info c" "ic_to c' = ic_to c" "key c' = key c"
      "ic_since c \<noteq> None \<Longrightarrow> ic_since c' = ic_since c" "\<And>t0. ic_since c' = Some t0 \<Longrightarrow> t0 \<le> rt_now s'"
    and same: "rt_infos s' = rt_infos s" "rt_fresh s' = rt_fresh s" "rt_results s' = rt_results s" "rt_now s \<le> rt_now s'"
      "set (rt_tasks s') \<subseteq> set (rt_tasks s)" "\<And>a t. tm_heap (rt_tm s') a = Some t \<Longrightarrow> \<not> tmr_recurring t"
    and timers: "\<And>i d. timer_ref (rt_tm s') i d \<Longrightarrow> timer_ref (rt_tm s) i d \<or>
      i = (ic_info c, On_Timeout (ic_fd c) (ic_event c)) \<and> (\<exists>t0. ic_since c' = Some t0 \<and> unat t0 + unat (ic_to c) \<le> d)"
  shows "time_inv s'"
proof -
  have now: "unat (rt_now s) \<le> unat (rt_now s')" using same(4) by (simp add: word_le_nat_alt)
  have ref: "ref_ok s' i d'" if r: "ref_ok s i d" "d \<le> d'" for i d d'
  proof -
    have "due_by (rt_calls s) i d" using r(1) by (simp add: ref_ok_def)
    from due_by_upd [where f = f and c = c and c' = c', OF this c(1, 5, 3, 4)] c(6) have "due_by (rt_calls s') i d" by (simp add: c(2))
    with r same(2) show ?thesis by (auto simp: ref_ok_def intro: due_by_mono)
  qed
  show ?thesis
  proof (rule time_invI)
    fix i d
    assume "timer_ref (rt_tm s') i d"
    then show "ref_ok s' i d"
    proof (rule timers [THEN disjE])
      assume "timer_ref (rt_tm s) i d"
      then show ?thesis using time_invD(1) [OF inv] ref by blast
    next
      assume i: "i = (ic_info c, On_Timeout (ic_fd c) (ic_event c)) \<and> (\<exists>t0. ic_since c' = Some t0 \<and> unat t0 + unat (ic_to c) \<le> d)"
      have "g = f" if "rt_calls s g = Some x" "ic_info x = ic_info c" for g x using time_invD(7) [OF inv that(1) c(1) that(2)] .
      with i time_invD(5) [OF inv c(1)] same(2) c(5) show ?thesis by (auto simp: ref_ok_def due_by_def c(2-4) key_def)
    qed
  next
    fix j
    assume "cb_task j \<in> set (rt_tasks s')"
    then show "ref_ok s' j (unat (rt_now s'))" using same(5) time_invD(3) [OF inv] ref now by blast
  next
    fix i e
    assume "rt_infos s' i = Some e"
    then show "e = 0 \<or> e = ETIMEDOUT \<and> (\<exists>cb. ref_ok s' (i, cb) (unat (rt_now s')))" using same(1) time_invD(4) [OF inv] ref now by metis
  next
    fix g x
    assume "rt_calls s' g = Some x"
    then show "ic_info x < rt_fresh s' \<and> rt_infos s' (ic_info x) \<noteq> None"
      using time_invD(5) [OF inv] c(1, 3) same(1, 2) by (auto simp: c(2) split: if_splits)
  next
    fix g x t0
    assume "rt_calls s' g = Some x" "ic_since x = Some t0"
    then show "t0 \<le> rt_now s'"
      using c(7) time_invD(6) [OF inv] same(4) order_trans by (fastforce simp: c(2) split: if_splits)
  next
    fix g h x y
    assume "rt_calls s' g = Some x" "rt_calls s' h = Some y" "ic_info x = ic_info y"
    then show "g = h" using time_invD(7) [OF inv] c(1, 3) by (auto simp: c(2) split: if_splits)
  qed (use same(3, 6) time_invD(8) [OF inv] in auto)
qed

lemma time_inv_finish:
  assumes inv: "time_inv s" and c: "rt_calls s f = Some c" "\<And>e. r = Cancelled e \<Longrightarrow> e \<noteq> 0 \<and> rt_infos s (ic_info c) = Some e"
    and timers: "\<And>i d. timer_ref tm' i d \<Longrightarrow> timer_ref (rt_tm s) i d" "\<And>a t. tm_heap tm' a = Some t \<Longrightarrow> \<not> tmr_recurring t"
  shows "time_inv (finish f c r (s\<lparr>rt_io := io', rt_tm := tm'\<rparr>))"
proof -
  let ?s = "finish f c r (s\<lparr>rt_io := io', rt_tm := tm'\<rparr>)"
  have ref: "ref_ok ?s i d" if "ref_ok s i d" for i d using that due_by_remove by (simp add: ref_ok_def finish_def)
  show ?thesis
  proof (rule time_invI)
    fix g x e t
    assume "(g, x, Cancelled e, t) \<in> set (rt_results ?s)"
    then consider "(g, x, Cancelled e, t) \<in> set (rt_results s)" | "x = c" "r = Cancelled e" "t = rt_now s" by (auto simp: finish_def)
    then show "e = ETIMEDOUT \<and> (\<exists>t0. ic_since x = Some t0 \<and> unat t0 + unat (ic_to x) \<le> unat t)"
    proof cases
      case 2
      with c(2) [of e] time_invD(4) [OF inv, of "ic_info c" e] have "e = ETIMEDOUT" "\<exists>cb. ref_ok s (ic_info c, cb) (unat (rt_now s))" by auto
      with c(1) 2 show ?thesis by (auto simp: ref_ok_def due_by_def)
    qed (rule time_invD(8) [OF inv])
  next
    fix i e
    assume "rt_infos ?s i = Some e"
    then show "e = 0 \<or> e = ETIMEDOUT \<and> (\<exists>cb. ref_ok ?s (i, cb) (unat (rt_now ?s)))"
      using time_invD(4) [OF inv, of i e] ref by (auto simp: finish_def split: if_splits)
  next
    fix g x
    assume "rt_calls ?s g = Some x"
    then have "g \<noteq> f" "rt_calls s g = Some x" by (auto simp: finish_def split: if_splits)
    then show "ic_info x < rt_fresh ?s \<and> rt_infos ?s (ic_info x) \<noteq> None"
      using time_invD(5) [OF inv, of g x] time_invD(7) [OF inv, of g x f c] c(1) by (auto simp: finish_def)
  next
    fix i d
    assume "timer_ref (rt_tm ?s) i d"
    then show "ref_ok ?s i d" using timers(1) time_invD(1) [OF inv] ref by (simp add: finish_def)
  next
    fix j
    assume "cb_task j \<in> set (rt_tasks ?s)"
    then show "ref_ok ?s j (unat (rt_now ?s))" using time_invD(3) [OF inv] ref by (simp add: finish_def)
  next
    fix g h x y
    assume "rt_calls ?s g = Some x" "rt_calls ?s h = Some y" "ic_info x = ic_info y"
    then show "g = h" using time_invD(7) [OF inv] by (auto simp: finish_def split: if_splits)
  next
    fix a t
    assume "tm_heap (rt_tm ?s) a = Some t"
    then show "\<not> tmr_recurring t" using timers(2) by (simp add: finish_def)
  next
    fix g x t0
    assume "rt_calls ?s g = Some x" "ic_since x = Some t0"
    then show "t0 \<le> rt_now ?s" using time_invD(6) [OF inv] by (auto simp: finish_def split: if_splits)
  qed
qed

lemma time_inv_env:
  assumes inv: "time_inv s" and same: "rt_calls s' = rt_calls s" "rt_fresh s' = rt_fresh s" "rt_results s' = rt_results s" "rt_now s \<le> rt_now s'"
    and infos: "\<And>i. rt_infos s' i = rt_infos s i \<or>
      rt_infos s i \<noteq> None \<and> rt_infos s' i = Some ETIMEDOUT \<and> (\<exists>cb. ref_ok s (i, cb) (unat (rt_now s')))"
    and tasks: "\<And>j. cb_task j \<in> set (rt_tasks s') \<Longrightarrow> cb_task j \<in> set (rt_tasks s) \<or>
      (\<exists>d. timer_ref (rt_tm s) j d \<and> d \<le> unat (rt_now s'))"
    and timers: "\<And>i d. timer_ref (rt_tm s') i d \<Longrightarrow> timer_ref (rt_tm s) i d" "\<And>a t. tm_heap (rt_tm s') a = Some t \<Longrightarrow> \<not> tmr_recurring t"
  shows "time_inv s'"
proof -
  have now: "unat (rt_now s) \<le> unat (rt_now s')" using same(4) by (simp add: word_le_nat_alt)
  have ref: "ref_ok s' = ref_ok s" using same(1, 2) by (intro ext) (simp add: ref_ok_def)
  show ?thesis
  proof (rule time_invI)
    fix j
    assume "cb_task j \<in> set (rt_tasks s')"
    then show "ref_ok s' j (unat (rt_now s'))"
      unfolding ref using tasks time_invD(1, 3) [OF inv] ref_ok_mono now by blast
  next
    fix i e
    assume "rt_infos s' i = Some e"
    then show "e = 0 \<or> e = ETIMEDOUT \<and> (\<exists>cb. ref_ok s' (i, cb) (unat (rt_now s')))"
      unfolding ref using infos [of i] time_invD(4) [OF inv, of i e] ref_ok_mono [OF _ now] by (metis option.inject)
  next
    fix f c
    assume "rt_calls s' f = Some c"
    then show "ic_info c < rt_fresh s' \<and> rt_infos s' (ic_info c) \<noteq> None"
      using time_invD(5) [OF inv, of f c] infos [of "ic_info c"] same(1, 2) by auto
  next
    fix f c t0
    assume "rt_calls s' f = Some c" "ic_since c = Some t0"
    then show "t0 \<le> rt_now s'" using time_invD(6) [OF inv, of f c t0] same(1, 4) by simp
  qed (use timers time_invD(1, 7, 8) [OF inv] in \<open>simp_all add: ref same(1, 3)\<close>)
qed

lemma time_inv_wakes:
  assumes "time_inv s" "wake_inv s" "wakes (io_view (rt_io s)) view' ks ws"
  shows "time_inv (enqueue (map snd ws) (s\<lparr>rt_io := io', rt_cancels := cs\<rparr>))"
proof -
  have "entries_ok (io_view (rt_io s)) (rt_calls s)" using assms(2) by (simp add: wake_inv_def)
  from due_after_wakes(2) [OF this assms(3)] have "cb_task j \<notin> set (map snd ws)" for j
    by (auto simp: list_all_iff cb_task_def)
  then show ?thesis
    by - (rule time_inv_env [OF assms(1)], auto simp: enqueue_def dest: time_invD(2) [OF assms(1)])
qed

text \<open>Steps of one call that leave its key, its object and its history of waiting as they are.\<close>

lemma time_inv_set_call:
  assumes "time_inv s" "rt_calls s f = Some c" "ic_info c' = ic_info c" "ic_to c' = ic_to c" "key c' = key c" "ic_since c' = ic_since c"
    "rt_calls s1 = rt_calls s" "rt_infos s1 = rt_infos s" "rt_fresh s1 = rt_fresh s" "rt_results s1 = rt_results s" "rt_now s1 = rt_now s"
    "set (rt_tasks s1) \<subseteq> set (rt_tasks s)" "rt_tm s1 = rt_tm s \<or> tm_ok (rt_tm s) \<and> (\<exists>timer. cancel_timer (rt_tm s) timer = Inr (rt_tm s1))"
  shows "time_inv (set_call f c' s1)"
proof -
  have tm: "timer_ref (rt_tm s1) i d \<Longrightarrow> timer_ref (rt_tm s) i d" "tm_heap (rt_tm s1) a = Some t \<Longrightarrow> \<not> tmr_recurring t" for i d a t
    using assms(13) timer_ref_cancel time_invD(2) [OF assms(1)] by (metis, metis)
  show ?thesis
    by (rule time_inv_upd [OF assms(1, 2), where c' = c'])
      (use assms(3-12) tm time_invD(6) [OF assms(1, 2)] in \<open>auto simp: set_call_def\<close>)
qed

lemma time_inv_begin:
  assumes "time_inv s" "rt_calls s f = None" "info = rt_fresh s"
  shows "time_inv (set_call f (new_call connect fd ev to info) (s\<lparr>rt_infos := (rt_infos s)(info \<mapsto> 0), rt_fresh := Suc info\<rparr>))"
    (is "time_inv ?s")
proof -
  have ref: "ref_ok s j d \<Longrightarrow> ref_ok ?s j d" for j d using assms(3) by (auto simp: ref_ok_def set_call_def new_call_def intro!: due_by_new)
  show ?thesis
  proof (rule time_invI, goal_cases)
    case (1 i d)
    then show ?case using time_invD(1) [OF assms(1)] by (intro ref) (simp add: set_call_def)
  next
    case (3 j)
    then show ?case using ref [OF time_invD(3) [OF assms(1), of j]] by (simp add: set_call_def)
  next
    case (4 i e)
    then have "e = 0 \<or> e = ETIMEDOUT \<and> (\<exists>cb. ref_ok s (i, cb) (unat (rt_now s)))"
      using time_invD(4) [OF assms(1), of i e] by (auto simp: set_call_def split: if_splits)
    then show ?case using ref by (auto simp: set_call_def)
  next
    case (5 g x)
    then show ?case using time_invD(5) [OF assms(1), of g x] assms(3) by (auto simp: set_call_def new_call_def split: if_splits)
  next
    case (6 g x t0)
    then show ?case using time_invD(6) [OF assms(1), of g x t0] by (auto simp: set_call_def new_call_def split: if_splits)
  next
    case (7 g h x y)
    then show ?case using time_invD(5, 7) [OF assms(1)] assms(3) by (fastforce simp: set_call_def new_call_def split: if_splits)
  qed (use time_invD(2, 8) [OF assms(1)] in \<open>auto simp: set_call_def\<close>)
qed

lemma time_inv_arm:
  assumes inv: "time_inv s" and c: "rt_calls s f = Some c" and now: "rt_now s \<le> now" "unat now + unat (ic_to c) < 2 ^ 64"
  shows "time_inv (set_call f (c\<lparr>ic_place := Registering, ic_timer := Some a,
        ic_since := (case ic_since c of None \<Rightarrow> Some now | Some t \<Rightarrow> Some t)\<rparr>)
      (s\<lparr>rt_now := now, rt_tm := fst (AddConditionTimer (rt_tm s) a now (ic_to c) (On_Timeout (ic_fd c) (ic_event c)) (ic_info c) False)\<rparr>))"
proof -
  let ?c = "c\<lparr>ic_place := Registering, ic_timer := Some a, ic_since := (case ic_since c of None \<Rightarrow> Some now | Some t \<Rightarrow> Some t)\<rparr>"
  have since: "t0 \<le> now" if "ic_since ?c = Some t0" for t0
    using that time_invD(6) [OF inv c] now(1) by (auto split: option.splits)
  obtain t1 where t1: "ic_since ?c = Some t1" by (cases "ic_since c") auto
  have "unat (now + ic_to c) = unat now + unat (ic_to c)" using now(2) by (subst unat_plus_if') simp
  moreover have "unat t1 \<le> unat now" using since [OF t1] by (simp add: word_le_nat_alt)
  ultimately have d: "unat t1 + unat (ic_to c) \<le> unat (now + ic_to c)" by simp
  define tm' where "tm' = fst (AddConditionTimer (rt_tm s) a now (ic_to c) (On_Timeout (ic_fd c) (ic_event c)) (ic_info c) False)"
  note ta = timer_ref_add [OF tm'_def]
  have n: "\<not> tmr_recurring t" if "tm_heap tm' b = Some t" for b t using ta(2) [OF that] time_invD(2) [OF inv] by blast
  have r: "timer_ref (rt_tm s) i e \<or> i = (ic_info c, On_Timeout (ic_fd c) (ic_event c)) \<and> (\<exists>t0. ic_since ?c = Some t0 \<and> unat t0 + unat (ic_to c) \<le> e)"
    if "timer_ref tm' i e" for i e using ta(1) [OF that] t1 d by blast
  show ?thesis unfolding tm'_def [symmetric]
    by (rule time_inv_upd [OF inv c, of _ ?c], simp_all only: set_call_def runtime.simps runtime.update_convs)
      (use n r since now(1) in \<open>auto split: option.splits\<close>)
qed

lemma time_inv_timeout:
  assumes "time_inv s" "list_all task_ok (rt_tasks s)" "pick tid (fiber_state s) (rt_tasks s) False = Inr (Some t, ts, tk)"
    "st_cb t = Some (info, On_Timeout fd ev)"
  shows "time_inv (run_timeout info fd ev (s\<lparr>rt_tasks := ts\<rparr>))"
proof -
  from pick_task [OF assms(2, 3)] obtain us vs where ts: "rt_tasks s = us @ t # vs" "ts = us @ vs" "task_ok t" by blast
  have "t = cb_task (info, On_Timeout fd ev)" using task_okD(2) [OF ts(3) assms(4)] by (simp add: cb_task_def)
  then have r: "ref_ok s (info, On_Timeout fd ev) (unat (rt_now s))" using time_invD(3) [OF assms(1), of "(info, On_Timeout fd ev)"] ts(1) by simp
  show ?thesis
    by (rule time_inv_env [OF assms(1)])
      (use ts(1, 2) r time_invD(2) [OF assms(1)] in \<open>auto simp: run_timeout_def OnTimer_def on_timeout_def split: option.splits if_splits\<close>)
qed

lemma time_inv_return:
  assumes "time_inv s" "rt_calls s f = Some c" "\<And>e. r = Cancelled e \<Longrightarrow> e \<noteq> 0 \<and> rt_infos s (ic_info c) = Some e"
    "rt_tm s1 = rt_tm s \<or> tm_ok (rt_tm s) \<and> (\<exists>timer. cancel_timer (rt_tm s) timer = Inr (rt_tm s1))" "s1 = s\<lparr>rt_io := rt_io s1, rt_tm := rt_tm s1\<rparr>"
  shows "time_inv (finish f c r s1)"
proof -
  have tm: "timer_ref (rt_tm s1) i d \<Longrightarrow> timer_ref (rt_tm s) i d" "tm_heap (rt_tm s1) a = Some t \<Longrightarrow> \<not> tmr_recurring t" for i d a t
    using assms(4) timer_ref_cancel time_invD(2) [OF assms(1)] by (metis, metis)
  show ?thesis by (subst assms(5)) (rule time_inv_finish [OF assms(1-3) tm])
qed

lemma time_inv_step:
  assumes "rt_step s s'" "wake_inv s" "time_inv s"
  shows "time_inv s'"
proof -
  have ok: "tm_ok (rt_tm s)" "io_wf (rt_io s)" "list_all task_ok (rt_tasks s)" "list_all (is_event \<circ> snd) (rt_cancels s)"
    using assms(2) by (auto simp: wake_inv_def timers_ok_def)
  note move = time_inv_set_call [OF assms(3)] and return = time_inv_return [OF assms(3)]
  show ?thesis
    using assms(1)
  proof cases
    case (begin_call f fd ev info connect to)
    then show ?thesis using time_inv_begin [OF assms(3)] by simp
  next
    case (arm f c a now)
    then show ?thesis using time_inv_arm [OF assms(3)] by simp
  next
    case (resume tid t ts tickle f c)
    show ?thesis unfolding resume(1) by (rule move [OF resume(4)]) (use pick_task(1) [OF ok(3) resume(2)] in auto)
  next
    case (retry f c tm')
    show ?thesis unfolding retry(1) by (rule move [OF retry(2)]) (use ok(1) retry(4) in auto)
  next
    case (register_fails f c ectl rt io' tm' soerr errno)
    show ?thesis unfolding register_fails(1) by (rule return [OF register_fails(2)]) (use ok(1) register_fails(6) in \<open>auto split: if_splits\<close>)
  next
    case (return_cancelled f c tm' e)
    show ?thesis unfolding return_cancelled(1) by (rule return [OF return_cancelled(2)]) (use ok(1) return_cancelled(4-6) in auto)
  next
    case (connected f c tm' soerr errno)
    show ?thesis unfolding connected(1) by (rule return [OF connected(2)]) (use ok(1) connected(4) in auto)
  next
    case (expire now now_addr tm' cbs)
    note t = timer_ref_expire [OF ok(1) expire(3-5) time_invD(2) [OF assms(3)]]
    show ?thesis unfolding expire
      by (rule time_inv_env [OF assms(3)]) (use expire(2) t in \<open>auto simp: enqueue_def cb_task_def ScheduleTask_def\<close>)
  next
    case (timeout tid t ts tickle info fd ev)
    show ?thesis unfolding timeout(1) by (rule time_inv_timeout [OF assms(3) ok(3) timeout(2, 3)])
  next
    case (cancel_event fd ev ectl b io' ws)
    have "is_event ev" using ok(4) cancel_event(2) by (auto simp: list_all_iff)
    from io.cancel_wakes [OF ok(2) this cancel_event(3)] time_inv_wakes [OF assms(3, 2)] show ?thesis unfolding cancel_event by blast
  next
    case (report fd reported ectl io' ws)
    from io.report_wakes [OF ok(2) report(2, 3)] time_inv_wakes [OF assms(3, 2), where ws = ws and io' = io' and cs = "rt_cancels s"] show ?thesis
      unfolding report by auto
  next
    case (close_fd ectl fd b io' ws)
    from io.cancel_all_wakes [OF ok(2) close_fd(2)] time_inv_wakes [OF assms(3, 2), where ws = ws and io' = io' and cs = "rt_cancels s"] show ?thesis
      unfolding close_fd by auto
  qed (auto intro: move return)
qed

lemma rt_reachable_time: "rt_reachable s \<Longrightarrow> time_inv s"
proof (induction rule: rt_reachable.induct)
  case (start now)
  show ?case by (simp add: time_inv_def runtime_start_def timer_ref_def TimerManager_def)
next
  case (step s s')
  then show ?case using time_inv_step rt_reachable_inv by blast
qed

end
