(* ===== verification/Blocking_Progress.thy ===== *)
theory Blocking_Progress
  imports Blocking_IO
begin

text \<open>
  What the blocking calls of \<open>Blocking_IO\<close> can still do from a reachable state: a fiber that waits can be resumed, and a call whose timeout
  has not been used up can time out. Both rest on an invariant of the timers and on a lemma that the workers reach every task of the list.
\<close>

section \<open>The timer of a waiting call\<close>

definition job :: "io_call \<Rightarrow> cond_cb" where
  "job c = (ic_info c, On_Timeout (ic_fd c) (ic_event c))"

lemma job_update [simp]: "job (c\<lparr>ic_place := p\<rparr>) = job c" "job (c\<lparr>ic_timer := a\<rparr>) = job c" "job (c\<lparr>ic_since := t\<rparr>) = job c"
    "job (c\<lparr>ic_calls := cs\<rparr>) = job c" "job (c\<lparr>ic_waits := ws\<rparr>) = job c"
  by (simp_all add: job_def)

definition pending_timer :: "cond_cb timer_manager \<Rightarrow> io_call \<Rightarrow> bool" where
  "pending_timer tm c \<longleftrightarrow> (\<exists>a t. ic_timer c = Some a \<and> a \<in> set (tm_timers tm) \<and> tm_heap tm a = Some t \<and> tmr_cb t = Some (job c))"

text \<open>The timer is pending, or its callback is among the tasks, or the callback has run.\<close>

definition pledged :: "runtime \<Rightarrow> io_call \<Rightarrow> bool" where
  "pledged s c \<longleftrightarrow> pending_timer (rt_tm s) c \<or> cb_task (job c) \<in> set (rt_tasks s) \<or> rt_infos s (ic_info c) \<noteq> Some 0"

definition needs_timer :: "io_call \<Rightarrow> bool" where
  "needs_timer c \<longleftrightarrow> ic_to c \<noteq> - 1 \<and> (ic_place c = Registering \<or> waiting c)"

definition timer_known :: "cond_cb timer_manager \<Rightarrow> io_call \<Rightarrow> bool" where
  "timer_known tm c \<longleftrightarrow> (case ic_timer c of None \<Rightarrow> True | Some a \<Rightarrow> tm_heap tm a \<noteq> None)"

definition arm_inv :: "runtime \<Rightarrow> bool" where
  "arm_inv s \<longleftrightarrow>
     (\<forall>f c. rt_calls s f = Some c \<longrightarrow> timer_known (rt_tm s) c \<and> (needs_timer c \<longrightarrow> pledged s c)) \<and>
     (\<forall>f g c d a. rt_calls s f = Some c \<longrightarrow> rt_calls s g = Some d \<longrightarrow> ic_timer c = Some a \<longrightarrow> ic_timer d = Some a \<longrightarrow> f = g)"

lemma arm_invD:
  assumes "arm_inv s" "rt_calls s f = Some c"
  shows "timer_known (rt_tm s) c" "needs_timer c \<Longrightarrow> pledged s c" "rt_calls s g = Some d \<Longrightarrow> ic_timer c = Some a \<Longrightarrow> ic_timer d = Some a \<Longrightarrow> f = g"
  using assms unfolding arm_inv_def by blast+

text \<open>A step that changes at most one call keeps the invariant if it keeps the timers of the others.\<close>

lemma arm_inv_frame:
  assumes inv: "arm_inv s" and calls: "rt_calls s' = (rt_calls s)(f := v)"
    and others: "\<And>g c. g \<noteq> f \<Longrightarrow> rt_calls s g = Some c \<Longrightarrow> timer_known (rt_tm s) c \<Longrightarrow> timer_known (rt_tm s') c"
      "\<And>g c. g \<noteq> f \<Longrightarrow> rt_calls s g = Some c \<Longrightarrow> pledged s c \<Longrightarrow> pledged s' c"
    and own: "\<And>c. v = Some c \<Longrightarrow> timer_known (rt_tm s') c" "\<And>c. v = Some c \<Longrightarrow> needs_timer c \<Longrightarrow> pledged s' c"
      "\<And>c a g d. v = Some c \<Longrightarrow> ic_timer c = Some a \<Longrightarrow> g \<noteq> f \<Longrightarrow> rt_calls s g = Some d \<Longrightarrow> ic_timer d \<noteq> Some a"
  shows "arm_inv s'"
  unfolding arm_inv_def
proof (intro conjI allI impI)
  fix g c
  assume g: "rt_calls s' g = Some c"
  show "timer_known (rt_tm s') c"
    using g others(1) [of g c] own(1) [of c] arm_invD(1) [OF inv, of g c] by (cases "g = f") (auto simp: calls)
  show "pledged s' c" if "needs_timer c"
    using g that others(2) [of g c] own(2) [of c] arm_invD(2) [OF inv, of g c] by (cases "g = f") (auto simp: calls)
next
  fix g h c d a
  assume g: "rt_calls s' g = Some c" "rt_calls s' h = Some d" "ic_timer c = Some a" "ic_timer d = Some a"
  show "g = h"
  proof (cases "g = f \<or> h = f")
    case True
    then show ?thesis using g own(3) by (metis calls fun_upd_apply)
  next
    case False
    then show ?thesis using g arm_invD(3) [OF inv, of g c h d a] by (simp add: calls)
  qed
qed

text \<open>A step of one call that leaves the timers, the tasks and the flags alone.\<close>

lemma arm_inv_move:
  assumes "arm_inv s" "rt_calls s f = Some c" "rt_calls s' = (rt_calls s)(f \<mapsto> c')" "rt_tm s' = rt_tm s" "rt_tasks s' = rt_tasks s"
    "rt_infos s' = rt_infos s" "ic_timer c' = ic_timer c" "job c' = job c" "needs_timer c' \<Longrightarrow> needs_timer c"
  shows "arm_inv s'"
proof (rule arm_inv_frame [OF assms(1, 3)])
  have i: "ic_info c' = ic_info c" using assms(8) by (simp add: job_def)
  show "timer_known (rt_tm s') x" if "Some c' = Some x" for x
    using that arm_invD(1) [OF assms(1, 2)] assms(4, 7) by (auto simp: timer_known_def)
  show "pledged s' x" if "Some c' = Some x" "needs_timer x" for x
    using that arm_invD(2) [OF assms(1, 2)] assms(4-9) i by (auto simp: pledged_def pending_timer_def)
  show "ic_timer d \<noteq> Some a" if "Some c' = Some x" "ic_timer x = Some a" "g \<noteq> f" "rt_calls s g = Some d" for x a g d
    using that arm_invD(3) [OF assms(1, 2), of g d a] assms(7) by auto
qed (use assms(4-6) in \<open>auto simp: pledged_def\<close>)

text \<open>A step that changes no call.\<close>

lemma arm_inv_env:
  assumes "arm_inv s" "rt_calls s' = rt_calls s" "\<And>f c. rt_calls s f = Some c \<Longrightarrow> timer_known (rt_tm s) c \<Longrightarrow> timer_known (rt_tm s') c"
    "\<And>f c. rt_calls s f = Some c \<Longrightarrow> pledged s c \<Longrightarrow> pledged s' c"
  shows "arm_inv s'"
  using assms unfolding arm_inv_def by metis

text \<open>The timer of a call is untouched when the timer of another call is cancelled.\<close>

lemma cancel_other:
  assumes "tm_ok tm" "cancel_timer tm timer = Inr tm'"
  shows "timer_known tm c \<Longrightarrow> timer_known tm' c" "pending_timer tm c \<Longrightarrow> (timer \<noteq> None \<Longrightarrow> ic_timer c \<noteq> timer) \<Longrightarrow> pending_timer tm' c"
proof -
  have *: "tm' = tm \<or> (\<exists>b t. timer = Some b \<and> tm_heap tm b = Some t \<and> tm_heap tm' = (tm_heap tm)(b \<mapsto> t\<lparr>tmr_cb := None\<rparr>) \<and>
    set (tm_timers tm') = set (tm_timers tm) - {b})"
  proof (cases timer)
    case (Some b)
    then obtain r where r: "Cancel tm b = Inr (r, tm')" using assms(2) by (auto simp: cancel_timer_def result_simps)
    then obtain t where "tm_heap tm b = Some t" by (auto simp: Cancel_def split: option.splits)
    with Cancel_cases [OF assms(1) this] r Some show ?thesis by auto
  qed (use assms(2) in \<open>simp add: cancel_timer_def\<close>)
  then show "timer_known tm c \<Longrightarrow> timer_known tm' c" by (auto simp: timer_known_def split: option.splits)
  show "pending_timer tm c \<Longrightarrow> (timer \<noteq> None \<Longrightarrow> ic_timer c \<noteq> timer) \<Longrightarrow> pending_timer tm' c"
    using * by (auto simp: pending_timer_def)
qed

lemma arm_inv_cancel:
  assumes inv: "arm_inv s" and ok: "tm_ok (rt_tm s)" and c: "rt_calls s f = Some c" "cancel_timer (rt_tm s) (ic_timer c) = Inr (rt_tm s')"
    and s': "rt_calls s' = (rt_calls s)(f := v)" "rt_tasks s' = rt_tasks s" "\<And>i. i \<noteq> ic_info c \<Longrightarrow> rt_infos s' i = rt_infos s i"
    and v: "\<And>x. v = Some x \<Longrightarrow> ic_timer x = None \<and> \<not> needs_timer x"
    and infos: "\<And>g d. g \<noteq> f \<Longrightarrow> rt_calls s g = Some d \<Longrightarrow> ic_info d \<noteq> ic_info c"
  shows "arm_inv s'"
proof (rule arm_inv_frame [OF inv s'(1)])
  fix g d
  assume g: "g \<noteq> f" "rt_calls s g = Some d"
  show "timer_known (rt_tm s) d \<Longrightarrow> timer_known (rt_tm s') d" by (rule cancel_other(1) [OF ok c(2)])
  assume p: "pledged s d"
  have "pending_timer (rt_tm s) d \<Longrightarrow> pending_timer (rt_tm s') d"
    using cancel_other(2) [OF ok c(2), of d] arm_invD(3) [OF inv c(1) g(2)] g(1) by (cases "ic_timer c") auto
  with p show "pledged s' d" using s'(2, 3) infos [OF g] by (auto simp: pledged_def)
qed (use v in \<open>auto simp: timer_known_def\<close>)

lemma pending_expire:
  assumes "tm_ok tm" "tm_heap tm a = None" "\<not> fst (DetectClockRollover tm now)" "ListExpiredCb tm a now [] = (tm', cbs)"
  shows "timer_known tm c \<Longrightarrow> timer_known tm' c" "pending_timer tm c \<Longrightarrow> pending_timer tm' c \<or> Some (job c) \<in> set cbs"
    "ic_timer c = Some b \<Longrightarrow> pending_timer tm c \<Longrightarrow> deadline (tm_heap tm) b \<le> now \<Longrightarrow> Some (job c) \<in> set cbs"
proof -
  let ?due = "filter (\<lambda>b. deadline (tm_heap tm) b \<le> now) (tm_timers tm)"
  from ListExpiredCb_ok [OF assms(1-3), of "[]"] assms(4) have
    tm': "cbs = map (\<lambda>b. tmr_cb (the (tm_heap tm b))) ?due"
      "tm_heap tm' = (\<lambda>b. if b \<in> set ?due then map_option (fired now) (tm_heap tm b) else tm_heap tm b)"
      "set (tm_timers tm') = {b \<in> set (tm_timers tm). b \<in> set ?due \<longrightarrow> tmr_recurring (the (tm_heap tm b))}" by auto
  show "timer_known tm c \<Longrightarrow> timer_known tm' c" unfolding timer_known_def tm'(2) by (auto split: option.splits)
  show due: "Some (job c) \<in> set cbs" if "ic_timer c = Some b" "pending_timer tm c" "deadline (tm_heap tm) b \<le> now" for b
    unfolding tm'(1) using that by (force simp: pending_timer_def)
  show "pending_timer tm' c \<or> Some (job c) \<in> set cbs" if p: "pending_timer tm c"
  proof -
    from p obtain b t where b: "ic_timer c = Some b" "b \<in> set (tm_timers tm)" "tm_heap tm b = Some t" "tmr_cb t = Some (job c)"
      by (auto simp: pending_timer_def)
    show ?thesis
    proof (cases "deadline (tm_heap tm) b \<le> now")
      case False
      then have "b \<notin> set ?due" by simp
      with b have "b \<in> set (tm_timers tm')" "tm_heap tm' b = Some t" unfolding tm'(2, 3) by auto
      with b show ?thesis unfolding pending_timer_def by blast
    qed (use due [OF b(1) p] in blast)
  qed
qed

lemma pledged_flag:
  assumes "rt_tm s' = rt_tm s" "set (rt_tasks s) \<subseteq> insert (cb_task j) (set (rt_tasks s'))" "rt_infos s' (fst j) \<noteq> Some 0"
    "\<And>i. rt_infos s i \<noteq> Some 0 \<Longrightarrow> rt_infos s' i \<noteq> Some 0" "pledged s c"
  shows "pledged s' c"
proof (cases "cb_task (job c) \<in> set (rt_tasks s)")
  case True
  show ?thesis
  proof (cases "job c = j")
    case True
    then show ?thesis using assms(3) by (auto simp: pledged_def job_def)
  next
    case False
    with True assms(2) have "cb_task (job c) \<in> set (rt_tasks s')" by (auto simp: cb_task_def ScheduleTask_def)
    then show ?thesis by (simp add: pledged_def)
  qed
next
  case False
  with assms(1, 4, 5) show ?thesis by (auto simp: pledged_def)
qed

lemma on_timeout_set: "fst (on_timeout flag) \<noteq> Some 0"
  by (auto simp: on_timeout_def ETIMEDOUT_def split: option.splits)

lemma run_timeout_infos:
  "rt_infos (run_timeout i fd ev s) i \<noteq> Some 0" "k \<noteq> i \<Longrightarrow> rt_infos (run_timeout i fd ev s) k = rt_infos s k"
  using on_timeout_set [of "rt_infos s i"] by (auto simp: run_timeout_def OnTimer_def split: prod.splits)

lemma enqueue_fields [simp]:
  "rt_calls (enqueue ts s) = rt_calls s" "rt_tm (enqueue ts s) = rt_tm s" "rt_infos (enqueue ts s) = rt_infos s" "rt_io (enqueue ts s) = rt_io s"
  "rt_now (enqueue ts s) = rt_now s" "rt_cancels (enqueue ts s) = rt_cancels s" "rt_results (enqueue ts s) = rt_results s"
  "rt_tasks (enqueue ts s) = rt_tasks s @ filter task_set ts"
  by (simp_all add: enqueue_def)

lemma arm_inv_wakes: "arm_inv s \<Longrightarrow> arm_inv (enqueue ts (s\<lparr>rt_io := io', rt_cancels := cs\<rparr>))"
  by (erule arm_inv_env) (auto simp: pledged_def)

lemma arm_inv_arm:
  assumes inv: "arm_inv s" "tm_ok (rt_tm s)" and c: "rt_calls s f = Some c" "tm_heap (rt_tm s) a = None"
    "c' = c\<lparr>ic_place := Registering, ic_timer := Some a, ic_since := since\<rparr>"
    and s': "rt_tm s' = fst (AddConditionTimer (rt_tm s) a now (ic_to c) (On_Timeout (ic_fd c) (ic_event c)) (ic_info c) False)"
      "rt_calls s' = (rt_calls s)(f \<mapsto> c')" "rt_tasks s' = rt_tasks s" "rt_infos s' = rt_infos s"
  shows "arm_inv s'"
proof -
  let ?t = "Timer now (ic_to c) (Some (job c)) False"
  have h: "tm_heap (rt_tm s') = (tm_heap (rt_tm s))(a \<mapsto> ?t)"
    by (simp add: s'(1) AddConditionTimer_def AddTimer_def AddTimer_locked_def Let_def job_def)
  have ok: "tm_ok (rt_tm s')" using AddTimer_ok [OF inv(2) c(2)] by (simp add: s'(1) AddConditionTimer_def)
  have new: "ic_timer d \<noteq> Some a" if "rt_calls s g = Some d" for g d
    using arm_invD(1) [OF inv(1) that] c(2) by (auto simp: timer_known_def)
  show ?thesis
  proof (rule arm_inv_frame [OF inv(1) s'(2)])
    fix g d
    assume g: "g \<noteq> f" "rt_calls s g = Some d"
    show "timer_known (rt_tm s) d \<Longrightarrow> timer_known (rt_tm s') d" unfolding timer_known_def h by (auto split: option.splits)
    have "pending_timer (rt_tm s) d \<Longrightarrow> pending_timer (rt_tm s') d"
      unfolding pending_timer_def tm_okD(2) [OF ok] h using new [OF g(2)] by auto
    then show "pledged s d \<Longrightarrow> pledged s' d" by (auto simp: pledged_def s'(3, 4))
  next
    fix d
    assume d: "Some c' = Some d"
    then have "ic_timer d = Some a" "job d = job c" using c(3) by auto
    then show "timer_known (rt_tm s') d" "pledged s' d"
      by (auto simp: timer_known_def pledged_def pending_timer_def tm_okD(2) [OF ok] h Timer_def)
  qed (use new c(3) in auto)
qed

lemma expired_task: "Some j \<in> set cbs \<Longrightarrow> cb_task j \<in> set (filter task_set (map (\<lambda>cb. ScheduleTask None cb (- 1)) cbs))"
  by (auto simp: cb_task_def task_set_def ScheduleTask_def image_iff intro!: bexI [of _ "Some j"])

lemma arm_inv_set_call:
  "arm_inv s \<Longrightarrow> rt_calls s f = Some c \<Longrightarrow> ic_timer c' = ic_timer c \<Longrightarrow> job c' = job c \<Longrightarrow> (needs_timer c' \<Longrightarrow> needs_timer c) \<Longrightarrow>
    rt_calls s1 = rt_calls s \<Longrightarrow> rt_tm s1 = rt_tm s \<Longrightarrow> rt_tasks s1 = rt_tasks s \<Longrightarrow> rt_infos s1 = rt_infos s \<Longrightarrow> arm_inv (set_call f c' s1)"
  by (rule arm_inv_move [where f = f and c = c and c' = c']) (simp_all add: set_call_def)

lemma arm_inv_begin:
  assumes "arm_inv s" "time_inv s" "info = rt_fresh s"
  shows "arm_inv (set_call f (new_call connect fd ev to info) (s\<lparr>rt_infos := (rt_infos s)(info \<mapsto> 0), rt_fresh := Suc info\<rparr>))"
proof -
  have "ic_info d \<noteq> info" if "rt_calls s g = Some d" for g d using time_invD(5) [OF assms(2) that] assms(3) by auto
  then show ?thesis
    by (intro arm_inv_frame [OF assms(1), where f = f and v = "Some (new_call connect fd ev to info)"])
      (auto simp: set_call_def new_call_def timer_known_def pledged_def needs_timer_def waiting_def assms(3))
qed

lemma arm_inv_resume:
  assumes "arm_inv s" "list_all task_ok (rt_tasks s)" "pick tid (fiber_state s) (rt_tasks s) False = Inr (Some t, ts, tk)" "st_fiber t = Some f"
    "rt_calls s f = Some c"
  shows "arm_inv (set_call f (c\<lparr>ic_place := Resumed\<rparr>) (s\<lparr>rt_tasks := ts\<rparr>))" (is "arm_inv ?s")
proof -
  from pick_task [OF assms(2, 3)] obtain us vs where ts: "rt_tasks s = us @ t # vs" "ts = us @ vs" "task_ok t" by blast
  have "cb_task j \<noteq> t" for j using task_okD(1) [OF ts(3) assms(4)] by (simp add: cb_task_def)
  then have p: "pledged s d \<Longrightarrow> pledged ?s d" for d by (auto simp: pledged_def set_call_def ts(1, 2))
  show ?thesis
    by (rule arm_inv_frame [OF assms(1), where f = f and v = "Some (c\<lparr>ic_place := Resumed\<rparr>)"])
      (use p arm_invD(1, 3) [OF assms(1, 5)] in \<open>auto simp: set_call_def timer_known_def needs_timer_def waiting_def\<close>)
qed

lemma arm_inv_timeout:
  assumes "arm_inv s" "list_all task_ok (rt_tasks s)" "pick tid (fiber_state s) (rt_tasks s) False = Inr (Some t, ts, tk)"
    "st_cb t = Some (info, On_Timeout fd ev)"
  shows "arm_inv (run_timeout info fd ev (s\<lparr>rt_tasks := ts\<rparr>))" (is "arm_inv ?s")
proof -
  from pick_task [OF assms(2, 3)] obtain us vs where ts: "rt_tasks s = us @ t # vs" "ts = us @ vs" "task_ok t" by blast
  have t: "t = cb_task (info, On_Timeout fd ev)" using task_okD(2) [OF ts(3) assms(4)] by (simp add: cb_task_def)
  show ?thesis
  proof (rule arm_inv_env [OF assms(1)])
    fix f c
    show "pledged s c \<Longrightarrow> pledged ?s c"
      by (rule pledged_flag [of ?s s "(info, On_Timeout fd ev)"])
        (use run_timeout_infos [where i = info and fd = fd and ev = ev and s = "s\<lparr>rt_tasks := ts\<rparr>"] in \<open>auto simp: ts t, metis\<close>)
  qed auto
qed

lemma arm_inv_step:
  assumes "rt_step s s'" "wake_inv s" "time_inv s" "arm_inv s"
  shows "arm_inv s'"
proof -
  have ok: "tm_ok (rt_tm s)" "list_all task_ok (rt_tasks s)" using assms(2) by (auto simp: wake_inv_def timers_ok_def)
  have infos: "ic_info d \<noteq> ic_info c" if "rt_calls s f = Some c" "g \<noteq> f" "rt_calls s g = Some d" for f c g d
    using time_invD(7) [OF assms(3) that(3, 1)] that(2) by blast
  have leave: "arm_inv (finish f c r s1)" if "rt_calls s f = Some c" "cancel_timer (rt_tm s) (ic_timer c) = Inr (rt_tm s1)"
    "rt_calls s1 = rt_calls s" "rt_tasks s1 = rt_tasks s" "rt_infos s1 = rt_infos s" for f c r s1
    by (rule arm_inv_cancel [OF assms(4) ok(1) that(1), where v = None]) (use that infos [OF that(1)] in \<open>auto simp: finish_def\<close>)
  show ?thesis
    using assms(1)
  proof cases
    case (begin_call f fd ev info connect to)
    then show ?thesis using arm_inv_begin [OF assms(4, 3)] by simp
  next
    case (origin_returns f c n errno)
    show ?thesis unfolding origin_returns
      by (rule arm_inv_frame [OF assms(4), where f = f and v = None])
        (use infos [OF origin_returns(2)] in \<open>auto simp: finish_def pledged_def\<close>)
  next
    case (arm f c a now)
    show ?thesis unfolding arm by (rule arm_inv_arm [OF assms(4) ok(1) arm(2, 5) refl]) (simp_all add: set_call_def)
  next
    case (register_fails f c ectl rt io' tm' soerr errno)
    then show ?thesis using leave by simp
  next
    case (resume tid t ts tickle f c)
    then show ?thesis using arm_inv_resume [OF assms(4) ok(2)] by simp
  next
    case (return_cancelled f c tm' e)
    then show ?thesis using leave by simp
  next
    case (connected f c tm' soerr errno)
    then show ?thesis using leave by simp
  next
    case (retry f c tm')
    show ?thesis unfolding retry(1)
      by (rule arm_inv_cancel [OF assms(4) ok(1) retry(2), where v = "Some (c\<lparr>ic_place := Calling, ic_timer := None,
          ic_waits := ic_waits c @ [\<lparr>wt_rt = 0, wt_errno = 0, wt_cancelled = 0\<rparr>]\<rparr>)"])
        (use retry(4) infos [OF retry(2)] in \<open>auto simp: set_call_def needs_timer_def waiting_def\<close>)
  next
    case (expire now now_addr tm' cbs)
    note t = pending_expire [OF ok(1) expire(3-5)]
    have "pledged s c \<Longrightarrow> pledged s' c" for c
      using t(2) [of c] expired_task [of "job c" cbs] unfolding expire(1) pledged_def by auto
    with t(1) show ?thesis by (intro arm_inv_env [OF assms(4)]) (auto simp: expire(1))
  next
    case (timeout tid t ts tickle info fd ev)
    then show ?thesis using arm_inv_timeout [OF assms(4) ok(2)] by simp
  next
    case (cancel_event fd ev ectl b io' ws)
    show ?thesis unfolding cancel_event by (rule arm_inv_wakes [OF assms(4)])
  next
    case (report fd reported ectl io' ws)
    show ?thesis unfolding report using arm_inv_wakes [OF assms(4), where io' = io' and cs = "rt_cancels s"] by simp
  next
    case (close_fd ectl fd b io' ws)
    show ?thesis unfolding close_fd using arm_inv_wakes [OF assms(4), where io' = io' and cs = "rt_cancels s"] by simp
  qed (auto simp: needs_timer_def waiting_def intro!: arm_inv_set_call [OF assms(4)])
qed

lemma rt_reachable_arm: "rt_reachable s \<Longrightarrow> arm_inv s"
proof (induction rule: rt_reachable.induct)
  case (start now)
  show ?case by (simp add: arm_inv_def runtime_start_def)
next
  case (step s s')
  then show ?case using arm_inv_step rt_reachable_inv rt_reachable_time by blast
qed

section \<open>The workers reach every task\<close>

text \<open>
  What running tasks of a list leaves: the table, the timers and the time as they are, the calls of the fibers that are not in the list too; a flag
  is set only by a callback of the list, with its cancellation.
\<close>

definition drained :: "cond_cb schedule_task list \<Rightarrow> runtime \<Rightarrow> runtime \<Rightarrow> bool" where
  "drained us s s' \<longleftrightarrow> rt_io s' = rt_io s \<and> rt_tm s' = rt_tm s \<and> rt_now s' = rt_now s \<and> set (rt_cancels s) \<subseteq> set (rt_cancels s') \<and>
     (\<forall>g. fiber_task g \<notin> set us \<longrightarrow> rt_calls s' g = rt_calls s g) \<and>
     (\<forall>i. rt_infos s' i = rt_infos s i \<or> (\<exists>fd ev. rt_infos s i = Some 0 \<and> rt_infos s' i = Some ETIMEDOUT \<and>
        cb_task (i, On_Timeout fd ev) \<in> set us \<and> (fd, ev) \<in> set (rt_cancels s')))"

lemma drainedD:
  assumes "drained us s s'"
  shows "rt_io s' = rt_io s" "rt_tm s' = rt_tm s" "rt_now s' = rt_now s" "set (rt_cancels s) \<subseteq> set (rt_cancels s')"
    "fiber_task g \<notin> set us \<Longrightarrow> rt_calls s' g = rt_calls s g"
    "rt_infos s' i = rt_infos s i \<or> (\<exists>fd ev. rt_infos s i = Some 0 \<and> rt_infos s' i = Some ETIMEDOUT \<and>
        cb_task (i, On_Timeout fd ev) \<in> set us \<and> (fd, ev) \<in> set (rt_cancels s'))"
  using assms by (auto simp: drained_def)

lemma drained_refl: "drained us s s"
  by (simp add: drained_def)

lemma drained_trans:
  assumes 1: "drained us s s1" and 2: "drained vs s1 s2" and "set vs \<subseteq> set us"
  shows "drained us s s2"
  unfolding drained_def
proof (intro conjI allI impI)
  fix i
  show "rt_infos s2 i = rt_infos s i \<or> (\<exists>fd ev. rt_infos s i = Some 0 \<and> rt_infos s2 i = Some ETIMEDOUT \<and>
      cb_task (i, On_Timeout fd ev) \<in> set us \<and> (fd, ev) \<in> set (rt_cancels s2))"
  proof (cases "rt_infos s1 i = rt_infos s i")
    case True
    with drainedD(6) [OF 2, of i] assms(3) show ?thesis by auto
  next
    case False
    with drainedD(6) [OF 1, of i] obtain fd ev where e: "rt_infos s i = Some 0" "rt_infos s1 i = Some ETIMEDOUT"
      "cb_task (i, On_Timeout fd ev) \<in> set us" "(fd, ev) \<in> set (rt_cancels s1)" by auto
    have "rt_infos s2 i = Some ETIMEDOUT" using drainedD(6) [OF 2, of i] e(2) by (auto simp: ETIMEDOUT_def)
    with e drainedD(4) [OF 2] show ?thesis by blast
  qed
next
  fix g
  assume "fiber_task g \<notin> set us"
  with drainedD(5) [OF 1, of g] drainedD(5) [OF 2, of g] assms(3) show "rt_calls s2 g = rt_calls s g" by auto
qed (use drainedD(1-4) [OF 1] drainedD(1-4) [OF 2] in auto)

lemma run_timeout_drained: "cb_task (i, On_Timeout fd ev) \<in> set us \<Longrightarrow> drained us s (run_timeout i fd ev (s\<lparr>rt_tasks := ts\<rparr>))"
  by (auto simp: drained_def run_timeout_def OnTimer_def on_timeout_def split: option.splits)

lemma task_step:
  assumes inv: "wake_inv s" and pick: "pick tid (fiber_state s) (rt_tasks s) False = Inr (Some u, ts, tk)" and u: "u \<in> set us"
  shows "\<exists>s'. rt_step s s' \<and> rt_tasks s' = ts \<and> drained us s s' \<and> (\<forall>g. u \<noteq> fiber_task g \<longrightarrow> fiber_state s' g = fiber_state s g)"
proof -
  have ok: "list_all task_ok (rt_tasks s)" using inv by (simp add: wake_inv_def)
  from pick_task [OF ok pick] have t: "task_ok u" "u \<in> set (rt_tasks s)" by auto
  then consider g where "u = fiber_task g" | i fd ev where "u = cb_task (i, On_Timeout fd ev)" "st_cb u = Some (i, On_Timeout fd ev)"
    unfolding task_ok_def cb_task_def ScheduleTask_def by (metis io_cb.exhaust schedule_task.select_convs(2) surj_pair)
  then show ?thesis
  proof cases
    case (1 g)
    have "count_list (rt_tasks s) (fiber_task g) \<noteq> 0" using t(2) 1 by (simp add: count_list_0_iff)
    then obtain c where c: "rt_calls s g = Some c" using inv by (auto simp: wake_inv_def tasks_due_def split: option.splits)
    let ?s = "set_call g (c\<lparr>ic_place := Resumed\<rparr>) (s\<lparr>rt_tasks := ts\<rparr>)"
    have "rt_step s ?s" using rt_step.resume [OF pick _ c] 1 by simp
    moreover have "drained us s ?s" using 1 u by (auto simp: drained_def set_call_def)
    ultimately show ?thesis using 1 by (intro exI [of _ ?s]) (auto simp: set_call_def fiber_state_def)
  next
    case (2 i fd ev)
    let ?s = "run_timeout i fd ev (s\<lparr>rt_tasks := ts\<rparr>)"
    have "rt_step s ?s" by (rule rt_step.timeout [OF pick 2(2)])
    moreover have "drained us s ?s" using run_timeout_drained 2(1) u by blast
    ultimately show ?thesis by (intro exI [of _ ?s]) (auto simp: fiber_state_def)
  qed
qed

lemma reach_task:
  assumes "wake_inv s" "rt_tasks s = us @ t # vs" "eligible tid (fiber_state s) t" "t \<notin> set us"
  shows "\<exists>s' ts tk. rt_step\<^sup>*\<^sup>* s s' \<and> wake_inv s' \<and> drained us s s' \<and> pick tid (fiber_state s') (rt_tasks s') False = Inr (Some t, ts, tk)"
  using assms
proof (induction "length us" arbitrary: s us rule: less_induct)
  case less
  have ok: "list_all task_ok (rt_tasks s)" using less.prems(1) by (simp add: wake_inv_def)
  then have "\<forall>t \<in> set (rt_tasks s). task_set t" by (auto simp: list_all_iff task_ok_set)
  from pick_split [OF this, of tid "fiber_state s" False] obtain us2 u vs2 tk where
    u: "rt_tasks s = us2 @ u # vs2" "\<forall>x \<in> set us2. \<not> eligible tid (fiber_state s) x"
      "pick tid (fiber_state s) (rt_tasks s) False = Inr (Some u, us2 @ vs2, tk)"
    using less.prems(2, 3) by auto
  show ?case
  proof (cases "u \<in> set us")
    case False
    have "u = t"
    proof -
      have "us2 @ u # vs2 = us @ t # vs" using u(1) less.prems(2) by simp
      moreover have "t \<notin> set us2" using u(2) less.prems(3) by blast
      ultimately show ?thesis using False by (auto simp: append_eq_append_conv2 append_eq_Cons_conv Cons_eq_append_conv)
    qed
    with u(3) less.prems(1) drained_refl show ?thesis by blast
  next
    case True
    have "\<exists>us3. us = us2 @ u # us3 \<and> vs2 = us3 @ t # vs"
    proof -
      have "us2 @ u # vs2 = us @ t # vs" using u(1) less.prems(2) by simp
      moreover have "t \<notin> set us2" using u(2) less.prems(3) by blast
      moreover have "u \<noteq> t" using True less.prems(4) by auto
      ultimately show ?thesis by (auto simp: append_eq_append_conv2 append_eq_Cons_conv Cons_eq_append_conv)
    qed
    then obtain us3 where us3: "us = us2 @ u # us3" "vs2 = us3 @ t # vs" by blast
    from task_step [OF less.prems(1) u(3) True] obtain s1 where
      s1: "rt_step s s1" "rt_tasks s1 = us2 @ vs2" "drained us s s1" "\<And>g. u \<noteq> fiber_task g \<Longrightarrow> fiber_state s1 g = fiber_state s g" by blast
    have "eligible tid (fiber_state s1) t"
    proof (cases "st_fiber t")
      case (Some g)
      have "task_ok t" using ok less.prems(2) by simp
      then have "u \<noteq> fiber_task g" using task_okD(1) Some True less.prems(4) by blast
      then show ?thesis using s1(4) [of g] less.prems(3) Some by (simp add: eligible_def)
    qed (use less.prems(3) in \<open>simp add: eligible_def\<close>)
    moreover have "rt_tasks s1 = (us2 @ us3) @ t # vs" using s1(2) us3(2) by simp
    moreover have "length (us2 @ us3) < length us" "t \<notin> set (us2 @ us3)" using us3(1) less.prems(4) by auto
    moreover have "wake_inv s1" using wake_inv_step [OF s1(1) less.prems(1)] .
    ultimately obtain s' ts tk' where s': "rt_step\<^sup>*\<^sup>* s1 s'" "wake_inv s'" "drained (us2 @ us3) s1 s'"
      "pick tid (fiber_state s') (rt_tasks s') False = Inr (Some t, ts, tk')" using less.hyps by blast
    have "drained us s s'" by (rule drained_trans [OF s1(3) s'(3)]) (use us3(1) in auto)
    with s' s1(1) show ?thesis by (meson converse_rtranclp_into_rtranclp)
  qed
qed

section \<open>Resuming and timing out\<close>

lemma rt_reachable_steps: "rt_step\<^sup>*\<^sup>* s s' \<Longrightarrow> rt_reachable s \<Longrightarrow> rt_reachable s'"
  by (induction rule: rtranclp_induct) (auto intro: rt_reachable.step)

lemma cancel_timer_known:
  assumes "tm_ok tm" "timer_known tm c"
  shows "\<exists>tm'. cancel_timer tm (ic_timer c) = Inr tm'"
proof (cases "ic_timer c")
  case (Some a)
  then obtain t where "tm_heap tm a = Some t" using assms(2) by (auto simp: timer_known_def)
  from Cancel_cases [OF assms(1) this] Some show ?thesis by (auto simp: cancel_timer_def)
qed (simp add: cancel_timer_def)

lemma run_fiber:
  assumes inv: "wake_inv s" and c: "rt_calls s f = Some c" "ic_place c = Suspended" "fiber_task f \<in> set (rt_tasks s)"
  shows "\<exists>s'. rt_step\<^sup>*\<^sup>* s s' \<and> rt_calls s' f = Some (c\<lparr>ic_place := Resumed\<rparr>) \<and> rt_now s' = rt_now s \<and>
    (\<forall>i e. rt_infos s i = Some e \<longrightarrow> e \<noteq> 0 \<longrightarrow> rt_infos s' i = Some e)"
proof -
  obtain us vs where ts: "rt_tasks s = us @ fiber_task f # vs" "fiber_task f \<notin> set us" using split_list_first [OF c(3)] by blast
  have "eligible 0 (fiber_state s) (fiber_task f)" using c by (simp add: eligible_def fiber_state_def)
  from reach_task [OF inv ts(1) this ts(2)] obtain s1 ts' tk where
    s1: "rt_step\<^sup>*\<^sup>* s s1" "drained us s s1" "pick 0 (fiber_state s1) (rt_tasks s1) False = Inr (Some (fiber_task f), ts', tk)" by blast
  have f: "rt_calls s1 f = Some c" using drainedD(5) [OF s1(2) ts(2)] c(1) by simp
  let ?s = "set_call f (c\<lparr>ic_place := Resumed\<rparr>) (s1\<lparr>rt_tasks := ts'\<rparr>)"
  have "rt_step s1 ?s" by (rule rt_step.resume [OF s1(3) _ f]) simp
  moreover have "rt_infos s1 i = Some e" if "rt_infos s i = Some e" "e \<noteq> 0" for i e
    using drainedD(6) [OF s1(2), of i] that by auto
  ultimately show ?thesis
    using s1(1) drainedD(3) [OF s1(2)] by (intro exI [of _ ?s]) (auto simp: set_call_def)
qed

lemma suspend_run:
  assumes "rt_calls s f = Some c" "waiting c"
  shows "\<exists>s'. rt_step\<^sup>*\<^sup>* s s' \<and> s' = set_call f (c\<lparr>ic_place := Suspended\<rparr>) s"
proof (cases "ic_place c = Suspended")
  case True
  then have "c\<lparr>ic_place := Suspended\<rparr> = c" by simp
  then show ?thesis using assms(1) by (auto simp: set_call_def fun_upd_idem)
next
  case False
  then have "ic_place c = Yielding" using assms(2) by (simp add: waiting_def)
  then show ?thesis using rt_step.yield [OF assms(1)] by blast
qed

text \<open>A registered fiber is woken by the next event of its descriptor.\<close>

lemma wake_run:
  assumes "wake_inv s" "rt_calls s f = Some c" "waiting c"
  shows "\<exists>s'. rt_step\<^sup>*\<^sup>* s s' \<and> rt_calls s' = rt_calls s \<and> fiber_task f \<in> set (rt_tasks s')"
proof (cases "registered s f c")
  case True
  have k: "io_wf (rt_io s)" "is_event (ic_event c)" using assms(1, 2) by (auto simp: wake_inv_def)
  from report_accepted [OF k] True obtain io' where
    r: "legal_report (rt_io s) (ic_fd c) (ic_event c)" "handle_event accepting (rt_io s) (ic_fd c) (ic_event c) = Inr (io', [(0, fiber_task f)])"
    unfolding registered_def key_def by blast
  from rt_step.report [OF r] show ?thesis by (intro exI [of _ "enqueue [fiber_task f] (s\<lparr>rt_io := io'\<rparr>)"]) (simp add: r_into_rtranclp)
next
  case False
  then have "tasks_due (io_view (rt_io s)) (rt_calls s) f = 1" using assms(2, 3) by (simp add: tasks_due_def registered_def)
  then have "count_list (rt_tasks s) (fiber_task f) = 1" using assms(1) by (simp add: wake_inv_def)
  then have "fiber_task f \<in> set (rt_tasks s)" using count_list_0_iff by (metis zero_neq_one)
  then show ?thesis by blast
qed

lemma resume_run:
  assumes "rt_reachable s" "rt_calls s f = Some c" "waiting c"
  shows "\<exists>s'. rt_step\<^sup>*\<^sup>* s s' \<and> rt_calls s' f = Some (c\<lparr>ic_place := Resumed\<rparr>)"
proof -
  from suspend_run [OF assms(2, 3)] obtain s1 where s1: "rt_step\<^sup>*\<^sup>* s s1" "rt_calls s1 f = Some (c\<lparr>ic_place := Suspended\<rparr>)"
    by (auto simp: set_call_def)
  note i1 = rt_reachable_inv [OF rt_reachable_steps [OF s1(1) assms(1)]]
  from wake_run [OF i1 s1(2)] obtain s2 where s2: "rt_step\<^sup>*\<^sup>* s1 s2" "rt_calls s2 f = Some (c\<lparr>ic_place := Suspended\<rparr>)" "fiber_task f \<in> set (rt_tasks s2)"
    using s1(2) by (auto simp: waiting_def)
  have "wake_inv s2" using rt_reachable_inv rt_reachable_steps [OF rtranclp_trans [OF s1(1) s2(1)] assms(1)] by blast
  from run_fiber [OF this s2(2) _ s2(3)] obtain s3 where "rt_step\<^sup>*\<^sup>* s2 s3" "rt_calls s3 f = Some (c\<lparr>ic_place := Resumed\<rparr>)" by auto
  then show ?thesis using s1(1) s2(1) by (meson rtranclp_trans)
qed

text \<open>The addresses of timers do not run out.\<close>

lemma heap_finite: "rt_reachable s \<Longrightarrow> finite (dom (tm_heap (rt_tm s)))"
proof (induction rule: rt_reachable.induct)
  case (start now)
  show ?case by (simp add: runtime_start_def TimerManager_def)
next
  case (step s s')
  have ok: "tm_ok (rt_tm s)" using rt_reachable_inv [OF step.hyps(1)] by (simp add: wake_inv_def timers_ok_def)
  have cancel: "finite (dom (tm_heap tm'))" if "cancel_timer (rt_tm s) timer = Inr tm'" for timer tm'
    by (rule finite_subset [OF _ step.IH]) (use timer_ref_cancel(2) [OF ok that] in blast)
  from step.hyps(2) show ?case
  proof cases
    case (arm f c a now)
    have "dom (tm_heap (rt_tm s')) \<subseteq> insert a (dom (tm_heap (rt_tm s)))"
      by (auto simp: arm(1) set_call_def AddConditionTimer_def AddTimer_def AddTimer_locked_def Let_def split: if_splits)
    then show ?thesis using step.IH by (meson finite_insert finite_subset)
  next
    case (expire now now_addr tm' cbs)
    from ListExpiredCb_ok [OF ok expire(3, 4), of "[]"] expire(5) have "dom (tm_heap tm') = dom (tm_heap (rt_tm s))"
      by (auto split: if_splits)
    then show ?thesis using step.IH by (simp add: expire(1))
  qed (use step.IH cancel in \<open>auto simp: set_call_def finish_def\<close>)
qed

lemma expire_run:
  assumes r: "rt_reachable s" and c: "rt_calls s f = Some c" "needs_timer c" "rt_infos s (ic_info c) = Some 0"
  shows "\<exists>s'. rt_step\<^sup>*\<^sup>* s s' \<and> rt_calls s' = rt_calls s \<and> rt_io s' = rt_io s \<and> rt_infos s' = rt_infos s \<and>
    cb_task (job c) \<in> set (rt_tasks s')"
proof (cases "cb_task (job c) \<in> set (rt_tasks s)")
  case False
  with arm_invD(2) [OF rt_reachable_arm [OF r] c(1, 2)] c(3) have p: "pending_timer (rt_tm s) c" by (simp add: pledged_def)
  then obtain a where a: "ic_timer c = Some a" by (auto simp: pending_timer_def)
  have ok: "tm_ok (rt_tm s)" using rt_reachable_inv [OF r] by (simp add: wake_inv_def timers_ok_def)
  define now where "now = max (rt_now s) (max (deadline (tm_heap (rt_tm s)) a) (tm_previous_use_time (rt_tm s)))"
  have now: "rt_now s \<le> now" "deadline (tm_heap (rt_tm s)) a \<le> now" "\<not> now < tm_previous_use_time (rt_tm s)"
    by (auto simp: now_def max_def)
  then have nr: "\<not> fst (DetectClockRollover (rt_tm s) now)" by (simp add: DetectClockRollover_def)
  obtain b where b: "tm_heap (rt_tm s) b = None" using ex_new_if_finite [OF infinite_UNIV_nat heap_finite [OF r]] by auto
  obtain tm' cbs where l: "ListExpiredCb (rt_tm s) b now [] = (tm', cbs)" by fastforce
  note step = rt_step.expire [OF now(1) b nr l]
  have "Some (job c) \<in> set cbs" by (rule pending_expire(3) [OF ok b nr l a p now(2)])
  from expired_task [OF this] step show ?thesis by (intro exI conjI) (rule r_into_rtranclp, assumption, simp_all)
qed (use rtranclp.rtrancl_refl in blast)

lemma flag_run:
  assumes r: "rt_reachable s" and c: "rt_calls s f = Some c" "registered s f c" "rt_infos s (ic_info c) = Some 0" "cb_task (job c) \<in> set (rt_tasks s)"
  shows "\<exists>s'. rt_step\<^sup>*\<^sup>* s s' \<and> rt_calls s' f = Some c \<and> registered s' f c \<and> rt_infos s' (ic_info c) = Some ETIMEDOUT \<and> key c \<in> set (rt_cancels s')"
proof -
  have inv: "wake_inv s" "time_inv s" using r by (simp_all add: rt_reachable_inv rt_reachable_time)
  obtain us vs where ts: "rt_tasks s = us @ cb_task (job c) # vs" "cb_task (job c) \<notin> set us" using split_list_first [OF c(4)] by blast
  have "count_list (rt_tasks s) (fiber_task f) = 0" using inv(1) c(1, 2) by (simp add: wake_inv_def tasks_due_def registered_def)
  then have nf: "fiber_task f \<notin> set us" by (simp add: count_list_0_iff ts(1))
  have "eligible 0 (fiber_state s) (cb_task (job c))" by (simp add: eligible_def cb_task_def ScheduleTask_def)
  from reach_task [OF inv(1) ts(1) this ts(2)] obtain s1 ts' tk where
    s1: "rt_step\<^sup>*\<^sup>* s s1" "drained us s s1" "pick 0 (fiber_state s1) (rt_tasks s1) False = Inr (Some (cb_task (job c)), ts', tk)" by blast
  have c1: "rt_calls s1 f = Some c" "registered s1 f c" using drainedD(1, 5) [OF s1(2)] nf c(1, 2) by (auto simp: registered_def)
  show ?thesis
  proof (cases "rt_infos s1 (ic_info c) = Some 0")
    case False
    then have "rt_infos s1 (ic_info c) \<noteq> rt_infos s (ic_info c)" using c(3) by simp
    with drainedD(6) [OF s1(2), of "ic_info c"] obtain fd ev where
      e: "rt_infos s1 (ic_info c) = Some ETIMEDOUT" "cb_task (ic_info c, On_Timeout fd ev) \<in> set us" "(fd, ev) \<in> set (rt_cancels s1)" by blast
    have "cb_task (ic_info c, On_Timeout fd ev) \<in> set (rt_tasks s)" using e(2) ts(1) by simp
    from time_invD(3) [OF inv(2) this] have "due_by (rt_calls s) (ic_info c, On_Timeout fd ev) (unat (rt_now s))" by (simp add: ref_ok_def)
    then have "(fd, ev) = key c" unfolding due_by_def key_def using c(1) by (metis fst_conv io_cb.inject snd_conv)
    with e s1(1) c1 show ?thesis by (intro exI [of _ s1]) simp
  next
    case True
    let ?s = "run_timeout (ic_info c) (ic_fd c) (ic_event c) (s1\<lparr>rt_tasks := ts'\<rparr>)"
    have "rt_step s1 ?s" by (rule rt_step.timeout [OF s1(3)]) (simp add: cb_task_def ScheduleTask_def job_def)
    moreover have "rt_infos ?s (ic_info c) = Some ETIMEDOUT \<and> key c \<in> set (rt_cancels ?s)"
      using True by (simp add: run_timeout_def OnTimer_def on_timeout_def key_def)
    ultimately show ?thesis using s1(1) c1 by (intro exI [of _ ?s]) (auto simp: registered_def)
  qed
qed

lemma cancel_run:
  assumes "wake_inv s" "rt_calls s f = Some c" "registered s f c" "key c \<in> set (rt_cancels s)"
  shows "\<exists>s'. rt_step s s' \<and> rt_calls s' = rt_calls s \<and> rt_infos s' = rt_infos s \<and> fiber_task f \<in> set (rt_tasks s')"
proof -
  have k: "io_wf (rt_io s)" "0 \<le> ic_fd c" "is_event (ic_event c)" using assms(1, 2) by (auto simp: wake_inv_def)
  have v: "io_view (rt_io s) (ic_fd c, ic_event c) = Some (0, fiber_task f)" using assms(3) by (simp add: registered_def key_def)
  with cancel_accepted [OF k] obtain io' ws where
    w: "CancelEvent accepting (rt_io s) (ic_fd c) (ic_event c) = Inr (True, io', ws)" "wakes (io_view (rt_io s)) (io_view io') [(ic_fd c, ic_event c)] ws"
    by auto
  have "ws = [(0, fiber_task f)]" using w(2) v by (auto simp: wakes_def Cons_eq_map_conv)
  moreover have "(ic_fd c, ic_event c) \<in> set (rt_cancels s)" using assms(4) by (simp add: key_def)
  from rt_step.cancel_event [OF this w(1)] show ?thesis
    by (intro exI conjI) (assumption, simp_all add: calculation)
qed

lemma time_out_run:
  assumes r: "rt_reachable s" and c: "rt_calls s f = Some c" "waiting c" "registered s f c" "ic_to c \<noteq> - 1" "rt_infos s (ic_info c) = Some 0"
  shows "\<exists>s' t. rt_step\<^sup>*\<^sup>* s s' \<and> rt_calls s' f = None \<and> (f, c\<lparr>ic_place := Resumed\<rparr>, Cancelled ETIMEDOUT, t) \<in> set (rt_results s')"
proof -
  let ?c = "c\<lparr>ic_place := Suspended\<rparr>"
  from suspend_run [OF c(1, 2)] obtain s1 where
    s1: "rt_step\<^sup>*\<^sup>* s s1" "rt_calls s1 f = Some ?c" "registered s1 f ?c" "rt_infos s1 (ic_info ?c) = Some 0" "needs_timer ?c"
    using c(3-5) by (auto simp: set_call_def registered_def needs_timer_def waiting_def)
  note r1 = rt_reachable_steps [OF s1(1) r]
  from expire_run [OF r1 s1(2, 5, 4)] s1(2-4) obtain s2 where
    s2: "rt_step\<^sup>*\<^sup>* s1 s2" "rt_calls s2 f = Some ?c" "registered s2 f ?c" "rt_infos s2 (ic_info ?c) = Some 0" "cb_task (job ?c) \<in> set (rt_tasks s2)"
    unfolding registered_def by auto
  note r2 = rt_reachable_steps [OF s2(1) r1]
  from flag_run [OF r2 s2(2-5)] obtain s3 where
    s3: "rt_step\<^sup>*\<^sup>* s2 s3" "rt_calls s3 f = Some ?c" "registered s3 f ?c" "rt_infos s3 (ic_info ?c) = Some ETIMEDOUT" "key ?c \<in> set (rt_cancels s3)" by blast
  note r3 = rt_reachable_steps [OF s3(1) r2]
  from cancel_run [OF rt_reachable_inv [OF r3] s3(2, 3, 5)] obtain s4 where
    s4: "rt_step s3 s4" "rt_calls s4 f = Some ?c" "rt_infos s4 (ic_info c) = Some ETIMEDOUT" "fiber_task f \<in> set (rt_tasks s4)" using s3(2, 4) by auto
  note r4 = rt_reachable.step [OF r3 s4(1)]
  have "ETIMEDOUT \<noteq> 0" by (simp add: ETIMEDOUT_def)
  with run_fiber [OF rt_reachable_inv [OF r4] s4(2) _ s4(4)] s4(3) obtain s5 where
    s5: "rt_step\<^sup>*\<^sup>* s4 s5" "rt_calls s5 f = Some (c\<lparr>ic_place := Resumed\<rparr>)" "rt_infos s5 (ic_info c) = Some ETIMEDOUT" by auto
  note r5 = rt_reachable_steps [OF s5(1) r4]
  have "tm_ok (rt_tm s5)" using rt_reachable_inv [OF r5] by (simp add: wake_inv_def timers_ok_def)
  from cancel_timer_known [OF this arm_invD(1) [OF rt_reachable_arm [OF r5] s5(2)]] obtain tm' where
    t: "cancel_timer (rt_tm s5) (ic_timer (c\<lparr>ic_place := Resumed\<rparr>)) = Inr tm'" by blast
  have "rt_step s5 (finish f (c\<lparr>ic_place := Resumed\<rparr>) (Cancelled ETIMEDOUT) (s5\<lparr>rt_tm := tm'\<rparr>))" (is "rt_step s5 ?s")
    by (rule rt_step.return_cancelled [OF s5(2) _ t]) (use s5(3) in \<open>simp_all add: ETIMEDOUT_def\<close>)
  moreover have "rt_step\<^sup>*\<^sup>* s s5" using s1(1) s2(1) s3(1) s4(1) s5(1) by (meson rtranclp_trans r_into_rtranclp)
  ultimately show ?thesis by (intro exI [of _ ?s] exI [of _ "rt_now s5"]) (auto simp: finish_def)
qed

section \<open>Runs\<close>

lemma arm_run:
  assumes "rt_calls s f = Some c" "ic_place c = Calling" "ic_to c \<noteq> - 1" "tm_heap (rt_tm s) a = None" "unat (rt_now s) + unat (ic_to c) < 2 ^ 64"
    "ic_since c = None"
  shows "rt_step\<^sup>*\<^sup>* s (set_call f (c\<lparr>ic_calls := ic_calls c @ [(- 1, wait_errno c)], ic_place := Registering, ic_timer := Some a, ic_since := Some (rt_now s)\<rparr>)
    (s\<lparr>rt_tm := fst (AddConditionTimer (rt_tm s) a (rt_now s) (ic_to c) (On_Timeout (ic_fd c) (ic_event c)) (ic_info c) False)\<rparr>))"
proof -
  let ?s = "set_call f (c\<lparr>ic_place := Arming, ic_calls := ic_calls c @ [(- 1, wait_errno c)]\<rparr>) s"
  have "rt_step s ?s" by (rule rt_step.would_block [OF assms(1, 2)])
  moreover have "rt_calls ?s f = Some (c\<lparr>ic_place := Arming, ic_calls := ic_calls c @ [(- 1, wait_errno c)]\<rparr>)" by (simp add: set_call_def)
  from rt_step.arm [OF this, of a "rt_now s"] assms(3-6) have "rt_step ?s (set_call f (c\<lparr>ic_calls := ic_calls c @ [(- 1, wait_errno c)], ic_place := Registering, ic_timer := Some a, ic_since := Some (rt_now s)\<rparr>)
    (s\<lparr>rt_tm := fst (AddConditionTimer (rt_tm s) a (rt_now s) (ic_to c) (On_Timeout (ic_fd c) (ic_event c)) (ic_info c) False)\<rparr>))"
    by (simp add: set_call_def)
  ultimately show ?thesis by simp
qed

lemma register_run:
  assumes "wake_inv s" "rt_calls s f = Some c" "ic_place c = Registering" "io_view (rt_io s) (key c) = None"
  shows "\<exists>io'. rt_step\<^sup>*\<^sup>* s (set_call f (c\<lparr>ic_place := Suspended\<rparr>) (s\<lparr>rt_io := io'\<rparr>)) \<and> io_view io' (key c) = Some (0, fiber_task f)"
proof -
  have k: "io_wf (rt_io s)" "0 \<le> ic_fd c" "is_event (ic_event c)" using assms(1, 2) by (auto simp: wake_inv_def)
  from add_accepted [OF k] assms(4) obtain io' where a: "AddEvent accepting (Some 0) (f, RUNNING) (rt_io s) (ic_fd c) (ic_event c) None = Inr (0, io')"
    "io_view io' (key c) = Some (party_wake (0, f, None))" unfolding key_def by fastforce
  let ?s = "set_call f (c\<lparr>ic_place := Yielding\<rparr>) (s\<lparr>rt_io := io'\<rparr>)"
  have "rt_step s ?s" by (rule rt_step.register [OF assms(2, 3) a(1)])
  moreover have "rt_calls ?s f = Some (c\<lparr>ic_place := Yielding\<rparr>)" by (simp add: set_call_def)
  from rt_step.yield [OF this] have "rt_step ?s (set_call f (c\<lparr>ic_place := Suspended\<rparr>) (s\<lparr>rt_io := io'\<rparr>))" by (simp add: set_call_def)
  moreover have "party_wake (0, f, None) = (0, fiber_task f)" by (simp add: party_wake_def wakeup_of_def new_ctx_def fiber_task_def)
  ultimately show ?thesis using a(2) by (metis converse_rtranclp_into_rtranclp r_into_rtranclp)
qed

text \<open>Fiber 1 reads from descriptor 3 with a timeout of 50, at time 100: up to the timer, and on to the switch.\<close>

definition read_call :: "io_place \<Rightarrow> io_call" where
  "read_call p = \<lparr>ic_connect = False, ic_fd = 3, ic_event = READ, ic_to = 50, ic_info = 0, ic_place = p, ic_timer = Some 0, ic_since = Some 100,
      ic_calls = [(- 1, EAGAIN)], ic_waits = []\<rparr>"

definition read_timers :: "cond_cb timer_manager" where
  "read_timers = fst (AddConditionTimer (TimerManager 100) 0 100 50 (On_Timeout 3 READ) 0 False)"

definition read_armed :: runtime where
  "read_armed = \<lparr>rt_io = IOManager, rt_tm = read_timers, rt_tasks = [], rt_calls = [1 \<mapsto> read_call Registering], rt_infos = [0 \<mapsto> 0],
     rt_fresh = 1, rt_cancels = [], rt_now = 100, rt_results = []\<rparr>"

lemma read_armed_reachable: "rt_reachable read_armed"
proof -
  let ?c = "new_call False 3 READ 50 0"
  let ?s = "set_call 1 ?c ((runtime_start 100)\<lparr>rt_infos := (rt_infos (runtime_start 100))(0 \<mapsto> 0), rt_fresh := Suc 0\<rparr>)"
  have "rt_step (runtime_start 100) ?s"
    by (rule rt_step.begin_call) (simp_all add: runtime_start_def is_event_def)
  then have r: "rt_reachable ?s" by (rule rt_reachable.step [OF rt_reachable.start])
  have steps: "rt_step\<^sup>*\<^sup>* ?s (set_call 1 (?c\<lparr>ic_calls := ic_calls ?c @ [(- 1, wait_errno ?c)], ic_place := Registering, ic_timer := Some 0, ic_since := Some (rt_now ?s)\<rparr>)
    (?s\<lparr>rt_tm := fst (AddConditionTimer (rt_tm ?s) 0 (rt_now ?s) (ic_to ?c) (On_Timeout (ic_fd ?c) (ic_event ?c)) (ic_info ?c) False)\<rparr>))"
    by (rule arm_run) (simp_all add: set_call_def new_call_def runtime_start_def TimerManager_def)
  have eq: "set_call 1 (?c\<lparr>ic_calls := ic_calls ?c @ [(- 1, wait_errno ?c)], ic_place := Registering, ic_timer := Some 0, ic_since := Some (rt_now ?s)\<rparr>)
    (?s\<lparr>rt_tm := fst (AddConditionTimer (rt_tm ?s) 0 (rt_now ?s) (ic_to ?c) (On_Timeout (ic_fd ?c) (ic_event ?c)) (ic_info ?c) False)\<rparr>) = read_armed"
    by (simp add: set_call_def new_call_def runtime_start_def read_armed_def read_call_def read_timers_def wait_errno_def)
  show ?thesis using rt_reachable_steps [OF steps r] unfolding eq .
qed

lemma read_suspended:
  "\<exists>io. rt_reachable (read_armed\<lparr>rt_io := io, rt_calls := [1 \<mapsto> read_call Suspended]\<rparr>) \<and> io_view io (3, READ) = Some (0, fiber_task 1)"
proof -
  have c: "rt_calls read_armed 1 = Some (read_call Registering)" "ic_place (read_call Registering) = Registering" "rt_io read_armed = IOManager"
    by (simp_all add: read_armed_def read_call_def)
  from register_run [OF rt_reachable_inv [OF read_armed_reachable] c(1, 2)] c(3) obtain io' where
    s: "rt_step\<^sup>*\<^sup>* read_armed (set_call 1 ((read_call Registering)\<lparr>ic_place := Suspended\<rparr>) (read_armed\<lparr>rt_io := io'\<rparr>))"
      "io_view io' (3, READ) = Some (0, fiber_task 1)" by (auto simp: key_def read_call_def)
  moreover have "set_call 1 ((read_call Registering)\<lparr>ic_place := Suspended\<rparr>) (read_armed\<lparr>rt_io := io'\<rparr>) =
    read_armed\<lparr>rt_io := io', rt_calls := [1 \<mapsto> read_call Suspended]\<rparr>" by (simp add: set_call_def read_armed_def read_call_def)
  ultimately show ?thesis using rt_reachable_steps [OF s(1) read_armed_reachable] by auto
qed

text \<open>The timer expires, and its callback runs, before the fiber is registered; then it waits with its timer gone.\<close>

lemma read_timers_expire:
  "snd (ListExpiredCb read_timers 1 150 []) = [Some (0, On_Timeout 3 READ)]" "tm_timers (fst (ListExpiredCb read_timers 1 150 [])) = []"
  "tm_heap read_timers 1 = None" "\<not> fst (DetectClockRollover read_timers 150)"
  by code_simp+

lemma lost_run:
  "\<exists>io tm. rt_reachable \<lparr>rt_io = io, rt_tm = tm, rt_tasks = [], rt_calls = [1 \<mapsto> read_call Suspended], rt_infos = [0 \<mapsto> ETIMEDOUT],
     rt_fresh = 1, rt_cancels = [], rt_now = 150, rt_results = []\<rparr> \<and> io_view io (3, READ) = Some (0, fiber_task 1) \<and> tm_timers tm = []"
proof -
  let ?j = "(0, On_Timeout 3 READ)"
  define tm where "tm = fst (ListExpiredCb read_timers 1 150 [])"
  define s1 where "s1 = read_armed\<lparr>rt_tm := tm, rt_now := 150, rt_tasks := [cb_task ?j]\<rparr>"
  define s2 where "s2 = read_armed\<lparr>rt_tm := tm, rt_now := 150, rt_infos := [0 \<mapsto> ETIMEDOUT], rt_cancels := [(3, READ)]\<rparr>"
  have step1: "rt_step read_armed (enqueue (map (\<lambda>cb. ScheduleTask None cb (- 1)) [Some ?j]) (read_armed\<lparr>rt_tm := tm, rt_now := 150\<rparr>))"
    by (rule rt_step.expire [where now_addr = 1])
      (use read_timers_expire in \<open>simp_all add: read_armed_def tm_def prod_eq_iff\<close>)
  have eq1: "enqueue (map (\<lambda>cb. ScheduleTask None cb (- 1)) [Some ?j]) (read_armed\<lparr>rt_tm := tm, rt_now := 150\<rparr>) = s1"
    by (simp add: s1_def enqueue_def cb_task_def task_set_def ScheduleTask_def read_armed_def)
  have r1: "rt_reachable s1" using rt_reachable.step [OF read_armed_reachable step1] unfolding eq1 .
  have "pick 0 (fiber_state s1) (rt_tasks s1) False = Inr (Some (cb_task ?j), [], False)"
    by (simp add: s1_def cb_task_def ScheduleTask_def task_set_def guard_def)
  from rt_step.timeout [OF this] have step2: "rt_step s1 (run_timeout 0 3 READ (s1\<lparr>rt_tasks := []\<rparr>))"
    by (simp add: cb_task_def ScheduleTask_def)
  have eq2: "run_timeout 0 3 READ (s1\<lparr>rt_tasks := []\<rparr>) = s2"
    by (simp add: run_timeout_def OnTimer_def on_timeout_def s1_def s2_def read_armed_def)
  have r2: "rt_reachable s2" using rt_reachable.step [OF r1 step2] unfolding eq2 .
  have ev: "is_event READ" by (simp add: is_event_def)
  from cancel_accepted [OF IOManager_wf, of 3 READ] ev obtain io :: "cond_cb iomanager" and ws where
    c: "CancelEvent accepting IOManager 3 READ = Inr (False, io, ws)" "wakes (io_view IOManager) (io_view io) [] ws" by auto
  then have v: "ws = []" "io_view io = io_view IOManager" by (auto simp: wakes_def restrict_map_def)
  define s3 where "s3 = read_armed\<lparr>rt_io := io, rt_tm := tm, rt_now := 150, rt_infos := [0 \<mapsto> ETIMEDOUT]\<rparr>"
  have step3: "rt_step s2 (enqueue (map snd ws) (s2\<lparr>rt_io := io, rt_cancels := remove1 (3, READ) (rt_cancels s2)\<rparr>))"
    by (rule rt_step.cancel_event) (use c(1) in \<open>simp_all add: s2_def read_armed_def\<close>)
  have eq3: "enqueue (map snd ws) (s2\<lparr>rt_io := io, rt_cancels := remove1 (3, READ) (rt_cancels s2)\<rparr>) = s3"
    by (simp add: v(1) enqueue_def s2_def s3_def read_armed_def)
  have r3: "rt_reachable s3" using rt_reachable.step [OF r2 step3] unfolding eq3 .
  have "rt_calls s3 1 = Some (read_call Registering)" "rt_io s3 = io" by (simp_all add: s3_def read_armed_def)
  from register_run [OF rt_reachable_inv [OF r3] this(1)] this(2) v(2) obtain io' where
    s: "rt_step\<^sup>*\<^sup>* s3 (set_call 1 ((read_call Registering)\<lparr>ic_place := Suspended\<rparr>) (s3\<lparr>rt_io := io'\<rparr>))" "io_view io' (3, READ) = Some (0, fiber_task 1)"
    by (auto simp: key_def read_call_def)
  have "set_call 1 ((read_call Registering)\<lparr>ic_place := Suspended\<rparr>) (s3\<lparr>rt_io := io'\<rparr>) =
    \<lparr>rt_io = io', rt_tm = tm, rt_tasks = [], rt_calls = [1 \<mapsto> read_call Suspended], rt_infos = [0 \<mapsto> ETIMEDOUT],
     rt_fresh = 1, rt_cancels = [], rt_now = 150, rt_results = []\<rparr>" by (simp add: set_call_def s3_def read_armed_def read_call_def)
  with rt_reachable_steps [OF s(1) r3] s(2) read_timers_expire(2) show ?thesis unfolding tm_def by metis
qed

lemma read_times_out: "\<exists>s t. rt_reachable s \<and> (1, read_call Resumed, Cancelled ETIMEDOUT, t) \<in> set (rt_results s)"
proof -
  obtain io where io: "rt_reachable (read_armed\<lparr>rt_io := io, rt_calls := [1 \<mapsto> read_call Suspended]\<rparr>)" (is "rt_reachable ?s")
    "io_view io (3, READ) = Some (0, fiber_task 1)" using read_suspended by blast
  have c: "rt_calls ?s 1 = Some (read_call Suspended)" "waiting (read_call Suspended)" "registered ?s 1 (read_call Suspended)"
    "ic_to (read_call Suspended) \<noteq> - 1" "rt_infos ?s (ic_info (read_call Suspended)) = Some 0" "(read_call Suspended)\<lparr>ic_place := Resumed\<rparr> = read_call Resumed"
    using io(2) by (simp_all add: waiting_def read_call_def registered_def key_def read_armed_def)
  from time_out_run [OF io(1) c(1-5)] c(6) rt_reachable_steps [OF _ io(1)] show ?thesis by auto
qed

section \<open>Properties\<close>

text \<open>
  (C7) No wake-up is lost and none is delivered twice. In every reachable state of any number of fibers, threads, timers and kernel
  reports, a call that waits has either its registration in the I/O scheduler or exactly one task for its fiber in the task list, and not
  both; a call that does not wait has neither; and a fiber is registered for nothing but the event of its call.
\<close>

theorem no_lost_wakeup:
  assumes "rt_reachable s" "rt_calls s f = Some c"
  shows "(if registered s f c then 1 else 0) + count_list (rt_tasks s) (fiber_task f) = (if waiting c then 1 else 0) \<and>
    (\<forall>k. io_view (rt_io s) k = Some (0, fiber_task f) \<longrightarrow> k = key c)"
proof -
  have inv: "entries_ok (io_view (rt_io s)) (rt_calls s)" "count_list (rt_tasks s) (fiber_task f) = tasks_due (io_view (rt_io s)) (rt_calls s) f"
    using rt_reachable_inv [OF assms(1)] by (auto simp: wake_inv_def)
  have u: "k = key c \<and> waiting c" if "io_view (rt_io s) k = Some (0, fiber_task f)" for k
    using entries_unique [OF inv(1) that] assms(2) by auto
  then have w: "registered s f c \<Longrightarrow> waiting c" by (simp add: registered_def)
  have "count_list (rt_tasks s) (fiber_task f) = (if waiting c \<and> \<not> registered s f c then 1 else 0)"
    using inv(2) assms(2) by (simp add: tasks_due_def registered_def)
  with w have "(if registered s f c then 1 else 0) + count_list (rt_tasks s) (fiber_task f) = (if waiting c then 1 else 0)" by auto
  with u show ?thesis by blast
qed

theorem no_lost_wakeup_witness: "\<exists>s. rt_calls s 1 = Some (read_call Suspended) \<and> registered s 1 (read_call Suspended) \<and> count_list (rt_tasks s) (fiber_task 1) = 0"
proof -
  obtain io where io: "rt_reachable (read_armed\<lparr>rt_io := io, rt_calls := [1 \<mapsto> read_call Suspended]\<rparr>)" (is "rt_reachable ?s")
    "io_view io (3, READ) = Some (0, fiber_task 1)" using read_suspended by blast
  have c: "rt_calls ?s 1 = Some (read_call Suspended)" by simp
  have "registered ?s 1 (read_call Suspended)" using io(2) by (simp add: registered_def key_def read_call_def)
  with no_lost_wakeup [OF io(1) c] c show ?thesis by (intro exI [of _ ?s]) (simp add: waiting_def read_call_def)
qed

text \<open>
  (C14) Whatever state the scheduler is in, a fiber that waits for its descriptor can be resumed, also while it has not been switched out yet: an event
  of the descriptor suffices when it is registered, and otherwise its task is in the list and the workers get to it.
\<close>

theorem blocked_can_resume:
  assumes "rt_reachable s" "rt_calls s f = Some c" "waiting c"
  shows "\<exists>s'. rt_step\<^sup>*\<^sup>* s s' \<and> rt_calls s' f = Some (c\<lparr>ic_place := Resumed\<rparr>)"
  by (rule resume_run [OF assms])

theorem blocked_can_resume_witness: "\<exists>s. rt_reachable s \<and> rt_calls s 1 = Some (read_call Resumed)"
proof -
  obtain io where io: "rt_reachable (read_armed\<lparr>rt_io := io, rt_calls := [1 \<mapsto> read_call Suspended]\<rparr>)" (is "rt_reachable ?s") using read_suspended by blast
  have c: "rt_calls ?s 1 = Some (read_call Suspended)" "waiting (read_call Suspended)" "(read_call Suspended)\<lparr>ic_place := Resumed\<rparr> = read_call Resumed"
    by (simp_all add: waiting_def read_call_def)
  from blocked_can_resume [OF io c(1, 2)] c(3) rt_reachable_steps [OF _ io] show ?thesis by auto
qed



text \<open>
  (C17) The I/O scheduler does not stop under a blocked fiber: while a call waits, \<open>IOManager::Stopping\<close> answers false, whatever the other parts of
  the scheduler are, since its registration is counted as pending or its fiber is among the tasks.
\<close>

theorem waiting_keeps_running:
  assumes "rt_reachable s" "rt_calls s f = Some c" "waiting c" "sc_tasks sc = rt_tasks s"
  shows "\<not> fst (io_Stopping (rt_tm s) now (rt_io s) sc)"
proof
  assume "fst (io_Stopping (rt_tm s) now (rt_io s) sc)"
  then have "io_pending (rt_io s) = 0" and t: "rt_tasks s = []" using assms(4) by (auto simp: io_Stopping_def Stopping_def split: prod.splits)
  moreover have inv: "wake_inv s" using rt_reachable_inv [OF assms(1)] .
  moreover have "io_wf (rt_io s)" using inv by (simp add: wake_inv_def)
  ultimately have "dom (io_view (rt_io s)) = {}" using io_view_card [of "rt_io s"] by simp
  then have "io_view (rt_io s) (key c) = None" by blast
  then have "tasks_due (io_view (rt_io s)) (rt_calls s) f = 1" using assms(2, 3) by (simp add: tasks_due_def)
  then have "count_list (rt_tasks s) (fiber_task f) = 1" using inv by (simp add: wake_inv_def)
  with t show False by simp
qed

definition stopped_sched :: "cond_cb scheduler" where
  "stopped_sched = \<lparr>sc_name = ''s'', sc_threads = [], sc_tasks = [], sc_thread_ids = [], sc_thread_count = 1, sc_active = 0, sc_idle = 0,
     sc_use_caller = False, sc_root_fiber = False, sc_root_thread = - 1, sc_stopping = True\<rparr>"

theorem waiting_keeps_running_witness:
  "\<exists>s :: runtime. rt_calls s 1 = Some (read_call Suspended) \<and> \<not> fst (io_Stopping (rt_tm s) 100 (rt_io s) stopped_sched)"
proof -
  obtain io where io: "rt_reachable (read_armed\<lparr>rt_io := io, rt_calls := [1 \<mapsto> read_call Suspended]\<rparr>)" (is "rt_reachable ?s") using read_suspended by blast
  have c: "rt_calls ?s 1 = Some (read_call Suspended)" "waiting (read_call Suspended)" "sc_tasks stopped_sched = rt_tasks ?s"
    by (simp_all add: waiting_def read_call_def stopped_sched_def read_armed_def)
  from waiting_keeps_running [OF io c, of 100] c(1) show ?thesis by blast
qed



text \<open>
  (C19) Two fibers cannot wait for the same event of a descriptor: registering a call fails the assertion of \<open>AddEvent\<close>, which ends the program,
  exactly when another call has its registration for that event; in every other state it returns.
\<close>

theorem one_waiter_per_event:
  assumes "rt_reachable s" "rt_calls s f = Some c" "ic_place c = Registering"
  shows "if \<exists>g d. g \<noteq> f \<and> rt_calls s g = Some d \<and> key d = key c \<and> registered s g d
    then AddEvent ectl (Some 0) (f, RUNNING) (rt_io s) (ic_fd c) (ic_event c) None = Inl Assertion_Failed
    else \<exists>rt io'. AddEvent ectl (Some 0) (f, RUNNING) (rt_io s) (ic_fd c) (ic_event c) None = Inr (rt, io')"
proof -
  have inv: "io_wf (rt_io s)" "0 \<le> ic_fd c" "is_event (ic_event c)" and e: "entries_ok (io_view (rt_io s)) (rt_calls s)"
    using rt_reachable_inv [OF assms(1)] assms(2) by (auto simp: wake_inv_def)
  have eq: "io_view (rt_io s) (key c) \<noteq> None \<longleftrightarrow> (\<exists>g d. g \<noteq> f \<and> rt_calls s g = Some d \<and> key d = key c \<and> registered s g d)"
  proof
    assume "io_view (rt_io s) (key c) \<noteq> None"
    with e obtain g d where g: "io_view (rt_io s) (key c) = Some (0, fiber_task g)" "rt_calls s g = Some d" "key c = key d" "waiting d"
      unfolding entries_ok_def by blast
    have "g \<noteq> f" using g(2, 4) assms(2, 3) by (auto simp: waiting_def)
    with g show "\<exists>g d. g \<noteq> f \<and> rt_calls s g = Some d \<and> key d = key c \<and> registered s g d" by (auto simp: registered_def)
  qed (auto simp: registered_def)
  from add_cases [OF inv, of ectl 0 f None] show ?thesis unfolding eq [symmetric] by (cases "io_view (rt_io s) (key c)") (simp_all add: key_def)
qed

theorem one_waiter_per_event_witness:
  "\<exists>rt io. AddEvent (\<lambda>_ _ _. 0) (Some 0) (1, RUNNING) (IOManager :: cond_cb iomanager) 3 READ None = Inr (rt, io)"
proof -
  have c: "rt_calls read_armed 1 = Some (read_call Registering)" "ic_place (read_call Registering) = Registering" by (simp_all add: read_armed_def read_call_def)
  have n: "\<not> (\<exists>g d. g \<noteq> 1 \<and> rt_calls read_armed g = Some d \<and> key d = key (read_call Registering) \<and> registered read_armed g d)"
    by (simp add: read_armed_def)
  from one_waiter_per_event [OF read_armed_reachable c, of "\<lambda>_ _ _. 0", unfolded if_not_P [OF n]] show ?thesis by (simp add: read_call_def read_armed_def)
qed

text \<open>
  (C16) A timeout can be lost. When the callback of the timer runs after the timer is set and before \<open>AddEvent\<close> registers the fiber, its
  \<open>CancelEvent\<close> finds nothing, and the fiber then waits with no timer, no task and no cancellation left: only the descriptor can still wake it.
\<close>

theorem timeout_lost:
  "\<exists>s c. rt_reachable s \<and> rt_calls s 1 = Some c \<and> ic_place c = Suspended \<and> registered s 1 c \<and> ic_since c = Some 100 \<and> ic_to c = 50 \<and>
     rt_now s = 150 \<and> rt_infos s (ic_info c) = Some ETIMEDOUT \<and> tm_timers (rt_tm s) = [] \<and> rt_tasks s = [] \<and> rt_cancels s = []"
proof -
  obtain io tm where l: "rt_reachable \<lparr>rt_io = io, rt_tm = tm, rt_tasks = [], rt_calls = [1 \<mapsto> read_call Suspended], rt_infos = [0 \<mapsto> ETIMEDOUT],
     rt_fresh = 1, rt_cancels = [], rt_now = 150, rt_results = []\<rparr>" (is "rt_reachable ?s")
    "io_view io (3, READ) = Some (0, fiber_task 1)" "tm_timers tm = []" using lost_run by blast
  then show ?thesis by (intro exI [of _ ?s] exI [of _ "read_call Suspended"]) (simp add: registered_def key_def read_call_def)
qed

end
