(* ===== verification/Blocking_Refinement.thy ===== *)
theory Blocking_Refinement
  imports Blocking_Progress
begin

text \<open>
  The calls that fibers make in \<open>Blocking_IO\<close>, one step at a time and interleaved with everything else, are the sequential \<open>do_io\<close> and
  \<open>connect_with_timeout\<close> of the theory \<open>Hook\<close>: what a call returns is what these compute from the outcomes of the original function and of the waits that the call saw.
\<close>

section \<open>The history of a call\<close>

text \<open>The loop of \<open>do_io\<close> has used up these outcomes and all waits so far, and goes on with what follows.\<close>

definition used_up :: "io_call \<Rightarrow> (int \<times> int) list \<Rightarrow> bool" where
  "used_up c cs \<longleftrightarrow> (\<exists>tr. \<forall>cs' ws'. do_io_retry (ic_to c) (ic_event c) (cs @ cs') (ic_waits c @ ws') [] =
     do_io_retry (ic_to c) (ic_event c) cs' ws' tr)"

definition call_ok :: "io_call \<Rightarrow> bool" where
  "call_ok c \<longleftrightarrow>
     (if ic_connect c
      then ic_event c = WRITE \<and> ic_calls c = (if ic_place c = Calling then [] else [(- 1, EINPROGRESS)])
      else if ic_place c = Calling then used_up c (ic_calls c)
      else (\<exists>cs. ic_calls c = cs @ [(- 1, EAGAIN)] \<and> used_up c cs))"

text \<open>The outcome is the one of \<open>do_io\<close>; the error number of a failed registration is the one the kernel set.\<close>

definition io_result_ok :: "io_call \<Rightarrow> outcome \<Rightarrow> bool" where
  "io_result_ok c r \<longleftrightarrow>
     (case r of
        Returned n e \<Rightarrow> \<exists>tr. do_io_retry (ic_to c) (ic_event c) (ic_calls c @ [(n, e)]) (ic_waits c) [] = Some (n, e, tr)
      | Not_Registered \<Rightarrow> \<forall>rt e. rt \<noteq> 0 \<longrightarrow>
          (\<exists>tr. do_io_retry (ic_to c) (ic_event c) (ic_calls c) (ic_waits c @ [\<lparr>wt_rt = rt, wt_errno = e, wt_cancelled = 0\<rparr>]) [] = Some (- 1, e, tr))
      | Cancelled e \<Rightarrow>
          \<exists>tr. do_io_retry (ic_to c) (ic_event c) (ic_calls c) (ic_waits c @ [\<lparr>wt_rt = 0, wt_errno = 0, wt_cancelled = e\<rparr>]) [] = Some (- 1, e, tr)
      | Checked rt soerr e \<Rightarrow> False)"

text \<open>A connection is tried once, and waited for only if it is in progress.\<close>

definition connect_result_ok :: "io_call \<Rightarrow> outcome \<Rightarrow> bool" where
  "connect_result_ok c r \<longleftrightarrow> ic_event c = WRITE \<and>
     (case r of
        Returned n e \<Rightarrow> ic_calls c = [] \<and> \<not> (n = - 1 \<and> e = EINPROGRESS)
      | Not_Registered \<Rightarrow> False
      | Cancelled e \<Rightarrow> ic_calls c = [(- 1, EINPROGRESS)] \<and> e \<noteq> 0
      | Checked rt soerr e \<Rightarrow> ic_calls c = [(- 1, EINPROGRESS)])"

definition result_ok :: "io_call \<Rightarrow> outcome \<Rightarrow> bool" where
  "result_ok c r \<longleftrightarrow> (if ic_connect c then connect_result_ok c r else io_result_ok c r)"

lemma EAGAIN_EINTR [simp]: "EAGAIN \<noteq> EINTR" "EINTR \<noteq> EAGAIN"
  by (simp_all add: EAGAIN_def EINTR_def)

lemma used_up_move [simp]:
  "used_up (c\<lparr>ic_place := p\<rparr>) cs = used_up c cs" "used_up (c\<lparr>ic_timer := a\<rparr>) cs = used_up c cs" "used_up (c\<lparr>ic_since := t\<rparr>) cs = used_up c cs"
  "used_up (c\<lparr>ic_calls := k\<rparr>) cs = used_up c cs"
  by (simp_all add: used_up_def)

lemma used_up_new: "used_up (new_call connect fd ev to info) []"
  by (auto simp: used_up_def new_call_def)

lemma used_up_interrupted: "used_up c cs \<Longrightarrow> used_up c (cs @ [(- 1, EINTR)])"
  unfolding used_up_def by (metis (no_types, lifting) append.assoc append_Cons append_Nil do_io_retry.simps(2))

text \<open>A wait that ends without a timeout uses the outcome that made the call wait up, too.\<close>

lemma used_up_waited:
  assumes "used_up c cs"
  shows "used_up (c\<lparr>ic_waits := ic_waits c @ [\<lparr>wt_rt = 0, wt_errno = 0, wt_cancelled = 0\<rparr>]\<rparr>) (cs @ [(- 1, EAGAIN)])"
proof -
  from assms obtain tr where "\<And>cs' ws'. do_io_retry (ic_to c) (ic_event c) (cs @ cs') (ic_waits c @ ws') [] =
    do_io_retry (ic_to c) (ic_event c) cs' ws' tr" by (auto simp: used_up_def)
  then show ?thesis by (auto simp: used_up_def Let_def)
qed

lemma used_up_result:
  assumes "used_up c cs"
  shows "\<not> (n = - 1 \<and> (e = EINTR \<or> e = EAGAIN)) \<Longrightarrow> \<exists>tr. do_io_retry (ic_to c) (ic_event c) (cs @ [(n, e)]) (ic_waits c) [] = Some (n, e, tr)"
    "wt_rt w \<noteq> 0 \<Longrightarrow> \<exists>tr. do_io_retry (ic_to c) (ic_event c) (cs @ [(- 1, EAGAIN)]) (ic_waits c @ [w]) [] = Some (- 1, wt_errno w, tr)"
    "wt_rt w = 0 \<Longrightarrow> wt_cancelled w \<noteq> 0 \<Longrightarrow>
      \<exists>tr. do_io_retry (ic_to c) (ic_event c) (cs @ [(- 1, EAGAIN)]) (ic_waits c @ [w]) [] = Some (- 1, wt_cancelled w, tr)"
proof -
  from assms obtain tr where u: "\<And>cs' ws'. do_io_retry (ic_to c) (ic_event c) (cs @ cs') (ic_waits c @ ws') [] =
    do_io_retry (ic_to c) (ic_event c) cs' ws' tr" by (auto simp: used_up_def)
  show "\<not> (n = - 1 \<and> (e = EINTR \<or> e = EAGAIN)) \<Longrightarrow> \<exists>tr. do_io_retry (ic_to c) (ic_event c) (cs @ [(n, e)]) (ic_waits c) [] = Some (n, e, tr)"
    using u [of "[(n, e)]" "[]"] by auto
  show "wt_rt w \<noteq> 0 \<Longrightarrow> \<exists>tr. do_io_retry (ic_to c) (ic_event c) (cs @ [(- 1, EAGAIN)]) (ic_waits c @ [w]) [] = Some (- 1, wt_errno w, tr)"
    "wt_rt w = 0 \<Longrightarrow> wt_cancelled w \<noteq> 0 \<Longrightarrow>
      \<exists>tr. do_io_retry (ic_to c) (ic_event c) (cs @ [(- 1, EAGAIN)]) (ic_waits c @ [w]) [] = Some (- 1, wt_cancelled w, tr)"
    by (auto simp: u Let_def)
qed

section \<open>Every step keeps to it\<close>

definition history_inv :: "runtime \<Rightarrow> bool" where
  "history_inv s \<longleftrightarrow> (\<forall>f c. rt_calls s f = Some c \<longrightarrow> call_ok c) \<and> (\<forall>f c r t. (f, c, r, t) \<in> set (rt_results s) \<longrightarrow> result_ok c r)"

lemma history_call: "history_inv s \<Longrightarrow> call_ok c \<Longrightarrow> rt_results s' = rt_results s \<Longrightarrow> rt_calls s' = (rt_calls s)(f \<mapsto> c) \<Longrightarrow> history_inv s'"
  by (auto simp: history_inv_def)

lemma history_finish: "history_inv s \<Longrightarrow> result_ok c r \<Longrightarrow> rt_results s' = rt_results s \<Longrightarrow> rt_calls s' = rt_calls s \<Longrightarrow> history_inv (finish f c r s')"
  by (auto simp: history_inv_def finish_def)

lemma history_env: "history_inv s \<Longrightarrow> rt_results s' = rt_results s \<Longrightarrow> rt_calls s' = rt_calls s \<Longrightarrow> history_inv s'"
  by (simp add: history_inv_def)

text \<open>Moving on between the places after the first outcome, with no further outcome.\<close>

lemma call_ok_move: "call_ok c \<Longrightarrow> ic_place c \<noteq> Calling \<Longrightarrow> p \<noteq> Calling \<Longrightarrow> call_ok (c\<lparr>ic_place := p\<rparr>)"
  by (simp add: call_ok_def)

lemma call_ok_begin: "(connect \<Longrightarrow> ev = WRITE) \<Longrightarrow> call_ok (new_call connect fd ev to info)"
  using used_up_new [of connect fd ev to info] by (auto simp: call_ok_def new_call_def)

lemma call_ok_outcome:
  assumes "call_ok c" "ic_place c = Calling"
  shows "again_errno c EINTR \<Longrightarrow> call_ok (c\<lparr>ic_calls := ic_calls c @ [(- 1, EINTR)]\<rparr>)"
    "call_ok (c\<lparr>ic_place := Arming, ic_calls := ic_calls c @ [(- 1, wait_errno c)]\<rparr>)"
    "\<not> (n = - 1 \<and> (again_errno c errno \<or> errno = wait_errno c)) \<Longrightarrow> result_ok c (Returned n errno)"
proof -
  show "again_errno c EINTR \<Longrightarrow> call_ok (c\<lparr>ic_calls := ic_calls c @ [(- 1, EINTR)]\<rparr>)"
    using assms used_up_interrupted by (simp add: call_ok_def again_errno_def)
  show "call_ok (c\<lparr>ic_place := Arming, ic_calls := ic_calls c @ [(- 1, wait_errno c)]\<rparr>)" using assms by (auto simp: call_ok_def wait_errno_def)
  assume "\<not> (n = - 1 \<and> (again_errno c errno \<or> errno = wait_errno c))"
  then show "result_ok c (Returned n errno)"
    using assms used_up_result(1) [of c "ic_calls c" n errno]
    by (auto simp: call_ok_def result_ok_def connect_result_ok_def io_result_ok_def again_errno_def wait_errno_def split: if_splits)
qed

lemma call_ok_waited:
  assumes "call_ok c" "ic_place c \<noteq> Calling"
  shows "result_ok c (if ic_connect c then Checked rt soerr errno else Not_Registered)" "ic_connect c \<Longrightarrow> result_ok c (Checked 0 soerr errno)"
    "e \<noteq> 0 \<Longrightarrow> result_ok c (Cancelled e)"
    "\<not> ic_connect c \<Longrightarrow> call_ok (c\<lparr>ic_place := Calling, ic_timer := None, ic_waits := ic_waits c @ [\<lparr>wt_rt = 0, wt_errno = 0, wt_cancelled = 0\<rparr>]\<rparr>)"
proof -
  have cs: "\<exists>cs. ic_calls c = cs @ [(- 1, EAGAIN)] \<and> used_up c cs" if "\<not> ic_connect c" using assms that by (simp add: call_ok_def)
  show "ic_connect c \<Longrightarrow> result_ok c (Checked 0 soerr errno)" using assms by (simp add: call_ok_def result_ok_def connect_result_ok_def)
  show "result_ok c (if ic_connect c then Checked rt soerr errno else Not_Registered)"
  proof (cases "ic_connect c")
    case False
    with cs obtain cs where c: "ic_calls c = cs @ [(- 1, EAGAIN)]" "used_up c cs" by blast
    have "io_result_ok c Not_Registered" unfolding io_result_ok_def c(1) outcome.case
      using used_up_result(2) [OF c(2), where w = "\<lparr>wt_rt = r, wt_errno = e, wt_cancelled = 0\<rparr>" for r e] by simp
    with False show ?thesis by (simp add: result_ok_def)
  qed (use assms in \<open>simp add: call_ok_def result_ok_def connect_result_ok_def\<close>)
  show "result_ok c (Cancelled e)" if "e \<noteq> 0"
  proof (cases "ic_connect c")
    case False
    with cs obtain cs where c: "ic_calls c = cs @ [(- 1, EAGAIN)]" "used_up c cs" by blast
    have "io_result_ok c (Cancelled e)" unfolding io_result_ok_def c(1) outcome.case
      using used_up_result(3) [OF c(2), where w = "\<lparr>wt_rt = 0, wt_errno = 0, wt_cancelled = e\<rparr>"] that by simp
    with False show ?thesis by (simp add: result_ok_def)
  qed (use assms that in \<open>simp add: call_ok_def result_ok_def connect_result_ok_def\<close>)
  assume n: "\<not> ic_connect c"
  with cs obtain cs where c: "ic_calls c = cs @ [(- 1, EAGAIN)]" "used_up c cs" by blast
  let ?c = "c\<lparr>ic_place := Calling, ic_timer := None, ic_waits := ic_waits c @ [\<lparr>wt_rt = 0, wt_errno = 0, wt_cancelled = 0\<rparr>]\<rparr>"
  have "used_up ?c (ic_calls c)" using used_up_waited [OF c(2)] by (simp add: c(1) used_up_def)
  with n show "call_ok ?c" by (simp add: call_ok_def)
qed

lemma history_step:
  assumes "rt_step s s'" "history_inv s" "wake_inv s"
  shows "history_inv s'"
proof -
  have ok: "call_ok c" if "rt_calls s f = Some c" for f c using assms(2) that by (auto simp: history_inv_def)
  note upd = history_call [OF assms(2)] and fin = history_finish [OF assms(2)]
  show ?thesis
    using assms(1)
  proof cases
    case (begin_call f fd ev info connect to)
    show ?thesis unfolding begin_call
      by (rule upd [of "new_call connect fd ev to (rt_fresh s)"]) (use call_ok_begin begin_call(6) in \<open>simp_all add: set_call_def begin_call(5)\<close>)
  next
    case (origin_returns f c n errno)
    show ?thesis unfolding origin_returns by (rule fin [OF call_ok_outcome(3)]) (use ok origin_returns in simp_all)
  next
    case (interrupted f c)
    show ?thesis unfolding interrupted by (rule upd [OF call_ok_outcome(1)]) (use ok interrupted in \<open>simp_all add: set_call_def\<close>)
  next
    case (would_block f c)
    show ?thesis unfolding would_block by (rule upd [OF call_ok_outcome(2)]) (use ok would_block in \<open>simp_all add: set_call_def\<close>)
  next
    case (arm f c a now)
    have "call_ok (c\<lparr>ic_place := Registering, ic_timer := Some a, ic_since := since\<rparr>)" for since
      using ok [OF arm(2)] arm(3) by (simp add: call_ok_def)
    then show ?thesis unfolding arm by (intro upd) (simp_all add: set_call_def)
  next
    case (arm_forever f c)
    show ?thesis unfolding arm_forever by (rule upd [OF call_ok_move]) (use ok arm_forever in \<open>simp_all add: set_call_def\<close>)
  next
    case (register f c ectl io')
    show ?thesis unfolding register by (rule upd [OF call_ok_move]) (use ok register in \<open>simp_all add: set_call_def\<close>)
  next
    case (register_fails f c ectl rt io' tm' soerr errno)
    show ?thesis unfolding register_fails by (rule fin [OF call_ok_waited(1)]) (use ok register_fails in simp_all)
  next
    case (yield f c)
    show ?thesis unfolding yield by (rule upd [OF call_ok_move]) (use ok yield in \<open>simp_all add: set_call_def\<close>)
  next
    case (resume tid t ts tickle f c)
    have "ic_place c = Suspended" by (rule wake_inv_resume(2) [OF assms(3) resume(2-4)])
    then show ?thesis unfolding resume by (intro upd [OF call_ok_move]) (use ok resume in \<open>simp_all add: set_call_def\<close>)
  next
    case (return_cancelled f c tm' e)
    show ?thesis unfolding return_cancelled by (rule fin [OF call_ok_waited(3)]) (use ok return_cancelled in simp_all)
  next
    case (connected f c tm' soerr errno)
    show ?thesis unfolding connected by (rule fin [OF call_ok_waited(2)]) (use ok connected in simp_all)
  next
    case (retry f c tm')
    show ?thesis unfolding retry by (rule upd [OF call_ok_waited(4)]) (use ok retry in \<open>simp_all add: set_call_def\<close>)
  qed (auto intro!: history_env [OF assms(2)])
qed

lemma rt_reachable_history: "rt_reachable s \<Longrightarrow> history_inv s"
proof (induction rule: rt_reachable.induct)
  case (start now)
  show ?case by (simp add: history_inv_def runtime_start_def)
next
  case (step s s')
  then show ?case using history_step rt_reachable_inv by blast
qed

lemma rt_result_ok: "rt_reachable s \<Longrightarrow> (f, c, r, t) \<in> set (rt_results s) \<Longrightarrow> result_ok c r"
  using rt_reachable_history unfolding history_inv_def by blast

section \<open>Properties\<close>


definition read_table :: fd_manager where
  "read_table = FdManager[3 := Some (sock_ctx\<lparr>recv_timeout := 50\<rparr>)]"



definition connect_call :: "io_place \<Rightarrow> io_call" where
  "connect_call p = \<lparr>ic_connect = True, ic_fd = 3, ic_event = WRITE, ic_to = - 1, ic_info = 0, ic_place = p, ic_timer = None, ic_since = None,
     ic_calls = [(- 1, EINPROGRESS)], ic_waits = []\<rparr>"

text \<open>Fiber 1 connects without a timeout, waits, is woken and finds no error.\<close>

lemma connect_run: "\<exists>s t. rt_reachable s \<and> (1, connect_call Resumed, Checked 0 (Some 0) 0, t) \<in> set (rt_results s)"
proof -
  let ?c = "new_call True 3 WRITE (- 1) 0"
  define s1 where "s1 = set_call 1 ?c ((runtime_start 100)\<lparr>rt_infos := (rt_infos (runtime_start 100))(0 \<mapsto> 0), rt_fresh := Suc 0\<rparr>)"
  define s2 where "s2 = set_call 1 (?c\<lparr>ic_place := Arming, ic_calls := ic_calls ?c @ [(- 1, wait_errno ?c)]\<rparr>) s1"
  define s3 where "s3 = set_call 1 (connect_call Registering) s2"
  have "rt_step (runtime_start 100) s1" unfolding s1_def by (rule rt_step.begin_call) (simp_all add: runtime_start_def is_event_def)
  moreover have "rt_step s1 s2" unfolding s2_def by (rule rt_step.would_block) (simp_all add: s1_def set_call_def new_call_def)
  moreover have c: "?c\<lparr>ic_place := Arming, ic_calls := ic_calls ?c @ [(- 1, wait_errno ?c)]\<rparr> = connect_call Arming"
    by (simp add: new_call_def connect_call_def wait_errno_def)
  have "rt_step s2 (set_call 1 ((connect_call Arming)\<lparr>ic_place := Registering\<rparr>) s2)"
    by (rule rt_step.arm_forever) (simp_all add: s2_def c set_call_def, simp_all add: connect_call_def)
  then have "rt_step s2 s3" by (simp add: s3_def connect_call_def)
  ultimately have r3: "rt_reachable s3" by (meson rt_reachable.intros)
  have c3: "rt_calls s3 1 = Some (connect_call Registering)" "ic_place (connect_call Registering) = Registering" "rt_io s3 = IOManager"
    by (simp_all add: s3_def s2_def s1_def set_call_def connect_call_def runtime_start_def)
  from register_run [OF rt_reachable_inv [OF r3] c3(1, 2)] c3(3) obtain io where
    "rt_step\<^sup>*\<^sup>* s3 (set_call 1 ((connect_call Registering)\<lparr>ic_place := Suspended\<rparr>) (s3\<lparr>rt_io := io\<rparr>))" (is "rt_step\<^sup>*\<^sup>* s3 ?s4") by auto
  from rt_reachable_steps [OF this r3] have r4: "rt_reachable ?s4" .
  have "rt_calls ?s4 1 = Some (connect_call Suspended)" "waiting (connect_call Suspended)" by (simp_all add: set_call_def connect_call_def waiting_def)
  from resume_run [OF r4 this] obtain s5 where s5: "rt_step\<^sup>*\<^sup>* ?s4 s5" "rt_calls s5 1 = Some (connect_call Resumed)" by (auto simp: connect_call_def)
  note r5 = rt_reachable_steps [OF s5(1) r4]
  have i: "ic_place (connect_call Resumed) = Resumed" "ic_connect (connect_call Resumed)" "cancel_timer (rt_tm s5) (ic_timer (connect_call Resumed)) = Inr (rt_tm s5)"
    by (simp_all add: connect_call_def cancel_timer_def)
  show ?thesis
  proof (cases "rt_infos s5 (ic_info (connect_call Resumed)) = Some 0")
    case True
    from rt_reachable.step [OF r5 rt_step.connected [OF s5(2) i(1, 3) True i(2), of "Some 0" 0]] show ?thesis
      by (intro exI [of _ "rt_now s5"] exI conjI) (assumption, simp add: finish_def)
  next
    case False
    with time_invD(4, 5) [OF rt_reachable_time [OF r5]] s5(2) show ?thesis by (fastforce simp: ref_ok_def due_by_def connect_call_def)
  qed
qed


end
