(* ===== verification/Fiber_Room.thy ===== *)
theory Fiber_Room
  imports Prelude
begin

text \<open>
  The abstract specification of blocking in a fiber: a room in which each fiber is free, runs, waits for a key, or has been woken and is due
  to run. The locale \<open>fiber_room\<close> says that a machine keeps to it, step by step; the calls that wait for descriptors and the sleeps of
  \<open>net/hook.cc\<close> do, in the theories that have them.
\<close>

section \<open>The room\<close>

datatype 'k status = Free | Running | Waiting 'k | Woken

text \<open>
  A fiber starts a blocking operation and ends it; it waits for a key that nobody waits for; any set of waiting fibers is woken at once, also none; a
  fiber that was woken runs again.
\<close>

inductive room_step :: "('f \<Rightarrow> 'k status) \<Rightarrow> ('f \<Rightarrow> 'k status) \<Rightarrow> bool" where
  enter: "r f = Free \<Longrightarrow> room_step r (r(f := Running))"
| leave: "r f = Running \<Longrightarrow> room_step r (r(f := Free))"
| block: "r f = Running \<Longrightarrow> (\<And>g. r g \<noteq> Waiting k) \<Longrightarrow> room_step r (r(f := Waiting k))"
| wake: "(\<And>f. f \<in> F \<Longrightarrow> \<exists>k. r f = Waiting k) \<Longrightarrow> room_step r (\<lambda>f. if f \<in> F then Woken else r f)"
| resume: "r f = Woken \<Longrightarrow> room_step r (r(f := Running))"

inductive room_reachable :: "('f \<Rightarrow> 'k status) \<Rightarrow> bool" where
  start: "(\<And>f. r f = Free \<or> r f = Running) \<Longrightarrow> room_reachable r"
| step: "room_reachable r \<Longrightarrow> room_step r r' \<Longrightarrow> room_reachable r'"

text \<open>The life of one fiber.\<close>

inductive moves :: "'k status \<Rightarrow> 'k status \<Rightarrow> bool" where
  stay: "moves a a"
| enters: "moves Free Running"
| leaves: "moves Running Free"
| blocks: "moves Running (Waiting k)"
| woken: "moves (Waiting k) Woken"
| resumes: "moves Woken Running"

inductive_simps moves_from [simp]: "moves Free a" "moves Running a" "moves (Waiting k) a" "moves Woken a"

lemma room_stutter: "r' = r \<Longrightarrow> room_step r r'"
  using room_step.wake [of "{}" r] by simp

lemma room_step_moves: "room_step r r' \<Longrightarrow> moves (r f) (r' f)"
proof (induction rule: room_step.induct)
  case (wake F r)
  show ?case
  proof (cases "f \<in> F")
    case True
    then obtain k where "r f = Waiting k" using wake by blast
    with True show ?thesis by (simp add: moves.intros)
  qed (simp add: moves.intros)
qed (auto intro: moves.intros)

lemma room_exclusive: "room_reachable r \<Longrightarrow> r f = Waiting k \<Longrightarrow> r g = Waiting k \<Longrightarrow> f = g"
proof (induction arbitrary: f g k rule: room_reachable.induct)
  case (start r)
  then show ?case by (metis status.distinct(3, 7))
next
  case (step r r')
  from step.hyps(2) show ?case
    by cases (use step.IH step.prems in \<open>auto split: if_splits\<close>)
qed

lemma room_reachable_steps: "room_step\<^sup>*\<^sup>* r r' \<Longrightarrow> room_reachable r \<Longrightarrow> room_reachable r'"
  by (induction rule: rtranclp_induct) (auto intro: room_reachable.step)

section \<open>Machines that keep to it\<close>

locale fiber_room =
  fixes init :: "'s \<Rightarrow> bool" and reach :: "'s \<Rightarrow> bool" and step :: "'s \<Rightarrow> 's \<Rightarrow> bool" and room :: "'s \<Rightarrow> 'f \<Rightarrow> 'k status"
  assumes from_init: "reach s \<Longrightarrow> \<exists>s0. init s0 \<and> reach s0 \<and> step\<^sup>*\<^sup>* s0 s"
    and closed: "reach s \<Longrightarrow> step s s' \<Longrightarrow> reach s'"
    and init_room: "init s \<Longrightarrow> room s f = Free \<or> room s f = Running"
    and simulates: "reach s \<Longrightarrow> step s s' \<Longrightarrow> room_step (room s) (room s')"
begin

lemma steps_simulate: "step\<^sup>*\<^sup>* s s' \<Longrightarrow> reach s \<Longrightarrow> reach s' \<and> room_step\<^sup>*\<^sup>* (room s) (room s')"
proof (induction rule: rtranclp_induct)
  case (step s1 s2)
  then show ?case using closed simulates by (meson rtranclp.rtrancl_into_rtrancl)
qed simp

lemma reach_room: "reach s \<Longrightarrow> room_reachable (room s)"
proof -
  assume "reach s"
  then obtain s0 where s0: "init s0" "reach s0" "step\<^sup>*\<^sup>* s0 s" using from_init by blast
  have "room_reachable (room s0)" using init_room [OF s0(1)] by (rule room_reachable.start)
  with steps_simulate [OF s0(3, 2)] show ?thesis using room_reachable_steps by blast
qed

text \<open>Two fibers do not wait for the same key.\<close>

lemma exclusive: "reach s \<Longrightarrow> room s f = Waiting k \<Longrightarrow> room s g = Waiting k \<Longrightarrow> f = g"
  by (rule room_exclusive [OF reach_room])

text \<open>A fiber that waits runs again only after it was woken: on every run there is a state in between in which it is woken.\<close>

lemma woken_between:
  assumes "step\<^sup>*\<^sup>* s s'" "reach s" "room s f = Waiting k" "room s' f \<noteq> Waiting k"
  shows "\<exists>s1. step\<^sup>*\<^sup>* s s1 \<and> step\<^sup>*\<^sup>* s1 s' \<and> room s1 f = Woken"
  using assms
proof (induction rule: converse_rtranclp_induct)
  case base
  then show ?case by simp
next
  case (step s s1)
  have "moves (room s f) (room s1 f)" using simulates [OF step.prems(1) step.hyps(1)] by (rule room_step_moves)
  with step.prems(2) consider "room s1 f = Waiting k" | "room s1 f = Woken" by auto
  then show ?case
  proof cases
    case 1
    with step closed have "\<exists>s2. step\<^sup>*\<^sup>* s1 s2 \<and> step\<^sup>*\<^sup>* s2 s' \<and> room s2 f = Woken" by blast
    with step.hyps(1) show ?thesis by (meson converse_rtranclp_into_rtranclp)
  next
    case 2
    with step.hyps show ?thesis by blast
  qed
qed

end

end
