(* ===== verification/Blocking_Room.thy ===== *)
theory Blocking_Room
  imports Blocking_Progress Fiber_Room
begin

text \<open>
  The calls of \<open>Blocking_IO\<close> keep to the room of \<open>Fiber_Room\<close>: what the table of events, the task list and the places of the calls say of a
  fiber is one status, and every step of the machine is one step of the room.
\<close>

section \<open>The status of a fiber\<close>

definition call_status :: "(event_key \<rightharpoonup> cond_cb wakeup) \<Rightarrow> nat \<Rightarrow> io_call option \<Rightarrow> event_key status" where
  "call_status view f call =
     (case call of
        None \<Rightarrow> Free
      | Some c \<Rightarrow> if \<not> waiting c then Running else if view (key c) = Some (0, fiber_task f) then Waiting (key c) else Woken)"

definition rt_room :: "runtime \<Rightarrow> nat \<Rightarrow> event_key status" where
  "rt_room s f = call_status (io_view (rt_io s)) f (rt_calls s f)"

lemma rt_room_call:
  "rt_io s' = rt_io s \<Longrightarrow> rt_calls s' = (rt_calls s)(f := v) \<Longrightarrow> rt_room s' = (rt_room s)(f := call_status (io_view (rt_io s)) f v)"
  by (auto simp: rt_room_def fun_eq_iff)

lemma rt_room_running: "rt_calls s f = Some c \<Longrightarrow> \<not> waiting c \<Longrightarrow> rt_room s f = Running"
  by (simp add: rt_room_def call_status_def)

text \<open>A step of a call that does not wait before or after, or that stays registered or not.\<close>

lemma room_same:
  assumes "rt_io s' = rt_io s" "rt_calls s' = (rt_calls s)(f \<mapsto> c')" "rt_calls s f = Some c" "waiting c' = waiting c" "key c' = key c"
  shows "room_step (rt_room s) (rt_room s')"
proof -
  have "call_status (io_view (rt_io s)) f (Some c') = rt_room s f" using assms(3-5) by (simp add: call_status_def rt_room_def)
  then have "rt_room s' = rt_room s" using rt_room_call [OF assms(1, 2)] by simp
  then show ?thesis by (rule room_stutter)
qed

lemma room_leave:
  assumes "io_view (rt_io s') = io_view (rt_io s)" "rt_calls s' = (rt_calls s)(f := None)" "rt_calls s f = Some c" "\<not> waiting c"
  shows "room_step (rt_room s) (rt_room s')"
proof -
  have "rt_room s' = (rt_room s)(f := Free)" using assms(1, 2) by (auto simp: rt_room_def call_status_def)
  with room_step.leave [of "rt_room s" f] rt_room_running [OF assms(3, 4)] show ?thesis by simp
qed

lemma room_set_call:
  "rt_calls s f = Some c \<Longrightarrow> waiting c' = waiting c \<Longrightarrow> key c' = key c \<Longrightarrow> rt_io s1 = rt_io s \<Longrightarrow> rt_calls s1 = rt_calls s \<Longrightarrow>
    room_step (rt_room s) (rt_room (set_call f c' s1))"
  by (rule room_same [where f = f and c = c and c' = c']) (simp_all add: set_call_def)

lemma room_finish:
  "rt_calls s f = Some c \<Longrightarrow> \<not> waiting c \<Longrightarrow> io_view (rt_io s1) = io_view (rt_io s) \<Longrightarrow> rt_calls s1 = rt_calls s \<Longrightarrow>
    room_step (rt_room s) (rt_room (finish f c r s1))"
  by (rule room_leave) (simp_all add: finish_def)

text \<open>What is taken out of the table is woken.\<close>

lemma room_wakes:
  assumes "wakes (io_view (rt_io s)) (io_view (rt_io s')) ks ws" "rt_calls s' = rt_calls s"
  shows "room_step (rt_room s) (rt_room s')"
proof -
  define F where "F = {f. (\<exists>k. rt_room s f = Waiting k) \<and> rt_room s' f = Woken}"
  have "rt_room s' f = (if f \<in> F then Woken else rt_room s f)" for f
    using wakesD(1) [OF assms(1)] assms(2) by (auto simp: F_def rt_room_def call_status_def split: option.splits if_splits)
  then have "rt_room s' = (\<lambda>f. if f \<in> F then Woken else rt_room s f)" by blast
  moreover have "room_step (rt_room s) (\<lambda>f. if f \<in> F then Woken else rt_room s f)" by (rule room_step.wake) (simp add: F_def)
  ultimately show ?thesis by simp
qed

lemma room_register:
  assumes "wake_inv s" "rt_calls s f = Some c" "ic_place c = Registering"
    "AddEvent ectl (Some 0) (f, RUNNING) (rt_io s) (ic_fd c) (ic_event c) None = Inr (0, io')"
  shows "room_step (rt_room s) (rt_room (set_call f (c\<lparr>ic_place := Yielding\<rparr>) (s\<lparr>rt_io := io'\<rparr>)))"
proof -
  let ?v = "io_view (rt_io s)" and ?s = "set_call f (c\<lparr>ic_place := Yielding\<rparr>) (s\<lparr>rt_io := io'\<rparr>)"
  have inv: "io_wf (rt_io s)" "0 \<le> ic_fd c" "is_event (ic_event c)" using assms(1, 2) by (auto simp: wake_inv_def)
  have p: "party_wake (0, f, None) = (0, fiber_task f)" by (simp add: party_wake_def wakeup_of_def new_ctx_def fiber_task_def)
  have "party_add ectl (0, f, None) (rt_io s) (ic_fd c) (ic_event c) = Inr (0, io')" using assms(4) by (simp add: party_add_def)
  from io.add_law [OF inv this] have v: "?v (key c) = None" "io_view io' = ?v(key c \<mapsto> (0, fiber_task f))" by (simp_all add: p key_def)
  have "rt_room ?s g = ((rt_room s)(f := Waiting (key c))) g" for g
    using v(1) by (cases "g = f") (auto simp: rt_room_def call_status_def set_call_def waiting_def v(2) split: option.splits)
  then have "rt_room ?s = (rt_room s)(f := Waiting (key c))" by blast
  moreover have "room_step (rt_room s) ((rt_room s)(f := Waiting (key c)))"
  proof (rule room_step.block)
    show "rt_room s f = Running" using assms(2, 3) by (simp add: rt_room_running waiting_def)
    show "rt_room s g \<noteq> Waiting (key c)" for g using v(1) by (auto simp: rt_room_def call_status_def split: option.splits)
  qed
  ultimately show ?thesis by simp
qed

lemma room_resume:
  assumes "wake_inv s" "pick tid (fiber_state s) (rt_tasks s) False = Inr (Some t, ts, tk)" "st_fiber t = Some f" "rt_calls s f = Some c"
  shows "room_step (rt_room s) (rt_room (set_call f (c\<lparr>ic_place := Resumed\<rparr>) (s\<lparr>rt_tasks := ts\<rparr>)))"
proof -
  note r = wake_inv_resume(2, 3) [OF assms]
  then have w: "rt_room s f = Woken" using assms(4) by (simp add: rt_room_def call_status_def registered_def waiting_def)
  have "rt_room (set_call f (c\<lparr>ic_place := Resumed\<rparr>) (s\<lparr>rt_tasks := ts\<rparr>)) = (rt_room s)(f := Running)"
    by (auto simp: rt_room_def call_status_def set_call_def fun_eq_iff waiting_def)
  with room_step.resume [of "rt_room s" f] w show ?thesis by simp
qed

section \<open>Every step is a step of the room\<close>

lemma rt_simulates:
  assumes "rt_step s s'" "wake_inv s"
  shows "room_step (rt_room s) (rt_room s')"
proof -
  have inv: "io_wf (rt_io s)" "list_all (is_event \<circ> snd) (rt_cancels s)" using assms(2) by (auto simp: wake_inv_def)
  have fd: "0 \<le> ic_fd c" "is_event (ic_event c)" if "rt_calls s f = Some c" for f c using assms(2) that by (auto simp: wake_inv_def)
  show ?thesis
    using assms(1)
  proof cases
    case (begin_call f fd ev info connect to)
    have "rt_room s' = (rt_room s)(f := Running)"
      unfolding begin_call by (auto simp: rt_room_def call_status_def set_call_def new_call_def waiting_def fun_eq_iff)
    with room_step.enter [of "rt_room s" f] begin_call(2) show ?thesis by (simp add: rt_room_def call_status_def)
  next
    case (register_fails f c ectl rt io' tm' soerr errno)
    have "party_add ectl (0, f, None) (rt_io s) (ic_fd c) (ic_event c) = Inr (rt, io')" using register_fails(4) by (simp add: party_add_def)
    from io.add_law [OF inv(1) fd [OF register_fails(2)] this] register_fails(5) have "io_view io' = io_view (rt_io s)" by simp
    with register_fails(2, 3) show ?thesis unfolding register_fails(1) by (intro room_finish) (simp_all add: waiting_def)
  next
    case (register f c ectl io')
    then show ?thesis using room_register [OF assms(2)] by simp
  next
    case (resume tid t ts tickle f c)
    then show ?thesis using room_resume [OF assms(2)] by simp
  next
    case (cancel_event fd ev ectl b io' ws)
    have "is_event ev" using inv(2) cancel_event(2) by (auto simp: list_all_iff)
    from io.cancel_wakes [OF inv(1) this cancel_event(3)] show ?thesis unfolding cancel_event by (auto intro!: room_wakes)
  next
    case (report fd reported ectl io' ws)
    from io.report_wakes [OF inv(1) report(2, 3)] show ?thesis unfolding report by (auto intro!: room_wakes)
  next
    case (close_fd ectl fd b io' ws)
    from io.cancel_all_wakes [OF inv(1) close_fd(2)] show ?thesis unfolding close_fd by (auto intro!: room_wakes)
  next
    case (expire now now_addr tm' cbs)
    show ?thesis by (rule room_stutter) (simp add: expire(1) rt_room_def fun_eq_iff)
  next
    case (timeout tid t ts tickle info fd ev)
    show ?thesis by (rule room_stutter) (simp add: timeout(1) rt_room_def fun_eq_iff)
  qed (auto simp: waiting_def intro!: room_set_call room_finish)
qed

lemma rt_reachable_start: "rt_reachable s \<Longrightarrow> \<exists>now. rt_step\<^sup>*\<^sup>* (runtime_start now) s"
  by (induction rule: rt_reachable.induct) (auto intro: rtranclp.rtrancl_into_rtrancl)

interpretation rt: fiber_room "\<lambda>s. \<exists>now. s = runtime_start now" rt_reachable rt_step rt_room
proof
  fix s
  assume "rt_reachable s"
  then show "\<exists>s0. (\<exists>now. s0 = runtime_start now) \<and> rt_reachable s0 \<and> rt_step\<^sup>*\<^sup>* s0 s" using rt_reachable_start rt_reachable.start by blast
next
  fix s f
  assume "\<exists>now. s = runtime_start now"
  then show "rt_room s f = Free \<or> rt_room s f = Running" by (auto simp: runtime_start_def rt_room_def call_status_def)
qed (use rt_reachable.step rt_simulates rt_reachable_inv in blast)+

section \<open>Properties\<close>

text \<open>
  (C11) The machine of blocking calls implements the room: every step, of any fiber, timer, callback or kernel report, is a step of the room, in
  which a fiber blocks only on a key that nobody waits for and runs again only after it was woken. So along every run, a fiber whose call waits for
  an event and later does not wait for it any more has been woken in between.
\<close>

theorem blocking_refines_room:
  assumes "rt_reachable s"
  shows "room_reachable (rt_room s) \<and> (\<forall>s'. rt_step s s' \<longrightarrow> room_step (rt_room s) (rt_room s')) \<and>
    (\<forall>s' f k. rt_step\<^sup>*\<^sup>* s s' \<longrightarrow> rt_room s f = Waiting k \<longrightarrow> rt_room s' f \<noteq> Waiting k \<longrightarrow>
      (\<exists>s1. rt_step\<^sup>*\<^sup>* s s1 \<and> rt_step\<^sup>*\<^sup>* s1 s' \<and> rt_room s1 f = Woken))"
proof (intro conjI allI impI)
  show "room_reachable (rt_room s)" by (rule rt.reach_room [OF assms])
  show "room_step (rt_room s) (rt_room s')" if "rt_step s s'" for s' by (rule rt.simulates [OF assms that])
  show "\<exists>s1. rt_step\<^sup>*\<^sup>* s s1 \<and> rt_step\<^sup>*\<^sup>* s1 s' \<and> rt_room s1 f = Woken"
    if "rt_step\<^sup>*\<^sup>* s s'" "rt_room s f = Waiting k" "rt_room s' f \<noteq> Waiting k" for s' f k
    by (rule rt.woken_between [OF that(1) assms that(2, 3)])
qed

theorem blocking_refines_room_witness: "\<exists>s. rt_reachable s \<and> rt_room s 1 = Woken"
proof -
  obtain io where io: "rt_reachable (read_armed\<lparr>rt_io := io, rt_calls := [1 \<mapsto> read_call Suspended]\<rparr>)" (is "rt_reachable ?s")
    "io_view io (3, READ) = Some (0, fiber_task 1)" using read_suspended by blast
  have c: "rt_calls ?s 1 = Some (read_call Suspended)" "waiting (read_call Suspended)" by (simp_all add: waiting_def read_call_def)
  have w: "rt_room ?s 1 = Waiting (3, READ)" using io(2) by (simp add: rt_room_def call_status_def waiting_def read_call_def key_def)
  from resume_run [OF io(1) c] obtain s' where s': "rt_step\<^sup>*\<^sup>* ?s s'" "rt_calls s' 1 = Some ((read_call Suspended)\<lparr>ic_place := Resumed\<rparr>)" by blast
  then have "rt_room s' 1 \<noteq> Waiting (3, READ)" by (simp add: rt_room_def call_status_def waiting_def)
  with blocking_refines_room [OF io(1)] s'(1) w rt_reachable_steps [OF _ io(1)] show ?thesis by blast
qed

end
