(* ===== verification/Sleeping.thy ===== *)
theory Sleeping
  imports Hook Fiber_Room
begin

text \<open>
  Fibers that sleep: \<open>sleep\<close>, \<open>usleep\<close> and \<open>nanosleep\<close> of \<open>net/hook.cc\<close> with the timers of \<open>util/timer.cc\<close> and the task list of
  \<open>fiber/scheduler.cc\<close>, for any number of fibers in any interleaving. A sleep sets a timer whose callback schedules the fiber, and switches
  out; the timer may fire and the callback may run before the switch, in another thread.
\<close>

section \<open>State and steps\<close>

text \<open>A callback is the fiber it schedules. A sleeping fiber has not switched out yet, or it has.\<close>

datatype sleep_place = Switching | Asleep

record sleeper =
  sl_ms :: u64
  sl_since :: u64
  sl_place :: sleep_place

record sleepers =
  ss_tm :: "nat timer_manager"
  ss_tasks :: "nat schedule_task list"
  ss_fibers :: "nat \<Rightarrow> sleeper option"
  ss_now :: u64
  ss_woken :: "(nat \<times> sleeper \<times> u64) list"

definition sleepers_start :: "u64 \<Rightarrow> sleepers" where
  "sleepers_start now = \<lparr>ss_tm = TimerManager now, ss_tasks = [], ss_fibers = (\<lambda>_. None), ss_now = now, ss_woken = []\<rparr>"

definition sleep_state :: "sleepers \<Rightarrow> nat \<Rightarrow> state" where
  "sleep_state s f = (case ss_fibers s f of Some z \<Rightarrow> if sl_place z = Asleep then READY else RUNNING | None \<Rightarrow> RUNNING)"

definition wake_task :: "nat \<Rightarrow> nat schedule_task" where
  "wake_task f = ScheduleTask (Some f) None (- 1)"

definition timer_task :: "nat \<Rightarrow> nat schedule_task" where
  "timer_task f = ScheduleTask None (Some f) (- 1)"

definition start_sleep :: "nat \<Rightarrow> u64 \<Rightarrow> nat \<Rightarrow> u64 \<Rightarrow> sleepers \<Rightarrow> sleepers" where
  "start_sleep a now f ms s = s\<lparr>ss_tm := fst (AddTimer (ss_tm s) a now ms (Some f) False), ss_now := now,
     ss_fibers := (ss_fibers s)(f \<mapsto> \<lparr>sl_ms = ms, sl_since = now, sl_place = Switching\<rparr>)\<rparr>"

inductive sl_step :: "sleepers \<Rightarrow> sleepers \<Rightarrow> bool" where
  sleep: "ss_fibers s f = None \<Longrightarrow> tm_heap (ss_tm s) a = None \<Longrightarrow> ss_now s \<le> now \<Longrightarrow> unat now + unat ms < 2 ^ 64 \<Longrightarrow>
    sl_step s (start_sleep a now f ms s)"
| switch: "ss_fibers s f = Some z \<Longrightarrow> sl_place z = Switching \<Longrightarrow> sl_step s (s\<lparr>ss_fibers := (ss_fibers s)(f \<mapsto> z\<lparr>sl_place := Asleep\<rparr>)\<rparr>)"
| expire: "ss_now s \<le> now \<Longrightarrow> tm_heap (ss_tm s) now_addr = None \<Longrightarrow> \<not> fst (DetectClockRollover (ss_tm s) now) \<Longrightarrow>
    ListExpiredCb (ss_tm s) now_addr now [] = (tm', cbs) \<Longrightarrow>
    sl_step s (s\<lparr>ss_tm := tm', ss_now := now, ss_tasks := ss_tasks s @ filter task_set (map (\<lambda>cb. ScheduleTask None cb (- 1)) cbs)\<rparr>)"
| call: "pick tid (sleep_state s) (ss_tasks s) False = Inr (Some t, ts, tickle) \<Longrightarrow> st_cb t = Some f \<Longrightarrow>
    sl_step s (s\<lparr>ss_tasks := ts @ [wake_task f]\<rparr>)"
| wake: "pick tid (sleep_state s) (ss_tasks s) False = Inr (Some t, ts, tickle) \<Longrightarrow> st_fiber t = Some f \<Longrightarrow> ss_fibers s f = Some z \<Longrightarrow>
    sl_step s (s\<lparr>ss_tasks := ts, ss_fibers := (ss_fibers s)(f := None), ss_woken := ss_woken s @ [(f, z, ss_now s)]\<rparr>)"

inductive sl_reachable :: "sleepers \<Rightarrow> bool" where
  start: "sl_reachable (sleepers_start now)"
| step: "sl_reachable s \<Longrightarrow> sl_step s s' \<Longrightarrow> sl_reachable s'"

section \<open>One wake-up per sleep\<close>

definition timers_for :: "nat timer_manager \<Rightarrow> nat \<Rightarrow> nat set" where
  "timers_for tm f = {a. \<exists>t. tm_heap tm a = Some t \<and> tmr_cb t = Some f}"

text \<open>The ways a fiber can still be woken: its timers, its callbacks and its tasks.\<close>

definition wakeups :: "sleepers \<Rightarrow> nat \<Rightarrow> nat" where
  "wakeups s f = card (timers_for (ss_tm s) f) + count_list (ss_tasks s) (timer_task f) + count_list (ss_tasks s) (wake_task f)"

definition sleep_task_ok :: "nat schedule_task \<Rightarrow> bool" where
  "sleep_task_ok t \<longleftrightarrow> (\<exists>f. t = wake_task f \<or> t = timer_task f)"

definition sleep_inv :: "sleepers \<Rightarrow> bool" where
  "sleep_inv s \<longleftrightarrow> tm_ok (ss_tm s) \<and> finite (dom (tm_heap (ss_tm s))) \<and> (\<forall>a t. tm_heap (ss_tm s) a = Some t \<longrightarrow> \<not> tmr_recurring t) \<and>
     list_all sleep_task_ok (ss_tasks s) \<and> (\<forall>f. wakeups s f = (if ss_fibers s f = None then 0 else 1))"

lemma sleep_tasks [simp]:
  "st_fiber (wake_task f) = Some f" "st_cb (wake_task f) = None" "st_fiber (timer_task f) = None" "st_cb (timer_task f) = Some f"
  "st_thread (wake_task f) = - 1" "st_thread (timer_task f) = - 1" "task_set (wake_task f)" "task_set (timer_task f)"
  "wake_task f \<noteq> timer_task g" "timer_task g \<noteq> wake_task f" "wake_task f = wake_task g \<longleftrightarrow> f = g" "timer_task f = timer_task g \<longleftrightarrow> f = g"
  by (auto simp: wake_task_def timer_task_def ScheduleTask_def task_set_def)

lemma sleep_task_cases:
  assumes "sleep_task_ok t"
  shows "st_fiber t = Some f \<Longrightarrow> t = wake_task f" "st_cb t = Some f \<Longrightarrow> t = timer_task f" "task_set t"
  using assms by (auto simp: sleep_task_ok_def)

lemma timers_for_finite: "finite (dom (tm_heap tm)) \<Longrightarrow> finite (timers_for tm f)"
  by (rule finite_subset [of _ "dom (tm_heap tm)"]) (auto simp: timers_for_def)

lemma timers_for_add:
  assumes "tm_heap tm a = None"
  shows "timers_for (fst (AddTimer tm a now ms (Some f) False)) g = (if g = f then insert a (timers_for tm g) else timers_for tm g)"
  using assms by (auto simp: timers_for_def AddTimer_def AddTimer_locked_def Let_def Timer_def)

text \<open>The callbacks of the timers that expire become tasks, and nothing else changes.\<close>

lemma expire_counts:
  assumes "tm_ok tm" "tm_heap tm a = None" "\<not> fst (DetectClockRollover tm now)" "ListExpiredCb tm a now [] = (tm', cbs)"
    "\<forall>b t. tm_heap tm b = Some t \<longrightarrow> \<not> tmr_recurring t" "finite (dom (tm_heap tm))"
  shows "tm_ok tm'" "dom (tm_heap tm') = dom (tm_heap tm)" "tm_heap tm' b = Some t \<Longrightarrow> \<not> tmr_recurring t" "\<exists>fs. cbs = map Some fs"
    "card (timers_for tm f) = card (timers_for tm' f) + count_list cbs (Some f)"
    "Some f \<in> set cbs \<Longrightarrow> \<exists>b \<in> timers_for tm f. deadline (tm_heap tm) b \<le> now"
    "timers_for tm' f = {b \<in> timers_for tm f. \<not> deadline (tm_heap tm) b \<le> now}" "b \<in> timers_for tm' f \<Longrightarrow> deadline (tm_heap tm') b = deadline (tm_heap tm) b"
proof -
  define due where "due = filter (\<lambda>b. deadline (tm_heap tm) b \<le> now) (tm_timers tm)"
  from ListExpiredCb_ok [OF assms(1-3), of "[]"] assms(4) have
    tm': "tm_ok tm'" "cbs = map (\<lambda>b. tmr_cb (the (tm_heap tm b))) due"
      "tm_heap tm' = (\<lambda>b. if b \<in> set due then map_option (fired now) (tm_heap tm b) else tm_heap tm b)" by (auto simp: due_def)
  show "tm_ok tm'" by (rule tm'(1))
  show "dom (tm_heap tm') = dom (tm_heap tm)" unfolding tm'(3) by (auto split: if_splits)
  have fired: "\<not> tmr_recurring t \<Longrightarrow> fired now t = t\<lparr>tmr_cb := None\<rparr>" for t :: "nat timer" by (simp add: fired_def)
  show "tm_heap tm' b = Some t \<Longrightarrow> \<not> tmr_recurring t" using assms(5) unfolding tm'(3) by (auto simp: fired split: if_splits)
  have mem: "b \<in> timers_for tm g \<Longrightarrow> b \<in> set (tm_timers tm)" for b g using tm_okD(2) [OF assms(1), of b] by (auto simp: timers_for_def)
  show left: "timers_for tm' f = {b \<in> timers_for tm f. \<not> deadline (tm_heap tm) b \<le> now}"
    using assms(5) mem unfolding timers_for_def tm'(3) due_def by (fastforce simp: fired split: if_splits)
  show "b \<in> timers_for tm' f \<Longrightarrow> deadline (tm_heap tm') b = deadline (tm_heap tm) b"
    unfolding left by (simp add: deadline_def tm'(3) due_def)
  have cb: "\<exists>t g. tm_heap tm b = Some t \<and> tmr_cb t = Some g" if "b \<in> set due" for b
    using that tm_okD(2) [OF assms(1), of b] by (auto simp: due_def)
  have "\<exists>g. x = Some g" if "x \<in> set cbs" for x using that cb unfolding tm'(2) by fastforce
  then have "cbs = map Some (map the cbs)" by (force simp: map_idI)
  then show "\<exists>fs. cbs = map Some fs" by blast
  have d: "distinct due" using timer_order.sorted_distinct [OF tm_okD(1) [OF assms(1)]] by (simp add: due_def)
  have "count_list cbs (Some f) = length (filter (\<lambda>b. tmr_cb (the (tm_heap tm b)) = Some f) due)"
    unfolding tm'(2) by (induction due) auto
  also have "\<dots> = card {b \<in> set due. tmr_cb (the (tm_heap tm b)) = Some f}" using distinct_card [of "filter (\<lambda>b. tmr_cb (the (tm_heap tm b)) = Some f) due"] d by simp
  also have "{b \<in> set due. tmr_cb (the (tm_heap tm b)) = Some f} = {b \<in> timers_for tm f. deadline (tm_heap tm) b \<le> now}"
    using cb mem by (fastforce simp: due_def timers_for_def)
  finally have "count_list cbs (Some f) = card {b \<in> timers_for tm f. deadline (tm_heap tm) b \<le> now}" .
  moreover have "timers_for tm f = {b \<in> timers_for tm f. \<not> deadline (tm_heap tm) b \<le> now} \<union> {b \<in> timers_for tm f. deadline (tm_heap tm) b \<le> now}" by blast
  moreover have "card (\<dots>) = card {b \<in> timers_for tm f. \<not> deadline (tm_heap tm) b \<le> now} + card {b \<in> timers_for tm f. deadline (tm_heap tm) b \<le> now}"
    by (rule card_Un_disjoint) (use timers_for_finite [OF assms(6)] in auto)
  ultimately show "card (timers_for tm f) = card (timers_for tm' f) + count_list cbs (Some f)" unfolding left by simp
  show "\<exists>b \<in> timers_for tm f. deadline (tm_heap tm) b \<le> now" if "Some f \<in> set cbs"
    using that cb unfolding tm'(2) by (fastforce simp: due_def timers_for_def)
qed

lemma pick_sleep:
  assumes "list_all sleep_task_ok ts" "pick tid st ts tk = Inr (Some t, ts', tk')"
  shows "\<exists>us vs. ts = us @ t # vs \<and> ts' = us @ vs" "sleep_task_ok t" "eligible tid st t"
  using assms pick_split [of ts tid st tk] by (auto simp: list_all_iff sleep_task_cases(3))

lemma expired_tasks:
  assumes "cbs = map Some fs"
  shows "filter task_set (map (\<lambda>cb. ScheduleTask None cb (- 1)) cbs) = map timer_task fs" "count_list cbs (Some f) = count_list fs f"
    "count_list (map timer_task fs) (timer_task f) = count_list fs f" "count_list (map timer_task fs) (wake_task f) = 0"
    "list_all sleep_task_ok (map timer_task fs)"
proof -
  have "ScheduleTask None (Some g) (- 1) = timer_task g" for g by (simp add: timer_task_def)
  then show "filter task_set (map (\<lambda>cb. ScheduleTask None cb (- 1)) cbs) = map timer_task fs" unfolding assms by (induction fs) simp_all
  show "count_list cbs (Some f) = count_list fs f" unfolding assms by (induction fs) auto
  show "count_list (map timer_task fs) (timer_task f) = count_list fs f" "count_list (map timer_task fs) (wake_task f) = 0" by (induction fs) auto
  show "list_all sleep_task_ok (map timer_task fs)" by (auto simp: list_all_iff sleep_task_ok_def)
qed

lemma sleep_invD:
  assumes "sleep_inv s"
  shows "tm_ok (ss_tm s)" "finite (dom (tm_heap (ss_tm s)))" "\<forall>a t. tm_heap (ss_tm s) a = Some t \<longrightarrow> \<not> tmr_recurring t" "list_all sleep_task_ok (ss_tasks s)"
    "wakeups s f = (if ss_fibers s f = None then 0 else 1)"
  using assms by (auto simp: sleep_inv_def)

text \<open>A task in the list is the only wake-up of its fiber, and its fiber sleeps.\<close>

lemma task_only:
  assumes "sleep_inv s" "ss_tasks s = us @ t # vs" "t = timer_task f \<or> t = wake_task f"
  shows "\<exists>z. ss_fibers s f = Some z" "timers_for (ss_tm s) f = {}" "count_list (us @ vs) (timer_task f) = 0" "count_list (us @ vs) (wake_task f) = 0"
proof -
  have w: "wakeups s f = Suc (card (timers_for (ss_tm s) f) + count_list (us @ vs) (timer_task f) + count_list (us @ vs) (wake_task f))"
    using assms(2, 3) by (auto simp: wakeups_def)
  then show "\<exists>z. ss_fibers s f = Some z" using sleep_invD(5) [OF assms(1), of f] by (cases "ss_fibers s f") auto
  then have "wakeups s f = 1" using sleep_invD(5) [OF assms(1), of f] by auto
  with w show "timers_for (ss_tm s) f = {}" "count_list (us @ vs) (timer_task f) = 0" "count_list (us @ vs) (wake_task f) = 0"
    using timers_for_finite [OF sleep_invD(2) [OF assms(1)], of f] by auto
qed

lemma sleep_inv_step:
  assumes "sl_step s s'" "sleep_inv s"
  shows "sleep_inv s'"
  using assms(1)
proof cases
  case (sleep f a now ms)
  have w: "wakeups s f = 0" using sleep_invD(5) [OF assms(2), of f] sleep(2) by simp
  have fin: "finite (timers_for (ss_tm s) f)" using timers_for_finite sleep_invD(2) [OF assms(2)] by blast
  have "a \<notin> timers_for (ss_tm s) f" using sleep(3) by (simp add: timers_for_def)
  then have "wakeups s' g = (if ss_fibers s' g = None then 0 else 1)" for g
    using timers_for_add [OF sleep(3), of now ms f g] w sleep_invD(5) [OF assms(2), of g] fin by (auto simp: sleep(1) start_sleep_def wakeups_def)
  moreover have h: "tm_heap (ss_tm s') = (tm_heap (ss_tm s))(a \<mapsto> Timer now ms (Some f) False)"
    by (simp add: sleep(1) start_sleep_def AddTimer_def AddTimer_locked_def Let_def)
  moreover have "tm_ok (ss_tm s')" using AddTimer_ok [OF sleep_invD(1) [OF assms(2)] sleep(3)] by (simp add: sleep(1) start_sleep_def)
  ultimately show ?thesis using sleep_invD(2-4) [OF assms(2)] by (auto simp: sleep_inv_def Timer_def sleep(1) start_sleep_def split: if_splits)
next
  case (switch f z)
  then show ?thesis using assms(2) by (auto simp: sleep_inv_def wakeups_def)
next
  case (expire now now_addr tm' cbs)
  note e = expire_counts [OF sleep_invD(1) [OF assms(2)] expire(3-5) sleep_invD(3, 2) [OF assms(2)]]
  from e(4) obtain fs where fs: "cbs = map Some fs" by blast
  note t = expired_tasks [OF fs]
  have "wakeups s' f = wakeups s f" for f using e(5) [of f] t(2-4) [of f] by (simp add: expire(1) wakeups_def t(1))
  then show ?thesis using assms(2) e(1-3) t(1, 5) by (auto simp: sleep_inv_def expire(1))
next
  case (call tid t ts tickle f)
  from pick_sleep [OF sleep_invD(4) [OF assms(2)] call(2)] obtain us vs where ts: "ss_tasks s = us @ t # vs" "ts = us @ vs" "sleep_task_ok t" by blast
  have t: "t = timer_task f" using sleep_task_cases(2) [OF ts(3) call(3)] .
  have "wakeups s' g = wakeups s g" for g by (simp add: call(1) wakeups_def ts t)
  moreover have "list_all sleep_task_ok (ss_tasks s')" using sleep_invD(4) [OF assms(2)] by (auto simp: call(1) ts sleep_task_ok_def)
  ultimately show ?thesis using assms(2) by (auto simp: sleep_inv_def call(1))
next
  case (wake tid t ts tickle f z)
  from pick_sleep [OF sleep_invD(4) [OF assms(2)] wake(2)] obtain us vs where ts: "ss_tasks s = us @ t # vs" "ts = us @ vs" "sleep_task_ok t" by blast
  have t: "t = wake_task f" using sleep_task_cases(1) [OF ts(3) wake(3)] .
  note o = task_only [OF assms(2) ts(1)]
  have "wakeups s' g = (if ss_fibers s' g = None then 0 else 1)" for g
    using sleep_invD(5) [OF assms(2), of g] o(2-4) [of f] t by (cases "g = f") (auto simp: wake(1) wakeups_def ts)
  moreover have "list_all sleep_task_ok (ss_tasks s')" using sleep_invD(4) [OF assms(2)] by (auto simp: wake(1) ts)
  ultimately show ?thesis using assms(2) by (auto simp: sleep_inv_def wake(1))
qed

lemma sl_reachable_inv: "sl_reachable s \<Longrightarrow> sleep_inv s"
proof (induction rule: sl_reachable.induct)
  case (start now)
  show ?case by (simp add: sleep_inv_def sleepers_start_def TimerManager_ok wakeups_def timers_for_def) (simp add: TimerManager_def)
qed (rule sleep_inv_step)

section \<open>No early wake-up\<close>

definition slept :: "sleeper \<Rightarrow> u64 \<Rightarrow> bool" where
  "slept z t \<longleftrightarrow> unat (sl_since z) + unat (sl_ms z) \<le> unat t"

lemma slept_mono: "slept z t \<Longrightarrow> t \<le> t' \<Longrightarrow> slept z t'"
  by (simp add: slept_def word_le_nat_alt)

definition sleep_time :: "sleepers \<Rightarrow> bool" where
  "sleep_time s \<longleftrightarrow>
     (\<forall>f z. ss_fibers s f = Some z \<longrightarrow> (\<forall>a \<in> timers_for (ss_tm s) f. slept z (deadline (tm_heap (ss_tm s)) a)) \<and>
        (timer_task f \<in> set (ss_tasks s) \<or> wake_task f \<in> set (ss_tasks s) \<longrightarrow> slept z (ss_now s))) \<and>
     (\<forall>f z t. (f, z, t) \<in> set (ss_woken s) \<longrightarrow> slept z t)"

lemma sleep_timeD:
  assumes "sleep_time s"
  shows "ss_fibers s f = Some z \<Longrightarrow> a \<in> timers_for (ss_tm s) f \<Longrightarrow> slept z (deadline (tm_heap (ss_tm s)) a)"
    "ss_fibers s f = Some z \<Longrightarrow> timer_task f \<in> set (ss_tasks s) \<or> wake_task f \<in> set (ss_tasks s) \<Longrightarrow> slept z (ss_now s)"
    "(f, z, t) \<in> set (ss_woken s) \<Longrightarrow> slept z t"
  using assms unfolding sleep_time_def by blast+

lemma sleep_time_sleep:
  assumes A: "sleep_inv s" "sleep_time s" and B: "ss_fibers s f = None" "tm_heap (ss_tm s) a = None" "ss_now s \<le> now" "unat now + unat ms < 2 ^ 64"
    and s': "s' = start_sleep a now f ms s"
  shows "sleep_time s'"
proof -
  have w: "timers_for (ss_tm s) f = {}" "timer_task f \<notin> set (ss_tasks s)" "wake_task f \<notin> set (ss_tasks s)"
    using sleep_invD(5) [OF A(1), of f] B(1) timers_for_finite [OF sleep_invD(2) [OF A(1)], of f]
    by (auto simp: wakeups_def count_list_0_iff)
  have h: "tm_heap (ss_tm s') = (tm_heap (ss_tm s))(a \<mapsto> Timer now ms (Some f) False)"
    by (simp add: s' start_sleep_def AddTimer_def AddTimer_locked_def Let_def)
  have "unat (now + ms) = unat now + unat ms" using B(4) by (subst unat_plus_if') simp
  then have own: "slept \<lparr>sl_ms = ms, sl_since = now, sl_place = Switching\<rparr> (deadline (tm_heap (ss_tm s')) a)"
    by (simp add: slept_def deadline_def h Timer_def)
  have other: "deadline (tm_heap (ss_tm s')) b = deadline (tm_heap (ss_tm s)) b" if "b \<in> timers_for (ss_tm s) g" for b g
    using that B(2) by (auto simp: deadline_def h timers_for_def)
  have tf: "timers_for (ss_tm s') g = (if g = f then {a} else timers_for (ss_tm s) g)" for g
    using timers_for_add [OF B(2), of now ms f g] w(1) by (simp add: s' start_sleep_def)
  show ?thesis
    unfolding sleep_time_def
  proof (intro conjI allI impI ballI)
    fix g z b
    assume "ss_fibers s' g = Some z" "b \<in> timers_for (ss_tm s') g"
    then show "slept z (deadline (tm_heap (ss_tm s')) b)"
      using own other sleep_timeD(1) [OF A(2)] unfolding tf by (auto simp: s' start_sleep_def split: if_splits)
  next
    fix g z
    assume "ss_fibers s' g = Some z" "timer_task g \<in> set (ss_tasks s') \<or> wake_task g \<in> set (ss_tasks s')"
    then show "slept z (ss_now s')"
      using w sleep_timeD(2) [OF A(2), of g z] slept_mono B(3) by (auto simp: s' start_sleep_def split: if_splits)
  qed (use sleep_timeD(3) [OF A(2)] in \<open>auto simp: s' start_sleep_def\<close>)
qed

lemma sleep_time_expire:
  assumes A: "sleep_inv s" "sleep_time s" and B: "ss_now s \<le> now" "tm_heap (ss_tm s) now_addr = None" "\<not> fst (DetectClockRollover (ss_tm s) now)"
      "ListExpiredCb (ss_tm s) now_addr now [] = (tm', cbs)"
    and s': "s' = s\<lparr>ss_tm := tm', ss_now := now, ss_tasks := ss_tasks s @ filter task_set (map (\<lambda>cb. ScheduleTask None cb (- 1)) cbs)\<rparr>"
  shows "sleep_time s'"
proof -
  note e = expire_counts [OF sleep_invD(1) [OF A(1)] B(2-4) sleep_invD(3, 2) [OF A(1)]]
  from e(4) obtain fs where fs: "cbs = map Some fs" by blast
  have new: "ss_tasks s' = ss_tasks s @ map timer_task fs" by (simp add: s' expired_tasks(1) [OF fs])
  show ?thesis
    unfolding sleep_time_def
  proof (intro conjI allI impI ballI)
    fix f z b
    assume "ss_fibers s' f = Some z" "b \<in> timers_for (ss_tm s') f"
    then show "slept z (deadline (tm_heap (ss_tm s')) b)" using e(7, 8) [of f] e(8) [of b f] sleep_timeD(1) [OF A(2), of f z b] by (simp add: s')
  next
    fix f z
    assume z: "ss_fibers s' f = Some z" and "timer_task f \<in> set (ss_tasks s') \<or> wake_task f \<in> set (ss_tasks s')"
    then consider "timer_task f \<in> set (ss_tasks s) \<or> wake_task f \<in> set (ss_tasks s)" | "Some f \<in> set cbs" by (auto simp: new fs)
    then show "slept z (ss_now s')"
    proof cases
      case 1
      then show ?thesis using sleep_timeD(2) [OF A(2), of f z] z slept_mono B(1) by (simp add: s')
    next
      case 2
      with e(6) obtain b where b: "b \<in> timers_for (ss_tm s) f" "deadline (tm_heap (ss_tm s)) b \<le> now" by blast
      then show ?thesis using slept_mono [OF sleep_timeD(1) [OF A(2), of f z b]] z by (simp add: s')
    qed
  qed (use sleep_timeD(3) [OF A(2)] in \<open>auto simp: s'\<close>)
qed

lemma sleep_time_step:
  assumes "sl_step s s'" "sleep_inv s" "sleep_time s"
  shows "sleep_time s'"
  using assms(1)
proof cases
  case (sleep f a now ms)
  then show ?thesis using sleep_time_sleep [OF assms(2, 3)] by simp
next
  case (switch f z)
  have "slept (z\<lparr>sl_place := Asleep\<rparr>) t = slept z t" for t by (simp add: slept_def)
  then show ?thesis using assms(3) switch(2) by (auto simp: sleep_time_def switch(1))
next
  case (expire now now_addr tm' cbs)
  then show ?thesis using sleep_time_expire [OF assms(2, 3)] by simp
next
  case (call tid t ts tickle f)
  from pick_sleep [OF sleep_invD(4) [OF assms(2)] call(2)] obtain us vs where ts: "ss_tasks s = us @ t # vs" "ts = us @ vs" "sleep_task_ok t" by blast
  have "t = timer_task f" using sleep_task_cases(2) [OF ts(3) call(3)] .
  then have "timer_task g \<in> set (ss_tasks s') \<or> wake_task g \<in> set (ss_tasks s') \<Longrightarrow> timer_task g \<in> set (ss_tasks s) \<or> wake_task g \<in> set (ss_tasks s)" for g
    by (auto simp: call(1) ts)
  then show ?thesis using assms(3) by (auto simp: sleep_time_def call(1))
next
  case (wake tid t ts tickle f z)
  from pick_sleep [OF sleep_invD(4) [OF assms(2)] wake(2)] obtain us vs where ts: "ss_tasks s = us @ t # vs" "ts = us @ vs" "sleep_task_ok t" by blast
  have "t = wake_task f" using sleep_task_cases(1) [OF ts(3) wake(3)] .
  then have "slept z (ss_now s)" using sleep_timeD(2) [OF assms(3) wake(4)] ts(1) by simp
  then show ?thesis using assms(3) by (auto simp: sleep_time_def wake(1) ts)
qed

lemma sl_reachable_time: "sl_reachable s \<Longrightarrow> sleep_time s"
proof (induction rule: sl_reachable.induct)
  case (start now)
  show ?case by (simp add: sleep_time_def sleepers_start_def)
next
  case (step s s')
  then show ?case using sleep_time_step sl_reachable_inv by blast
qed

section \<open>Every sleeper can wake\<close>

lemma sl_reachable_steps: "sl_step\<^sup>*\<^sup>* s s' \<Longrightarrow> sl_reachable s \<Longrightarrow> sl_reachable s'"
  by (induction rule: rtranclp_induct) (auto intro: sl_reachable.step)

text \<open>The workers reach a task: the tasks before it are run, which changes neither the fiber of the task nor the time.\<close>

lemma reach_sleep_task:
  assumes "sleep_inv s" "ss_tasks s = us @ t # vs" "t = timer_task f \<or> t = wake_task f" "ss_fibers s f = Some z" "sl_place z = Asleep"
  shows "\<exists>s' ts tk. sl_step\<^sup>*\<^sup>* s s' \<and> sleep_inv s' \<and> ss_fibers s' f = Some z \<and> ss_now s' = ss_now s \<and>
    pick 0 (sleep_state s') (ss_tasks s') False = Inr (Some t, ts, tk)"
  using assms
proof (induction "length us" arbitrary: s us vs rule: less_induct)
  case less
  have ok: "list_all sleep_task_ok (ss_tasks s)" using sleep_invD(4) [OF less.prems(1)] .
  then have "\<forall>t \<in> set (ss_tasks s). task_set t" by (auto simp: list_all_iff sleep_task_cases(3))
  moreover have el: "eligible 0 (sleep_state s) t" using less.prems(3-5) by (auto simp: eligible_def sleep_state_def)
  ultimately obtain us2 u vs2 tk where
    u: "ss_tasks s = us2 @ u # vs2" "\<forall>x \<in> set us2. \<not> eligible 0 (sleep_state s) x" "pick 0 (sleep_state s) (ss_tasks s) False = Inr (Some u, us2 @ vs2, tk)"
    using pick_split [of "ss_tasks s" 0 "sleep_state s" False] less.prems(2) by auto
  show ?case
  proof (cases "u = t")
    case True
    then show ?thesis using u(3) less.prems(1, 4) by blast
  next
    case False
    have "t \<notin> set us2" using u(2) el by blast
    moreover have "us2 @ u # vs2 = us @ t # vs" using u(1) less.prems(2) by simp
    ultimately obtain us3 where us3: "us = us2 @ u # us3" "vs2 = us3 @ t # vs"
      using False by (auto simp: append_eq_append_conv2 append_eq_Cons_conv Cons_eq_append_conv)
    have other: "u \<noteq> timer_task f" "u \<noteq> wake_task f"
      using task_only(3, 4) [OF less.prems(1-3)] us3(1) by (auto simp: count_list_0_iff split: if_splits)
    have "\<exists>s1 ws. sl_step s s1 \<and> ss_tasks s1 = (us2 @ us3) @ t # ws \<and> ss_fibers s1 f = Some z \<and> ss_now s1 = ss_now s"
    proof -
      have "sleep_task_ok u" using ok u(1) by simp
      then consider g where "u = timer_task g" | g where "u = wake_task g" by (auto simp: sleep_task_ok_def)
      then show ?thesis
      proof cases
        case (1 g)
        then show ?thesis using sl_step.call [OF u(3), of g] us3(2) less.prems(4) by (intro exI conjI) (assumption | simp)+
      next
        case (2 g)
        from task_only(1) [OF less.prems(1) u(1)] 2 obtain y where y: "ss_fibers s g = Some y" by blast
        show ?thesis using sl_step.wake [OF u(3) _ y] 2 other(2) us3(2) less.prems(4) by (intro exI conjI) (force | simp)+
      qed
    qed
    then obtain s1 ws where s1: "sl_step s s1" "ss_tasks s1 = (us2 @ us3) @ t # ws" "ss_fibers s1 f = Some z" "ss_now s1 = ss_now s" by blast
    have "length (us2 @ us3) < length us" using us3(1) by simp
    from less.hyps [OF this sleep_inv_step [OF s1(1) less.prems(1)] s1(2) less.prems(3) s1(3) less.prems(5)] s1(1, 4) show ?thesis
      by (metis converse_rtranclp_into_rtranclp)
  qed
qed

lemma wake_task_runs:
  assumes "sleep_inv s" "wake_task f \<in> set (ss_tasks s)" "ss_fibers s f = Some z" "sl_place z = Asleep"
  shows "\<exists>s'. sl_step\<^sup>*\<^sup>* s s' \<and> ss_fibers s' f = None \<and> (f, z, ss_now s) \<in> set (ss_woken s')"
proof -
  obtain us vs where "ss_tasks s = us @ wake_task f # vs" using split_list [OF assms(2)] by blast
  from reach_sleep_task [OF assms(1) this _ assms(3, 4)] obtain s' ts tk where
    s': "sl_step\<^sup>*\<^sup>* s s'" "ss_fibers s' f = Some z" "ss_now s' = ss_now s" "pick 0 (sleep_state s') (ss_tasks s') False = Inr (Some (wake_task f), ts, tk)" by blast
  from sl_step.wake [OF s'(4) _ s'(2)] have "sl_step s' (s'\<lparr>ss_tasks := ts, ss_fibers := (ss_fibers s')(f := None), ss_woken := ss_woken s' @ [(f, z, ss_now s')]\<rparr>)"
    (is "sl_step s' ?s") by simp
  then show ?thesis using s'(1, 3) by (intro exI [of _ ?s]) (auto intro: rtranclp.rtrancl_into_rtrancl)
qed

lemma timer_task_runs:
  assumes "sl_reachable s" "timer_task f \<in> set (ss_tasks s)" "ss_fibers s f = Some z" "sl_place z = Asleep"
  shows "\<exists>s'. sl_step\<^sup>*\<^sup>* s s' \<and> ss_fibers s' f = None \<and> (f, z, ss_now s) \<in> set (ss_woken s')"
proof -
  obtain us vs where "ss_tasks s = us @ timer_task f # vs" using split_list [OF assms(2)] by blast
  from reach_sleep_task [OF sl_reachable_inv [OF assms(1)] this _ assms(3, 4)] obtain s1 ts tk where
    s1: "sl_step\<^sup>*\<^sup>* s s1" "sleep_inv s1" "ss_fibers s1 f = Some z" "ss_now s1 = ss_now s"
      "pick 0 (sleep_state s1) (ss_tasks s1) False = Inr (Some (timer_task f), ts, tk)" by blast
  from sl_step.call [OF s1(5), of f] have c: "sl_step s1 (s1\<lparr>ss_tasks := ts @ [wake_task f]\<rparr>)" (is "sl_step s1 ?s") by simp
  from wake_task_runs [OF sleep_inv_step [OF c s1(2)], of f z] s1(3, 4) assms(4) obtain s' where
    "sl_step\<^sup>*\<^sup>* ?s s'" "ss_fibers s' f = None" "(f, z, ss_now s) \<in> set (ss_woken s')" by auto
  then show ?thesis using s1(1) c by (meson converse_rtranclp_into_rtranclp rtranclp_trans)
qed

lemma asleep_run:
  assumes r: "sl_reachable s" and z: "ss_fibers s f = Some z" "sl_place z = Asleep"
  shows "\<exists>s' t. sl_step\<^sup>*\<^sup>* s s' \<and> ss_fibers s' f = None \<and> (f, z, t) \<in> set (ss_woken s')"
proof -
  note inv = sl_reachable_inv [OF r]
  have "wakeups s f = 1" using sleep_invD(5) [OF inv, of f] z(1) by simp
  then consider "wake_task f \<in> set (ss_tasks s)" | "timer_task f \<in> set (ss_tasks s)" | "card (timers_for (ss_tm s) f) = 1"
    by (metis add.right_neutral add_0 count_list_0_iff wakeups_def)
  then show ?thesis
  proof cases
    case 1
    then show ?thesis using wake_task_runs [OF inv _ z] by blast
  next
    case 2
    then show ?thesis using timer_task_runs [OF r _ z] by blast
  next
    case 3
    then obtain a where a: "timers_for (ss_tm s) f = {a}" by (auto simp: card_1_singleton_iff)
    define now where "now = max (ss_now s) (max (deadline (tm_heap (ss_tm s)) a) (tm_previous_use_time (ss_tm s)))"
    have now: "ss_now s \<le> now" "deadline (tm_heap (ss_tm s)) a \<le> now" "\<not> now < tm_previous_use_time (ss_tm s)" by (auto simp: now_def max_def)
    then have nr: "\<not> fst (DetectClockRollover (ss_tm s) now)" by (simp add: DetectClockRollover_def)
    obtain b where b: "tm_heap (ss_tm s) b = None" using ex_new_if_finite [OF infinite_UNIV_nat sleep_invD(2) [OF inv]] by auto
    obtain tm' cbs where l: "ListExpiredCb (ss_tm s) b now [] = (tm', cbs)" by fastforce
    note e = expire_counts [OF sleep_invD(1) [OF inv] b nr l sleep_invD(3, 2) [OF inv]]
    from e(4) obtain fs where fs: "cbs = map Some fs" by blast
    let ?s = "s\<lparr>ss_tm := tm', ss_now := now, ss_tasks := ss_tasks s @ map timer_task fs\<rparr>"
    have st: "sl_step s ?s" using sl_step.expire [OF now(1) b nr l] unfolding expired_tasks(1) [OF fs] .
    have "timers_for tm' f = {}" using e(7) [of f] a now(2) by auto
    then have "count_list fs f = 1" using e(5) [of f] 3 expired_tasks(2) [OF fs, of f] by simp
    then have "timer_task f \<in> set (ss_tasks ?s)" using count_list_0_iff [of fs f] by auto
    from timer_task_runs [OF sl_reachable.step [OF r st] this _ z(2)] z(1) obtain s' where
      "sl_step\<^sup>*\<^sup>* ?s s'" "ss_fibers s' f = None" "(f, z, now) \<in> set (ss_woken s')" by auto
    then show ?thesis using st by (meson converse_rtranclp_into_rtranclp)
  qed
qed

lemma sleeper_run:
  assumes "sl_reachable s" "ss_fibers s f = Some z"
  shows "\<exists>s' t. sl_step\<^sup>*\<^sup>* s s' \<and> ss_fibers s' f = None \<and> (f, z\<lparr>sl_place := Asleep\<rparr>, t) \<in> set (ss_woken s')"
proof -
  let ?s = "s\<lparr>ss_fibers := (ss_fibers s)(f \<mapsto> z\<lparr>sl_place := Asleep\<rparr>)\<rparr>"
  have st: "sl_step\<^sup>*\<^sup>* s ?s"
  proof (cases "sl_place z")
    case Switching
    then show ?thesis using sl_step.switch [OF assms(2)] by blast
  next
    case Asleep
    then have "?s = s" using assms(2) by (simp add: fun_upd_idem)
    then show ?thesis by simp
  qed
  have "ss_fibers ?s f = Some (z\<lparr>sl_place := Asleep\<rparr>)" "sl_place (z\<lparr>sl_place := Asleep\<rparr>) = Asleep" by simp_all
  from asleep_run [OF sl_reachable_steps [OF st assms(1)] this] st show ?thesis by (meson rtranclp_trans)
qed

section \<open>The room\<close>

text \<open>A sleeping fiber waits for itself, until its task is in the list.\<close>

definition sl_room :: "sleepers \<Rightarrow> nat \<Rightarrow> nat status" where
  "sl_room s f = (case ss_fibers s f of None \<Rightarrow> Running | Some z \<Rightarrow> if wake_task f \<in> set (ss_tasks s) then Woken else Waiting f)"

lemma sl_simulates:
  assumes "sl_step s s'" "sleep_inv s"
  shows "room_step (sl_room s) (sl_room s')"
  using assms(1)
proof cases
  case (sleep f a now ms)
  have "wake_task f \<notin> set (ss_tasks s)" using sleep_invD(5) [OF assms(2), of f] sleep(2) by (simp add: wakeups_def count_list_0_iff)
  then have e: "sl_room s' = (sl_room s)(f := Waiting f)" by (auto simp: sl_room_def sleep(1) start_sleep_def)
  show ?thesis unfolding e
    by (rule room_step.block) (use sleep(2) in \<open>auto simp: sl_room_def split: option.splits if_splits\<close>)
next
  case (switch f z)
  show ?thesis by (rule room_stutter) (use switch in \<open>auto simp: sl_room_def\<close>)
next
  case (expire now now_addr tm' cbs)
  have "wake_task f \<notin> set (map (\<lambda>cb. ScheduleTask None cb (- 1)) cbs)" for f by (auto simp: wake_task_def ScheduleTask_def)
  then show ?thesis by (intro room_stutter) (auto simp: sl_room_def expire(1) fun_eq_iff)
next
  case (call tid t ts tickle f)
  from pick_sleep [OF sleep_invD(4) [OF assms(2)] call(2)] obtain us vs where ts: "ss_tasks s = us @ t # vs" "ts = us @ vs" "sleep_task_ok t" by blast
  have t: "t = timer_task f" using sleep_task_cases(2) [OF ts(3) call(3)] .
  then obtain z where z: "ss_fibers s f = Some z" "wake_task f \<notin> set (us @ vs)" using task_only(1, 4) [OF assms(2) ts(1)] by (auto simp: count_list_0_iff)
  have e: "sl_room s' = (\<lambda>g. if g \<in> {f} then Woken else sl_room s g)" using z(1) by (auto simp: sl_room_def call(1) ts t split: option.splits)
  show ?thesis unfolding e by (rule room_step.wake) (use z in \<open>simp add: sl_room_def ts(1) t\<close>)
next
  case (wake tid t ts tickle f z)
  from pick_sleep [OF sleep_invD(4) [OF assms(2)] wake(2)] obtain us vs where ts: "ss_tasks s = us @ t # vs" "ts = us @ vs" "sleep_task_ok t" by blast
  have t: "t = wake_task f" using sleep_task_cases(1) [OF ts(3) wake(3)] .
  have e: "sl_room s' = (sl_room s)(f := Running)" by (auto simp: sl_room_def wake(1) ts t split: option.splits)
  show ?thesis unfolding e by (rule room_step.resume) (simp add: sl_room_def wake(4) ts(1) t)
qed

lemma sl_reachable_start: "sl_reachable s \<Longrightarrow> \<exists>now. sl_step\<^sup>*\<^sup>* (sleepers_start now) s"
  by (induction rule: sl_reachable.induct) (auto intro: rtranclp.rtrancl_into_rtrancl)

interpretation sl: fiber_room "\<lambda>s. \<exists>now. s = sleepers_start now" sl_reachable sl_step sl_room
proof
  fix s
  assume "sl_reachable s"
  then show "\<exists>s0. (\<exists>now. s0 = sleepers_start now) \<and> sl_reachable s0 \<and> sl_step\<^sup>*\<^sup>* s0 s" using sl_reachable_start sl_reachable.start by blast
next
  fix s f
  assume "\<exists>now. s = sleepers_start now"
  then show "sl_room s f = Free \<or> sl_room s f = Running" by (auto simp: sleepers_start_def sl_room_def)
qed (use sl_reachable.step sl_simulates sl_reachable_inv in blast)+

section \<open>Properties\<close>

text \<open>
  (C20) A sleep is served exactly once. While a fiber sleeps, whether it has switched out or not, there is exactly one of its timer, the callback of
  the timer and the task of the fiber; no other fiber has any of these.
\<close>

theorem sleep_woken_once:
  assumes "sl_reachable s"
  shows "card (timers_for (ss_tm s) f) + count_list (ss_tasks s) (timer_task f) + count_list (ss_tasks s) (wake_task f) = (if ss_fibers s f = None then 0 else 1)"
  using sleep_invD(5) [OF sl_reachable_inv [OF assms], of f] by (simp add: wakeups_def)

text \<open>A fiber that sleeps for five seconds at time 100.\<close>

definition five_seconds :: sleeper where
  "five_seconds = \<lparr>sl_ms = 5000, sl_since = 100, sl_place = Switching\<rparr>"

lemma five_seconds_run: "sl_reachable (start_sleep 0 100 1 5000 (sleepers_start 100))" "ss_fibers (start_sleep 0 100 1 5000 (sleepers_start 100)) 1 = Some five_seconds"
proof -
  have "sl_step (sleepers_start 100) (start_sleep 0 100 1 5000 (sleepers_start 100))"
    by (rule sl_step.sleep) (simp_all add: sleepers_start_def TimerManager_def)
  then show "sl_reachable (start_sleep 0 100 1 5000 (sleepers_start 100))" by (rule sl_reachable.step [OF sl_reachable.start])
  show "ss_fibers (start_sleep 0 100 1 5000 (sleepers_start 100)) 1 = Some five_seconds" by (simp add: start_sleep_def five_seconds_def)
qed

theorem sleep_woken_once_witness: "card (timers_for (ss_tm (start_sleep 0 100 1 5000 (sleepers_start 100))) 1) = 1"
  using sleep_woken_once [OF five_seconds_run(1), of 1] five_seconds_run(2) by (simp add: start_sleep_def sleepers_start_def)

text \<open>
  (C22) A sleeping fiber can always wake, from every reachable state, and whether it has switched out already or not.
\<close>

theorem sleeper_can_wake:
  assumes "sl_reachable s" "ss_fibers s f = Some z"
  shows "\<exists>s' t. sl_step\<^sup>*\<^sup>* s s' \<and> ss_fibers s' f = None \<and> (f, z\<lparr>sl_place := Asleep\<rparr>, t) \<in> set (ss_woken s')"
  by (rule sleeper_run [OF assms])

theorem sleeper_can_wake_witness: "\<exists>(s :: sleepers) t. (1, five_seconds\<lparr>sl_place := Asleep\<rparr>, t) \<in> set (ss_woken s)"
  using sleeper_can_wake [OF five_seconds_run] by blast



text \<open>
  (C23) The sleeps implement the room: every step is a step of it, and along every run a fiber that sleeps and later runs again has been
  scheduled by its timer in between.
\<close>

theorem sleeping_refines_room:
  assumes "sl_reachable s"
  shows "room_reachable (sl_room s) \<and> (\<forall>s'. sl_step s s' \<longrightarrow> room_step (sl_room s) (sl_room s')) \<and>
    (\<forall>s' f. sl_step\<^sup>*\<^sup>* s s' \<longrightarrow> sl_room s f = Waiting f \<longrightarrow> sl_room s' f \<noteq> Waiting f \<longrightarrow>
      (\<exists>s1. sl_step\<^sup>*\<^sup>* s s1 \<and> sl_step\<^sup>*\<^sup>* s1 s' \<and> sl_room s1 f = Woken))"
proof (intro conjI allI impI)
  show "room_reachable (sl_room s)" by (rule sl.reach_room [OF assms])
  show "room_step (sl_room s) (sl_room s')" if "sl_step s s'" for s' by (rule sl.simulates [OF assms that])
  show "\<exists>s1. sl_step\<^sup>*\<^sup>* s s1 \<and> sl_step\<^sup>*\<^sup>* s1 s' \<and> sl_room s1 f = Woken"
    if "sl_step\<^sup>*\<^sup>* s s'" "sl_room s f = Waiting f" "sl_room s' f \<noteq> Waiting f" for s' f
    by (rule sl.woken_between [OF that(1) assms that(2, 3)])
qed

theorem sleeping_refines_room_witness: "\<exists>s. sl_reachable s \<and> sl_room s 1 = Woken"
proof -
  let ?s = "start_sleep 0 100 1 5000 (sleepers_start 100)"
  from sleeper_run [OF five_seconds_run] obtain s' where s': "sl_step\<^sup>*\<^sup>* ?s s'" "ss_fibers s' 1 = None" by blast
  have w: "sl_room ?s 1 = Waiting 1" by (simp add: sl_room_def start_sleep_def sleepers_start_def)
  have "sl_room s' 1 \<noteq> Waiting 1" using s'(2) by (simp add: sl_room_def)
  with sleeping_refines_room [OF five_seconds_run(1)] s'(1) w sl_reachable_steps [OF _ five_seconds_run(1)] show ?thesis by blast
qed

end
