(* ===== verification/Locale_Util.thy ===== *)
theory Locale_Util
  imports String_Util
begin

text \<open>
  The conversions of \<open>util/util.cc\<close> that depend on the locale and the time zone: \<open>Time2Str\<close>, \<open>Str2Time\<close>, \<open>WStringToString\<close> and
  \<open>StringToWString\<close>. What the C library does in them (\<open>localtime_r\<close>, \<open>strftime\<close>, \<open>strptime\<close>, \<open>mktime\<close>, \<open>setlocale\<close>, \<open>wcstombs\<close>,
  \<open>mbstowcs\<close>) are parameters; a wide character is its number.
\<close>

section \<open>Times\<close>

text \<open>
  A broken-down time is its fields and \<open>tm_isdst\<close>. \<open>strftime\<close> gives nothing where the text does not fit into the buffer, whose contents are then
  indeterminate; \<open>strptime\<close> starts from given fields and does not set \<open>tm_isdst\<close>.
\<close>

record 'f time_lib =
  tl_localtime :: "int \<Rightarrow> 'f \<times> int"
  tl_strftime :: "nat \<Rightarrow> string \<Rightarrow> 'f \<times> int \<Rightarrow> string option"
  tl_strptime :: "string \<Rightarrow> string \<Rightarrow> 'f \<Rightarrow> 'f option"
  tl_mktime :: "'f \<times> int \<Rightarrow> int"
  tl_zero :: 'f

definition Time2Str :: "'f time_lib \<Rightarrow> int \<Rightarrow> string \<Rightarrow> string result" where
  "Time2Str lib ts format =
     (case tl_strftime lib 64 format (tl_localtime lib ts) of
        None \<Rightarrow> Inl Out_Of_Bounds
      | Some buf \<Rightarrow> Inr buf)"

definition Str2Time :: "'f time_lib \<Rightarrow> string \<Rightarrow> string \<Rightarrow> int" where
  "Str2Time lib str format =
     (case tl_strptime lib str format (tl_zero lib) of
        None \<Rightarrow> 0
      | Some t \<Rightarrow> tl_mktime lib (t, 0))"

section \<open>Wide strings\<close>

text \<open>
  The state \<open>'s\<close> is the locale of the process. \<open>setlocale (LC_ALL, "")\<close> takes the locale from the environment and returns its name, or a null
  pointer; the conversions give nothing for a character without a counterpart.
\<close>

record 's locale_lib =
  ll_setlocale_env :: "'s \<Rightarrow> string option \<times> 's"
  ll_setlocale :: "string \<Rightarrow> 's \<Rightarrow> 's"
  ll_wcstombs :: "'s \<Rightarrow> nat list \<Rightarrow> string option"
  ll_mbstowcs :: "'s \<Rightarrow> string \<Rightarrow> nat list option"

text \<open>What a C string and a wide C string hold: the characters up to the first null character.\<close>

definition c_chars :: "string \<Rightarrow> string" where
  "c_chars s = takeWhile (\<lambda>c. c \<noteq> CHR 0x00) s"

definition w_chars :: "nat list \<Rightarrow> nat list" where
  "w_chars ws = takeWhile (\<lambda>w. w \<noteq> 0) ws"

text \<open>
  The size of the buffer is the \<open>size_t\<close> result of the first conversion plus one: no character at all after a conversion that fails with
  \<open>(size_t) -1\<close>, and the string is then made from a buffer of size 0.
\<close>

definition WStringToString :: "'s locale_lib \<Rightarrow> 's \<Rightarrow> nat list \<Rightarrow> (string \<times> 's) result" where
  "WStringToString lib s ws =
     (let (str_locale, s1) = ll_setlocale_env lib s in
      case str_locale of
        None \<Rightarrow> Inl Logic_Error
      | Some locale \<Rightarrow>
          (case ll_wcstombs lib s1 (w_chars ws) of
             None \<Rightarrow> Inl Out_Of_Bounds
           | Some dest \<Rightarrow> Inr (c_chars dest, ll_setlocale lib locale s1)))"

definition StringToWString :: "'s locale_lib \<Rightarrow> 's \<Rightarrow> string \<Rightarrow> (nat list \<times> 's) result" where
  "StringToWString lib s str =
     (let (str_locale, s1) = ll_setlocale_env lib s in
      case str_locale of
        None \<Rightarrow> Inl Logic_Error
      | Some locale \<Rightarrow>
          (case ll_mbstowcs lib s1 (c_chars str) of
             None \<Rightarrow> Inl Out_Of_Bounds
           | Some dest \<Rightarrow> Inr (w_chars dest, ll_setlocale lib locale s1)))"

section \<open>Properties\<close>

text \<open>
  Reading a printed time back gives the same time outside daylight saving time and an hour more within it, since \<open>tm_isdst\<close> is left 0. The laws: the
  format keeps the fields, \<open>mktime\<close> undoes \<open>localtime_r\<close>, and takes fields marked as standard time for an hour later.
\<close>

theorem time_roundtrip:
  assumes "tl_localtime lib ts = (t, dst)" "dst = 0 \<or> dst = 1" "tl_mktime lib (t, dst) = ts" "tl_mktime lib (t, 0) = tl_mktime lib (t, 1) + 3600 \<or> dst = 0"
    and "tl_strftime lib 64 format (t, dst) = Some str" "tl_strptime lib str format (tl_zero lib) = Some t"
  shows "\<exists>str. Time2Str lib ts format = Inr str \<and> Str2Time lib str format = ts + (if dst = 1 then 3600 else 0)"
  using assms by (auto simp: Time2Str_def Str2Time_def)

text \<open>A time zone two hours ahead of UTC, of which one is daylight saving time in the first \<open>10000\<close> seconds, with the time as its number.\<close>

definition sample_time :: "int time_lib" where
  "sample_time = \<lparr>tl_localtime = (\<lambda>ts. if ts < 10000 then (ts + 7200, 1) else (ts + 3600, 0)),
     tl_strftime = (\<lambda>n f (t, d). Some (if t = 12200 then ''12200'' else '''')), tl_strptime = (\<lambda>s f z. if s = ''12200'' then Some 12200 else None),
     tl_mktime = (\<lambda>(t, d). if d = 0 then t - 3600 else t - 7200), tl_zero = 0\<rparr>"

theorem time_roundtrip_witness: "Time2Str sample_time 5000 ''%s'' = Inr ''12200'' \<and> Str2Time sample_time ''12200'' ''%s'' = 8600"
proof -
  have "\<exists>str. Time2Str sample_time 5000 ''%s'' = Inr str \<and> Str2Time sample_time str ''%s'' = 5000 + (if (1 :: int) = 1 then 3600 else 0)"
    by (rule time_roundtrip [where t = 12200 and str = "''12200''"]) (simp_all add: sample_time_def)
  then show ?thesis by (auto simp: Time2Str_def sample_time_def)
qed

text \<open>
  A text that can be converted comes back when it is converted to wide characters and back in the locale of the environment, and both calls leave the
  process in that locale, whatever it was before: \<open>setlocale\<close> returns the new locale and not the old one, so that there is nothing to restore.
\<close>

theorem wide_roundtrip:
  assumes "\<And>s. ll_setlocale_env lib s = (Some env, s0)" "ll_setlocale lib env s0 = s0"
    and "ll_mbstowcs lib s0 (c_chars str) = Some ws" "w_chars ws = ws" "ll_wcstombs lib s0 ws = Some (c_chars str)"
  shows "StringToWString lib s str = Inr (ws, s0) \<and> WStringToString lib s ws = Inr (c_chars str, s0)"
proof -
  have "c_chars (c_chars str) = c_chars str" unfolding c_chars_def by (rule takeWhile_idem)
  with assms show ?thesis by (simp add: StringToWString_def WStringToString_def)
qed

text \<open>The locale as its name, an environment that says \<open>C\<close>, and ASCII.\<close>

definition ascii_lib :: "string locale_lib" where
  "ascii_lib = \<lparr>ll_setlocale_env = (\<lambda>_. (Some ''C'', ''C'')), ll_setlocale = (\<lambda>l _. l),
     ll_wcstombs = (\<lambda>_ ws. if list_all (\<lambda>w. w < 128) ws then Some (map char_of ws) else None),
     ll_mbstowcs = (\<lambda>_ cs. if list_all (\<lambda>c. of_char c < (128 :: nat)) cs then Some (map of_char cs) else None)\<rparr>"

theorem wide_roundtrip_witness:
  "StringToWString ascii_lib ''de'' ''ab'' = Inr ([97, 98], ''C'') \<and> WStringToString ascii_lib ''de'' [97, 98] = Inr (''ab'', ''C'')"
proof -
  have "StringToWString ascii_lib ''de'' ''ab'' = Inr ([97, 98], ''C'') \<and> WStringToString ascii_lib ''de'' [97, 98] = Inr (c_chars ''ab'', ''C'')"
    by (rule wide_roundtrip [where env = "''C''"]) (simp_all add: ascii_lib_def c_chars_def w_chars_def, code_simp)
  then show ?thesis by (simp add: c_chars_def)
qed

end
