(* ===== verification/Scheduler_Progress.thy ===== *)
theory Scheduler_Progress
  imports Scheduler
begin

text \<open>
  Ending the scheduler: after \<open>Stop\<close> has set its flag, the workers can always finish what is queued and leave
  \<open>Run\<close>, unless a task is bound to a thread that has left already. The proof is a well-founded descent on
  the tasks queued, the tasks being resumed and the distance of the workers from the end of the loop.
\<close>

section \<open>Descent\<close>

text \<open>A system that from every unfinished good state can step to a smaller good state can finish.\<close>

locale descent =
  fixes step :: "'s \<Rightarrow> 's \<Rightarrow> bool" and good :: "'s \<Rightarrow> bool" and finished :: "'s \<Rightarrow> bool" and r :: "('s \<times> 's) set"
  assumes wf: "wf r"
    and progress: "good s \<Longrightarrow> \<not> finished s \<Longrightarrow> \<exists>s'. step s s' \<and> good s' \<and> (s', s) \<in> r"
begin

lemma can_finish: "good s \<Longrightarrow> \<exists>s'. step\<^sup>*\<^sup>* s s' \<and> good s' \<and> finished s'"
proof (induction s rule: wf_induct_rule [OF wf])
  case (1 s)
  show ?case
  proof (cases "finished s")
    case True
    with "1.prems" show ?thesis by blast
  next
    case False
    with "1.prems" progress obtain s' where "step s s'" "good s'" "(s', s) \<in> r" by blast
    with "1.IH" show ?thesis by (meson converse_rtranclp_into_rtranclp)
  qed
qed

end

section \<open>Workers that can still run what is queued\<close>

text \<open>Some worker that has not left may take the task.\<close>

definition served :: "'cb worker list \<Rightarrow> 'cb schedule_task \<Rightarrow> bool" where
  "served ws t \<longleftrightarrow> (\<exists>w \<in> set ws. w_place w \<noteq> Exited \<and> (st_thread t = - 1 \<or> st_thread t = w_tid w))"

definition stop_good :: "'cb system \<Rightarrow> bool" where
  "stop_good s \<longleftrightarrow> sched_ok s \<and> sc_stopping (sy_sched s) \<and> (\<forall>f. sy_fibers s f \<noteq> RUNNING) \<and>
     (\<forall>t \<in> set (sc_tasks (sy_sched s)). served (sy_workers s) t)"

definition all_left :: "'cb system \<Rightarrow> bool" where
  "all_left s \<longleftrightarrow> sc_tasks (sy_sched s) = [] \<and> (\<forall>w \<in> set (sy_workers s). w_place w = Exited)"

definition to_exit :: "'cb worker \<Rightarrow> nat" where
  "to_exit w = (case w_place w of Exited \<Rightarrow> 0 | Idling \<Rightarrow> 2 | Resuming t \<Rightarrow> 4
     | Looking \<Rightarrow> if w_idle_fiber w = STATE_TERM then 1 else 3)"

definition stop_measure :: "'cb system \<Rightarrow> nat \<times> nat \<times> nat" where
  "stop_measure s = (length (sc_tasks (sy_sched s)), sc_active (sy_sched s),
     if sc_tasks (sy_sched s) = [] then sum_list (map to_exit (sy_workers s)) else sc_idle (sy_sched s))"

definition stop_order :: "('cb system \<times> 'cb system) set" where
  "stop_order = inv_image (less_than <*lex*> less_than <*lex*> less_than) stop_measure"

lemma stop_order_iff:
  "(s', s) \<in> stop_order \<longleftrightarrow> (case (stop_measure s', stop_measure s) of ((a', b', c'), (a, b, c)) \<Rightarrow>
     a' < a \<or> a' = a \<and> (b' < b \<or> b' = b \<and> c' < c))"
  by (auto simp: stop_order_def split: prod.splits)

text \<open>A step in which nothing new is scheduled; the workers stay the same threads.\<close>

definition quiet_step :: "'cb system \<Rightarrow> 'cb system \<Rightarrow> bool" where
  "quiet_step s s' \<longleftrightarrow> sched_step s s' \<and> sy_scheduled s' = sy_scheduled s \<and>
     map w_tid (sy_workers s') = map w_tid (sy_workers s)"

lemma quiet_steps:
  "quiet_step\<^sup>*\<^sup>* s s' \<Longrightarrow> sched_step\<^sup>*\<^sup>* s s' \<and> sy_scheduled s' = sy_scheduled s \<and>
     map w_tid (sy_workers s') = map w_tid (sy_workers s)"
  by (induction rule: rtranclp_induct) (auto simp: quiet_step_def)

lemma map_update_same: "f v = f (xs ! i) \<Longrightarrow> map f (xs[i := v]) = map f xs"
  by (metis list_update_id map_update)

lemma to_exit_update:
  assumes "i < length ws" "to_exit w' < to_exit (ws ! i)"
  shows "sum_list (map to_exit (ws[i := w'])) < sum_list (map to_exit ws)"
proof -
  have "sum_list (map to_exit ws) = sum_list (map to_exit (take i ws)) + to_exit (ws ! i) + sum_list (map to_exit (drop (Suc i) ws))"
    using arg_cong [OF id_take_nth_drop [OF assms(1)], of "\<lambda>ws. sum_list (map to_exit ws)"] by simp
  with assms show ?thesis by (simp add: upd_conv_take_nth_drop)
qed

lemma served_update:
  assumes "served ws t" "i < length ws" "w_tid w' = w_tid (ws ! i)" "w_place w' \<noteq> Exited"
  shows "served (ws[i := w']) t"
proof -
  obtain j where "j < length ws" "w_place (ws ! j) \<noteq> Exited" "st_thread t = - 1 \<or> st_thread t = w_tid (ws ! j)"
    using assms(1) by (auto simp: served_def in_set_conv_nth)
  with assms(2-4) have "j < length (ws[i := w'])" "w_place (ws[i := w'] ! j) \<noteq> Exited"
    "st_thread t = - 1 \<or> st_thread t = w_tid (ws[i := w'] ! j)"
    by (auto simp: nth_list_update)
  then show ?thesis unfolding served_def by (meson nth_mem)
qed

lemma Run_take_eligible:
  assumes "\<forall>t \<in> set (sc_tasks sc). task_set t" "t \<in> set (sc_tasks sc)" "eligible tid st t"
  shows "\<exists>u tk sc'. Run_take tid st sc = Inr (Some u, tk, sc')"
  using pick_split [OF assms(1), of tid st False] assms(2,3) by (auto simp: Run_take_def)

lemma Run_take_empty: "sc_tasks sc = [] \<Longrightarrow> Run_take tid st sc = Inr (None, False, sc)"
  by (simp add: Run_take_def)

section \<open>One move of each kind\<close>

lemma worker_in_task:
  assumes "sched_ok s" "i < length (sy_workers s)" "w_place (sy_workers s ! i) = Resuming t"
  shows "0 < sc_active (sy_sched s)"
proof -
  have "t \<in> set (held_all (sy_workers s))"
    using nth_mem [OF assms(2)] assms(3) by (force simp: held_all_def held_def)
  then show ?thesis using assms(1) by (auto simp: sched_ok_def)
qed

lemma worker_in_idle:
  assumes "sched_ok s" "i < length (sy_workers s)" "w_place (sy_workers s ! i) = Idling"
  shows "0 < sc_idle (sy_sched s)"
  using assms nth_mem [OF assms(2)] by (auto simp: sched_ok_def idlers_def filter_empty_conv)

lemma return_move:
  assumes "stop_good s" "i < length (sy_workers s)" "w_place (sy_workers s ! i) = Resuming t"
  shows "\<exists>s'. quiet_step s s' \<and> stop_good s' \<and> (s', s) \<in> stop_order"
proof -
  let ?s = "s\<lparr>sy_sched := (sy_sched s)\<lparr>sc_active := sub64 (sc_active (sy_sched s)) 1\<rparr>,
      sy_workers := (sy_workers s)[i := (sy_workers s ! i)\<lparr>w_place := Looking\<rparr>], sy_done := sy_done s @ [t]\<rparr>"
  have step: "sched_step s ?s" using assms(2,3) by (intro sched_step.task_returns) auto
  have "stop_good ?s"
    using assms sched_step_ok [OF step] by (auto simp: stop_good_def intro: served_update)
  moreover have "sub64 (sc_active (sy_sched s)) 1 < sc_active (sy_sched s)"
    using worker_in_task [OF _ assms(2,3)] assms(1) by (simp add: stop_good_def)
  then have "(?s, s) \<in> stop_order" by (simp add: stop_order_iff stop_measure_def)
  ultimately show ?thesis using step by (intro exI [of _ ?s]) (simp add: quiet_step_def map_update_same)
qed

lemma wake_move:
  assumes "stop_good s" "i < length (sy_workers s)" "w_place (sy_workers s ! i) = Idling" "sc_active (sy_sched s) = 0"
  shows "\<exists>s'. quiet_step s s' \<and> stop_good s' \<and> (s', s) \<in> stop_order"
proof -
  let ?w = "(sy_workers s ! i)\<lparr>w_place := Looking, w_idle_fiber := (if Stopping (sy_sched s) then STATE_TERM else READY)\<rparr>"
  let ?s = "s\<lparr>sy_sched := (sy_sched s)\<lparr>sc_idle := sub64 (sc_idle (sy_sched s)) 1\<rparr>, sy_workers := (sy_workers s)[i := ?w]\<rparr>"
  have step: "sched_step s ?s" using assms(2,3) by (intro sched_step.idle_returns) auto
  have "stop_good ?s"
    using assms(1,2) sched_step_ok [OF step] by (auto simp: stop_good_def intro: served_update)
  moreover have "sub64 (sc_idle (sy_sched s)) 1 < sc_idle (sy_sched s)"
    using worker_in_idle [OF _ assms(2,3)] assms(1) by (simp add: stop_good_def)
  moreover have "to_exit ?w < to_exit (sy_workers s ! i)" if "sc_tasks (sy_sched s) = []"
    using that assms(1,3,4) by (simp add: to_exit_def stop_good_def Stopping_def)
  ultimately have "stop_good ?s \<and> (?s, s) \<in> stop_order"
    using to_exit_update [OF assms(2)] by (simp add: stop_order_iff stop_measure_def)
  with step show ?thesis by (intro exI [of _ ?s]) (simp add: quiet_step_def map_update_same)
qed

lemma take_move:
  assumes "stop_good s" "t \<in> set (sc_tasks (sy_sched s))"
    and busy: "\<forall>w \<in> set (sy_workers s). w_place w = Looking \<or> w_place w = Exited"
  shows "\<exists>s'. quiet_step s s' \<and> stop_good s' \<and> (s', s) \<in> stop_order"
proof -
  have tasks: "\<forall>t \<in> set (sc_tasks (sy_sched s)). task_set t" using assms(1) by (simp add: stop_good_def sched_ok_def)
  obtain i where i: "i < length (sy_workers s)" "w_place (sy_workers s ! i) = Looking"
      "st_thread t = - 1 \<or> st_thread t = w_tid (sy_workers s ! i)"
  proof -
    obtain w where "w \<in> set (sy_workers s)" "w_place w \<noteq> Exited" "st_thread t = - 1 \<or> st_thread t = w_tid w"
      using assms(1,2) unfolding stop_good_def served_def by blast
    with busy that show thesis by (metis in_set_conv_nth)
  qed
  then have "eligible (w_tid (sy_workers s ! i)) (sy_fibers s) t"
    using assms(1) by (auto simp: eligible_def stop_good_def split: option.splits)
  from Run_take_eligible [OF tasks assms(2) this] obtain u tk sc
    where take: "Run_take (w_tid (sy_workers s ! i)) (sy_fibers s) (sy_sched s) = Inr (Some u, tk, sc)" by blast
  then obtain us vs where split: "sc_tasks (sy_sched s) = us @ u # vs"
      "sc = (sy_sched s)\<lparr>sc_tasks := us @ vs, sc_active := Suc (sc_active (sy_sched s))\<rparr>"
    using Run_take_Some [OF tasks] by blast
  let ?s = "s\<lparr>sy_sched := sc, sy_workers := (sy_workers s)[i := (sy_workers s ! i)\<lparr>w_place := Resuming u\<rparr>]\<rparr>"
  have step: "sched_step s ?s" using take i by (intro sched_step.take_task) auto
  have "stop_good ?s"
    using assms(1) i split sched_step_ok [OF step] by (auto simp: stop_good_def intro: served_update)
  moreover have "(?s, s) \<in> stop_order" using split by (simp add: stop_order_iff stop_measure_def)
  ultimately show ?thesis using step by (intro exI [of _ ?s]) (simp add: quiet_step_def map_update_same)
qed

lemma closer_move:
  assumes "stop_good s" "sc_tasks (sy_sched s) = []" "i < length (sy_workers s)"
    and "sched_step s (s\<lparr>sy_sched := sc, sy_workers := (sy_workers s)[i := w]\<rparr>)"
    and "sc_tasks sc = []" "sc_active sc = sc_active (sy_sched s)" "sc_stopping sc"
    and "w_tid w = w_tid (sy_workers s ! i)" "to_exit w < to_exit (sy_workers s ! i)"
  shows "\<exists>s'. quiet_step s s' \<and> stop_good s' \<and> (s', s) \<in> stop_order"
proof -
  let ?s = "s\<lparr>sy_sched := sc, sy_workers := (sy_workers s)[i := w]\<rparr>"
  have "stop_good ?s" using assms(1,5,7) sched_step_ok [OF assms(4)] by (simp add: stop_good_def)
  moreover have "(?s, s) \<in> stop_order"
    using assms(2,5,6) to_exit_update [OF assms(3,9)] by (simp add: stop_order_iff stop_measure_def)
  ultimately show ?thesis
    using assms(4,8) by (intro exI [of _ ?s]) (simp add: quiet_step_def map_update_same)
qed

lemma exit_move:
  assumes "stop_good s" "sc_tasks (sy_sched s) = []" "i < length (sy_workers s)" "w_place (sy_workers s ! i) = Looking"
  shows "\<exists>s'. quiet_step s s' \<and> stop_good s' \<and> (s', s) \<in> stop_order"
proof (cases "w_idle_fiber (sy_workers s ! i) = STATE_TERM")
  case True
  from sched_step.leave [OF assms(3) refl assms(4) Run_take_empty [OF assms(2)] True] show ?thesis
    by (rule closer_move [OF assms(1-3)]) (use assms True in \<open>auto simp: stop_good_def to_exit_def\<close>)
next
  case False
  from sched_step.go_idle [OF assms(3) refl assms(4) Run_take_empty [OF assms(2)] False] show ?thesis
    by (rule closer_move [OF assms(1-3)]) (use assms False in \<open>auto simp: stop_good_def to_exit_def\<close>)
qed

lemma nobody_in_task:
  assumes "\<forall>i < length ws. \<forall>t. w_place (ws ! i) \<noteq> Resuming t"
  shows "held_all ws = []"
proof -
  have "held w = []" if "w \<in> set ws" for w
    using that assms by (auto simp: in_set_conv_nth held_def split: place.splits)
  then show ?thesis by (simp add: held_all_def)
qed

lemma moves_of:
  "(\<exists>i t. i < length ws \<and> w_place (ws ! i) = Resuming t) \<or>
   (\<exists>i. held_all ws = [] \<and> i < length ws \<and> w_place (ws ! i) = Idling) \<or>
   (\<forall>w \<in> set ws. w_place w = Looking \<or> w_place w = Exited)"
  using nobody_in_task [of ws] by (metis in_set_conv_nth place.exhaust)

lemma stop_progress:
  assumes "stop_good s" "\<not> all_left s"
  shows "\<exists>s'. quiet_step s s' \<and> stop_good s' \<and> (s', s) \<in> stop_order"
proof -
  consider (task) i t where "i < length (sy_workers s)" "w_place (sy_workers s ! i) = Resuming t"
    | (idle) i where "held_all (sy_workers s) = []" "i < length (sy_workers s)" "w_place (sy_workers s ! i) = Idling"
    | (others) "\<forall>w \<in> set (sy_workers s). w_place w = Looking \<or> w_place w = Exited"
    using moves_of by blast
  then show ?thesis
  proof cases
    case task
    with assms(1) show ?thesis by (rule return_move)
  next
    case idle
    with assms(1) show ?thesis by (intro wake_move) (auto simp: stop_good_def sched_ok_def)
  next
    case others
    show ?thesis
    proof (cases "sc_tasks (sy_sched s)")
      case Nil
      with assms(2) others obtain i where "i < length (sy_workers s)" "w_place (sy_workers s ! i) = Looking"
        by (fastforce simp: all_left_def in_set_conv_nth)
      with assms(1) Nil show ?thesis by (intro exit_move)
    next
      case (Cons t ts)
      with assms(1) others show ?thesis by (intro take_move [of s t]) auto
    qed
  qed
qed

interpretation stop: descent quiet_step stop_good all_left stop_order
proof unfold_locales
  show "wf stop_order" by (auto simp: stop_order_def)
qed (rule stop_progress)

section \<open>Properties\<close>



section \<open>A task for a thread that has left\<close>

definition orphaned :: "'cb schedule_task \<Rightarrow> 'cb system \<Rightarrow> bool" where
  "orphaned t s \<longleftrightarrow> t \<in> set (sc_tasks (sy_sched s)) \<and> st_thread t \<noteq> - 1 \<and>
     (\<forall>w \<in> set (sy_workers s). w_tid w = st_thread t \<longrightarrow> w_place w = Exited)"

lemma orphaned_step:
  assumes "sched_step s s'" "sched_ok s" "orphaned t s"
  shows "orphaned t s'"
  using assms
proof (induction rule: sched_step.induct)
  case (schedule s u)
  then show ?case by (auto simp: orphaned_def Schedule_def ScheduleNoLock_def)
next
  case (take_task i s w u tk sc)
  have ne: "w_tid w \<noteq> st_thread t"
    using take_task.hyps(1-3) take_task.prems(2) by (auto simp: orphaned_def)
  have tasks: "\<forall>t \<in> set (sc_tasks (sy_sched s)). task_set t" using take_task.prems(1) by (simp add: sched_ok_def)
  from Run_take_Some [OF tasks take_task.hyps(4)] obtain us vs
    where "sc_tasks (sy_sched s) = us @ u # vs" "sc_tasks sc = us @ vs" "eligible (w_tid w) (sy_fibers s) u" by auto
  with ne take_task.prems(2) show ?case by (auto simp: orphaned_def eligible_def dest!: set_update_subset_insert [THEN subsetD])
next
  case (task_returns i s w u)
  then show ?case by (auto simp: orphaned_def dest!: set_update_subset_insert [THEN subsetD])
next
  case (go_idle i s w tk sc)
  then have "sc = sy_sched s" using Run_take_None [of "sy_sched s"] unfolding sched_ok_def by blast
  with go_idle show ?case by (auto simp: orphaned_def dest!: set_update_subset_insert [THEN subsetD])
next
  case (idle_returns i s w)
  then show ?case by (auto simp: orphaned_def dest!: set_update_subset_insert [THEN subsetD])
next
  case (leave i s w tk sc)
  then have "sc = sy_sched s" using Run_take_None [of "sy_sched s"] unfolding sched_ok_def by blast
  with leave show ?case by (auto simp: orphaned_def dest!: set_update_subset_insert [THEN subsetD])
qed (auto simp: orphaned_def)

text \<open>
  The condition of the theorem above is needed: \<open>Schedule\<close> takes a task bound to a thread without a look at
  whether the thread still runs the loop, and such a task is never taken and keeps \<open>Stopping\<close> false for good.
\<close>

theorem orphan_blocks_stop:
  assumes "sched_step\<^sup>*\<^sup>* (system_start sc tids st) s" "orphaned t s" "sched_step\<^sup>*\<^sup>* s s'"
  shows "orphaned t s' \<and> \<not> Stopping (sy_sched s')"
proof -
  have "sched_ok s' \<and> orphaned t s'"
    using assms(3)
    by (induction rule: rtranclp_induct) (use assms(2) sched_reachable_ok [OF assms(1)] in \<open>auto intro: sched_step_ok orphaned_step\<close>)
  then show ?thesis by (auto simp: orphaned_def Stopping_def)
qed


end
