(* ===== verification/Epoll_Names.thy ===== *)
theory Epoll_Names
  imports IO_Manager Std_String
begin

text \<open>
  How \<open>net/iomanager.cc\<close> writes the operations and the event masks of \<open>epoll\<close> into its log, and that the text of a
  mask tells which events it has.
\<close>

unbundle bit_operations_syntax

section \<open>Data\<close>

text \<open>The events of \<open>sys/epoll.h\<close> that the source prints, in its order, with their names.\<close>

definition EPOLLPRI :: u32 where "EPOLLPRI = 0x2"
definition EPOLLRDNORM :: u32 where "EPOLLRDNORM = 0x40"
definition EPOLLRDBAND :: u32 where "EPOLLRDBAND = 0x80"
definition EPOLLWRNORM :: u32 where "EPOLLWRNORM = 0x100"
definition EPOLLWRBAND :: u32 where "EPOLLWRBAND = 0x200"
definition EPOLLMSG :: u32 where "EPOLLMSG = 0x400"
definition EPOLLRDHUP :: u32 where "EPOLLRDHUP = 0x2000"
definition EPOLLONESHOT :: u32 where "EPOLLONESHOT = 0x40000000"

definition epoll_names :: "(u32 \<times> string) list" where
  "epoll_names = [(EPOLLIN, ''EPOLLIN''), (EPOLLPRI, ''EPOLLPRI''), (EPOLLOUT, ''EPOLLOUT''), (EPOLLRDNORM, ''EPOLLRDNORM''),
     (EPOLLRDBAND, ''EPOLLRDBAND''), (EPOLLWRNORM, ''EPOLLWRNORM''), (EPOLLWRBAND, ''EPOLLWRBAND''), (EPOLLMSG, ''EPOLLMSG''),
     (EPOLLERR, ''EPOLLERR''), (EPOLLHUP, ''EPOLLHUP''), (EPOLLRDHUP, ''EPOLLRDHUP''), (EPOLLONESHOT, ''EPOLLONESHOT''),
     (EPOLLET, ''EPOLLET'')]"

section \<open>Printing\<close>

text \<open>The operation comes as an \<open>int\<close>: one of the three constants of \<open>sys/epoll.h\<close>, or any other number.\<close>

definition show_EpollCtlOp :: "int \<Rightarrow> string" where
  "show_EpollCtlOp op = (if op = 1 then ''EPOLL_CTL_ADD'' else if op = 3 then ''EPOLL_CTL_MOD'' else if op = 2 then ''EPOLL_CTL_DEL''
     else show_int op)"

fun print_events :: "u32 \<Rightarrow> (u32 \<times> string) list \<Rightarrow> bool \<Rightarrow> string \<Rightarrow> string" where
  "print_events events [] first os = os"
| "print_events events ((E, name) # es) first os =
     (if events AND E \<noteq> 0 then print_events events es False ((if first then os else os @ ''|'') @ name)
      else print_events events es first os)"

definition show_EPOLL_EVENTS :: "u32 \<Rightarrow> string" where
  "show_EPOLL_EVENTS events = (if events = 0 then ''0'' else print_events events epoll_names True '''')"

section \<open>Reading the text back\<close>

fun bars :: "string list \<Rightarrow> string" where
  "bars [] = ''''"
| "bars [n] = n"
| "bars (n # ns) = n @ ''|'' @ bars ns"

fun at_bars :: "string \<Rightarrow> string \<Rightarrow> string list" where
  "at_bars acc [] = [acc]"
| "at_bars acc (c # cs) = (if c = CHR ''|'' then acc # at_bars [] cs else at_bars (acc @ [c]) cs)"

definition read_events :: "string \<Rightarrow> u32" where
  "read_events s = foldr (\<lambda>n m. (case find (\<lambda>(_, n'). n' = n) epoll_names of Some (e, _) \<Rightarrow> e | None \<Rightarrow> 0) OR m) (at_bars [] s) 0"

definition set_names :: "u32 \<Rightarrow> (u32 \<times> string) list \<Rightarrow> string list" where
  "set_names events es = map snd (filter (\<lambda>(E, _). events AND E \<noteq> 0) es)"

lemma print_events_more:
  "print_events events es False os = (if set_names events es = [] then os else os @ ''|'' @ bars (set_names events es))"
  by (induction es arbitrary: os) (auto simp: set_names_def neq_Nil_conv)

lemma print_events_bars: "print_events events es True '''' = bars (set_names events es)"
  by (induction es) (auto simp: print_events_more set_names_def neq_Nil_conv)

lemma at_bars_word: "CHR ''|'' \<notin> set n \<Longrightarrow> at_bars acc n = [acc @ n]"
  by (induction n arbitrary: acc) auto

lemma at_bars_bar: "CHR ''|'' \<notin> set n \<Longrightarrow> at_bars acc (n @ CHR ''|'' # s) = (acc @ n) # at_bars [] s"
  by (induction n arbitrary: acc) auto

lemma at_bars_bars: "ns \<noteq> [] \<Longrightarrow> \<forall>n \<in> set ns. CHR ''|'' \<notin> set n \<Longrightarrow> at_bars [] (bars ns) = ns"
  by (induction ns rule: bars.induct) (simp_all add: at_bars_word at_bars_bar)

text \<open>Each event of the list is one bit, and the names are distinct and without a bar.\<close>

lemma one_bit: "a AND 2 ^ n \<noteq> 0 \<Longrightarrow> a AND 2 ^ n = 2 ^ n" for a :: u32
  by (rule bit_eqI) (auto simp: bit_simps and_exp_eq_0_iff_not_bit)

lemmas epoll_defs = EPOLLIN_def EPOLLPRI_def EPOLLOUT_def EPOLLRDNORM_def EPOLLRDBAND_def EPOLLWRNORM_def EPOLLWRBAND_def
  EPOLLMSG_def EPOLLERR_def EPOLLHUP_def EPOLLRDHUP_def EPOLLONESHOT_def EPOLLET_def

lemma epoll_bits: "map fst epoll_names = map (\<lambda>n. 2 ^ n) [0, 1, 2, 6, 7, 8, 9, 10, 3, 4, 13, 30, 31]"
  by (simp add: epoll_names_def epoll_defs)

lemma epoll_one_bit: "(E, name) \<in> set epoll_names \<Longrightarrow> \<exists>n. E = 2 ^ n"
proof -
  assume "(E, name) \<in> set epoll_names"
  then have "E \<in> set (map fst epoll_names)" by force
  then show ?thesis unfolding epoll_bits set_map by blast
qed

lemma masks_or:
  assumes "\<forall>(E, _) \<in> set es. \<exists>n. E = (2 :: u32) ^ n"
  shows "foldr (\<lambda>(E, _). (OR) E) (filter (\<lambda>(E, _). events AND E \<noteq> 0) es) 0 = events AND foldr (\<lambda>(E, _). (OR) E) es 0"
  using assms
proof (induction es)
  case (Cons e es)
  then obtain n name where "e = (2 ^ n, name)" by (cases e) auto
  with Cons show ?case by (auto simp: bit.conj_disj_distrib dest: one_bit)
qed simp

lemma find_name:
  assumes "distinct (map snd es)" "(E, n) \<in> set es"
  shows "find (\<lambda>(_, n'). n' = n) es = Some (E, n)"
  using assms by (induction es) (auto simp: rev_image_eqI)

lemma epoll_names_distinct: "distinct (map snd epoll_names)" "\<forall>n \<in> snd ` set epoll_names. CHR ''|'' \<notin> set n"
  by (simp_all add: epoll_names_def)

lemma read_names:
  assumes "set es \<subseteq> set epoll_names"
  shows "foldr (\<lambda>n m. (case find (\<lambda>(_, n'). n' = n) epoll_names of Some (e, _) \<Rightarrow> e | None \<Rightarrow> 0) OR m) (map snd es) 0 =
    foldr (\<lambda>(E, _). (OR) E) es 0"
  using assms by (induction es) (auto simp: find_name [OF epoll_names_distinct(1)])

section \<open>Property\<close>

definition epoll_mask :: u32 where
  "epoll_mask = foldr (\<lambda>(E, _). (OR) E) epoll_names 0"

text \<open>
  The text of an event mask is faithful: reading the names back gives the events among the listed ones that the mask has. So two
  masks of listed events with the same text are equal.
\<close>

theorem event_text_roundtrip:
  assumes "events AND epoll_mask \<noteq> 0 \<or> events = 0"
  shows "read_events (show_EPOLL_EVENTS events) = events AND epoll_mask"
proof (cases "events = 0")
  case True
  then show ?thesis by (simp add: show_EPOLL_EVENTS_def read_events_def epoll_names_def)
next
  case False
  let ?set = "filter (\<lambda>(E, _). events AND E \<noteq> 0) epoll_names"
  have or: "foldr (\<lambda>(E, _). (OR) E) ?set 0 = events AND epoll_mask"
    unfolding epoll_mask_def by (rule masks_or) (use epoll_one_bit in blast)
  with assms False have "?set \<noteq> []" by auto
  then have "set_names events epoll_names \<noteq> []" by (simp add: set_names_def)
  moreover have "\<forall>n \<in> set (set_names events epoll_names). CHR ''|'' \<notin> set n"
    using epoll_names_distinct(2) unfolding set_names_def by auto
  ultimately have "at_bars [] (show_EPOLL_EVENTS events) = map snd ?set"
    using False at_bars_bars [of "set_names events epoll_names"]
    by (simp add: show_EPOLL_EVENTS_def print_events_bars) (simp add: set_names_def)
  then show ?thesis unfolding read_events_def using read_names [of ?set] or by auto
qed

theorem event_text_roundtrip_witness:
  "read_events (show_EPOLL_EVENTS (EPOLLIN OR EPOLLET)) = (EPOLLIN OR EPOLLET) AND epoll_mask"
  by (rule event_text_roundtrip) (simp add: epoll_mask_def epoll_names_def epoll_defs)

end
