(* ===== verification/Spec2Isabelle.thy ===== *)
theory Spec2Isabelle
  imports Byte_Buffers Tcp_Server Config Log_Yaml Byte_Stream Process Blocking_Refinement Blocking_Room Sleeping Locale_Util Scheduler_Progress Epoll_Names
begin

text \<open>
  A verification of the server framework under \<open>src/serverframework\<close>.

  The program. A server is written as a set of fibers that make blocking calls. The fibers of a thread are switched by \<open>fiber/fiber.cc\<close>;
  \<open>fiber/scheduler.cc\<close> runs tasks, fibers or functions, on a pool of threads; \<open>net/iomanager.cc\<close> is a scheduler whose idle fiber waits in
  \<open>epoll_wait\<close> for events on descriptors and for the next timer of \<open>util/timer.cc\<close>. The hooks of \<open>net/hook.cc\<close> replace the blocking calls of
  the C library: they look the descriptor up in the table of \<open>net/fd_manager.cc\<close>, make the call on a non-blocking descriptor, and when it would
  block register an event and a timer and suspend the fiber. \<open>net/address.cc\<close>, \<open>net/socket.cc\<close> and \<open>tcp/tcp_server.cc\<close> are built on the hooked
  calls. \<open>util/bytearray.cc\<close> is the buffer of serialised data, \<open>util/stream.cc\<close> has the loops for a fixed number of bytes. Around them stand
  the configuration, the log, the environment of the program, locks, threads, the daemon mode and utilities.

  The theories, in the order of the dependencies, and what each models:

    \<^item> \<open>Prelude\<close>: machine integers as words (\<open>u8\<close> to \<open>u64\<close>; \<open>c_int\<close> converts to a C \<open>int\<close>), the result type \<open>'a result\<close> with the errors
      of the source (a failed assertion, a thrown exception, an undefined access) on the left and \<open>rbind\<close> to sequence, and lemmas on lists.
    \<^item> \<open>Endian\<close> (\<open>util/endian_conv.h\<close>), \<open>Byte_Array\<close>, \<open>Byte_Codec\<close>, \<open>Byte_Buffers\<close> (\<open>util/bytearray.h\<close>, \<open>util/bytearray.cc\<close>): the record
      \<open>byte_array\<close> is the chain of blocks with position, capacity, size, current block and byte order. \<open>Byte_Array\<close> has the memory operations and
      proves them to refine a flat byte sequence with a cursor; the locale \<open>byte_store\<close> states that contract and is interpreted on the chain.
      \<open>Byte_Codec\<close> has every serialiser; the locale \<open>codec\<close> extends \<open>byte_store\<close>, and its round trip of whole messages is interpreted on the
      serialisers. \<open>Byte_Buffers\<close> has the \<open>iovec\<close> views, the files and the textual forms.
    \<^item> \<open>Std_Set\<close>, \<open>Std_String\<close>: what the source uses of \<open>std::set\<close> (the locale \<open>strict_order\<close> states the contract of a comparator and is
      interpreted on those of timers, addresses and strings) and of \<open>std::string\<close>.
    \<^item> \<open>Timer\<close> (\<open>util/timer.h\<close>, \<open>util/timer.cc\<close>): timers in a store, the set ordered by deadline, and every operation, with the detection
      of a clock that was turned back.
    \<^item> \<open>Fiber\<close>, \<open>Scheduler\<close> (\<open>fiber/\<close>): the fibers of a thread with the stack of control transfers; the scheduler as an interleaving of
      the steps of its workers and of \<open>Start\<close>, \<open>Schedule\<close>, \<open>Stop\<close> (\<open>sched_step\<close>). \<open>Scheduler_Progress\<close> shows that stopping can finish: its locale \<open>descent\<close> is well-founded progress
      of a transition system, interpreted on the steps of the workers.
    \<^item> \<open>IO_Manager\<close>, \<open>Fd_Manager\<close>, \<open>Hook\<close>, \<open>Address\<close>, \<open>Socket\<close> (\<open>net/\<close>), \<open>Tcp_Server\<close> (\<open>tcp/\<close>): event contexts and one round of the idle
      fiber; how it prints event masks (\<open>Epoll_Names\<close>); the descriptor table; the hooked calls with what they ask of the scheduler (timers, events, yields) as a trace; addresses with
      their byte images; sockets over a record of system calls, whose laws are the locale \<open>net_kernel\<close>, interpreted on the hooked calls;
      the server with its sockets as shared objects and its workers as schedulers.
    \<^item> \<open>Event_Table\<close>, \<open>Blocking_IO\<close>, \<open>Blocking_Progress\<close>, \<open>Blocking_Refinement\<close>: the components that make a blocking call work, together. The locale
      \<open>event_table\<close> states what the I/O scheduler promises, a table from descriptor and event to the party to wake, and is interpreted on the
      operations of \<open>IO_Manager\<close>. \<open>rt_step\<close> is \<open>do_io\<close> and \<open>connect_with_timeout\<close> of \<open>net/hook.cc\<close> one step at a time, for any number of
      fibers, with the real table, timer set and task list, in any interleaving with kernel reports, expiries, callbacks and closes. \<open>Sleeping\<close> has the sleeps of \<open>net/hook.cc\<close> in the same way (\<open>sl_step\<close>).
    \<^item> \<open>Fiber_Room\<close>, \<open>Blocking_Room\<close>: the abstract specification of blocking. A room of fibers, each free, running, waiting for something or
      woken, with five moves (\<open>room_step\<close>); the locale \<open>fiber_room\<close> is the contract of a system whose steps are such moves or none, and is
      interpreted on the runtime of hooked calls (\<open>rt_step\<close>) and on that of sleeps (\<open>sl_step\<close>).
    \<^item> \<open>String_Util\<close>, \<open>File_Util\<close>, \<open>Locale_Util\<close> (\<open>util/util.h\<close>, \<open>util/util.cc\<close>), \<open>Byte_Stream\<close> (\<open>util/stream.cc\<close>), \<open>Env\<close> (\<open>env/env.cc\<close>), \<open>Locks\<close>
      (\<open>env/mutex.h\<close>, \<open>env/mutex.cc\<close>: the locale \<open>lock_laws\<close> has what the scoped locks need and is interpreted on every lock class), \<open>Process\<close>
      (\<open>env/thread.cc\<close>, \<open>util/daemon.cc\<close>).
    \<^item> \<open>Log_Format\<close>, \<open>Logger\<close>, \<open>Log_Yaml\<close> (\<open>log/\<close>), \<open>Lexical_Cast\<close>, \<open>Config\<close> (\<open>config/\<close>): the pattern language, the loggers, their dumps
      and definitions; the conversions, the variables with their listeners, the registry, and loading.
    \<^item> This theory composes them: the variables the components register before \<open>main\<close>, the two listeners on them, and loading a document into the
      whole framework (\<open>framework_load\<close>); the timeouts of the hooks and of the server come out of it.

  What the lemmas show. For each component an invariant kept by every operation (\<open>ba_ok\<close>, \<open>tm_ok\<close>, \<open>sched_ok\<close>, \<open>io_ok\<close> and the like, with
  reachable states as inductive predicates), and the behaviour of each operation on every branch, errors included. Above that:
  the byte array refines a byte sequence and its codecs are inverse to each other; timers expire exactly when due; a scheduler neither loses nor
  repeats tasks; the count of pending events is the number of registered ones; a hooked call gives what the blocking call would;
  once stopped, it can always run what is queued and end, unless a task is bound to a thread that has ended already;
  the concurrent calls and the sleeps refine the room of fibers, in which nothing runs before it is woken and one party waits per event;
  among concurrent calls no wake-up is lost or given twice, a waiting fiber can always be resumed, the scheduler does not stop under it, a timeout is never early and, except for the
  race that \<open>timeout_lost\<close> exhibits, can always happen, and each call returns what the sequential model computes; a sleeping fiber is woken once,
  not early, and can always wake; descriptors
  are owned by one socket and closed once; binding is all or nothing; accepted clients are handed to a worker; locks exclude; the start of a
  thread completes under every schedule; the pattern formatter and its parser agree; a dump of the loggers can be loaded and
  gives them back; loading a document makes each variable have its last valid
  value and tells the listeners; and the configured timeouts are the ones the hooks use.

  Parameters and their hypotheses. Code that is not in the repository is an argument of the definitions that use it: the system calls (a record
  of functions, or the list of results they give), \<open>yaml-cpp\<close> and \<open>boost::lexical_cast\<close> (\<open>yaml_lib\<close>, \<open>from_str\<close>), the clock, the
  allocator (fresh addresses), \<open>inet_pton\<close>, \<open>getaddrinfo\<close>, \<open>getifaddrs\<close>, \<open>strftime\<close>, \<open>setlocale\<close>. Where a theorem needs a law of one of them it
  is a named hypothesis of documented behaviour, and its witness gives a concrete function that satisfies it.

  Bounds and loops. Integers are words of their width wherever the source can overflow; sizes of the byte array are natural numbers, with the
  unsigned subtraction of the source written out, under the invariant that they are below \<open>2 ^ 64\<close>. Loops are total functions with a measure;
  the retry loop of the hooks recurs on the results of the calls it makes, and the endless loops (a worker, the idle fiber, accepting, the
  daemon) are step relations or rounds. The steps of blocking calls assume a clock that does not go back and deadlines below \<open>2 ^ 64\<close>. Reading a file of unknown length is a \<open>partial_function (option)\<close>, shown to return.
  No definition runs on fuel.

  Not modelled, and why:

    \<^item> The machine state behind \<open>swapcontext\<close>: a switch of fibers is a change of the running flow of control.
    \<^item> Memory management: destructors that only release memory; a freed object is one that no state refers to any more.
    \<^item> The creation of the epoll and pipe descriptors and the \<open>dlsym\<close> table: calls of the system without logic of the program.
    \<^item> Data races: the operations that hold a lock are atomic; the lock classes themselves are verified in \<open>Locks\<close>. What two sections of one
      operation see of each other is modelled where the code has two (\<open>FdManager::Get\<close>).
    \<^item> \<open>send\<close> and \<open>recv\<close> as data transfer, and floating-point conversions; calls that only pass their arguments on.
    \<^item> The test programs, the umbrella header and the build files.
\<close>

section \<open>The framework as configured\<close>

text \<open>
  The variables the components register before \<open>main\<close>, and the listeners on them: the hooks keep the connect timeout in a variable of their
  own, the loggers follow the log definitions.
\<close>

datatype config_value = V_Int int | V_U32 u32 | V_U64 u64 | V_Logs "log_define list"

datatype config_cb = Connect_Timeout_Changed | Logs_Changed

record framework =
  fw_config :: "(config_value, config_cb) config"
  fw_connect_timeout :: u64
  fw_loggers :: logger_manager
  fw_appenders :: nat

type_synonym variable = "string \<times> string \<times> config_value \<times> string"

definition g_fiber_stack_size :: variable where
  "g_fiber_stack_size = (''unsigned int'', ''fiber.stack_size'', V_U32 (128 * 1024), ''fiber stack size'')"

definition g_tcp_connect_timeout :: variable where
  "g_tcp_connect_timeout = (''int'', ''tcp.connect.timeout'', V_Int 5000, ''tcp connect timeout'')"

definition g_tcp_server_read_timeout :: variable where
  "g_tcp_server_read_timeout = (''unsigned long'', ''tcp_server.read_timeout'', V_U64 tcp_server_read_timeout, ''tcp server read timeout'')"

definition g_daemon_restart_interval :: variable where
  "g_daemon_restart_interval = (''unsigned int'', ''daemon.restart_interval'', V_U32 5, ''daemon restart interval'')"

definition g_log_defines :: variable where
  "g_log_defines = (''std::set<LogDefine>'', ''logs'', V_Logs [], ''logs config'')"

definition register :: "variable \<Rightarrow> (config_value, config_cb) config \<Rightarrow> (config_value, config_cb) config" where
  "register var cf =
     (case var of (type, name, v, desc) \<Rightarrow>
        (case Lookup_or_create cf type name v desc of Inr (_, cf') \<Rightarrow> cf' | Inl _ \<Rightarrow> cf))"

definition listen_to :: "string \<Rightarrow> config_cb \<Rightarrow> (config_value, config_cb) config \<Rightarrow> (config_value, config_cb) config" where
  "listen_to name cb cf =
     (case LookupBase cf name of
        Some var \<Rightarrow> (let (_, cf1, var1) = AddListener cf var cb in put_var cf1 name var1)
      | None \<Rightarrow> cf)"

text \<open>\<open>_HookIniter\<close> takes the value of its variable over; an \<open>int\<close> becomes a \<open>uint64_t\<close>.\<close>

definition HookIniter :: "framework \<Rightarrow> framework" where
  "HookIniter fw =
     (let cf = fw_config fw;
          timeout = (case LookupBase cf ''tcp.connect.timeout'' of
              Some var \<Rightarrow> (case cv_val var of V_Int v \<Rightarrow> of_int v | _ \<Rightarrow> fw_connect_timeout fw) | None \<Rightarrow> fw_connect_timeout fw)
      in fw\<lparr>fw_connect_timeout := timeout, fw_config := listen_to ''tcp.connect.timeout'' Connect_Timeout_Changed cf\<rparr>)"

definition LogIniter :: "framework \<Rightarrow> framework" where
  "LogIniter fw = fw\<lparr>fw_config := listen_to ''logs'' Logs_Changed (fw_config fw)\<rparr>"

definition static_init :: "logger_manager \<Rightarrow> framework" where
  "static_init lm =
     LogIniter (HookIniter \<lparr>fw_config = fold register [g_fiber_stack_size, g_tcp_connect_timeout, g_tcp_server_read_timeout,
       g_daemon_restart_interval, g_log_defines] Config, fw_connect_timeout = - 1, fw_loggers = lm, fw_appenders = 0\<rparr>)"

text \<open>The equality of the values: sets of log definitions are compared by the operator of \<open>LogDefine\<close>.\<close>

definition value_eq :: "string \<Rightarrow> config_value \<Rightarrow> config_value \<Rightarrow> bool" where
  "value_eq type a b =
     (case (a, b) of (V_Logs xs, V_Logs ys) \<Rightarrow> list_all2 LogDefine_eq xs ys | _ \<Rightarrow> a = b)"

definition run_call :: "log_env \<Rightarrow> bool \<Rightarrow> u64 \<Rightarrow> config_cb \<times> config_value \<times> config_value \<Rightarrow> framework \<Rightarrow> framework result" where
  "run_call lenv has_d now c fw =
     (case c of
        (Connect_Timeout_Changed, _, V_Int v) \<Rightarrow> Inr (fw\<lparr>fw_connect_timeout := of_int v\<rparr>)
      | (Logs_Changed, V_Logs old, V_Logs new) \<Rightarrow>
          rbind (on_log_config lenv has_d now old new (fw_loggers fw) (fw_appenders fw)) (\<lambda>(lm, n).
          Inr (fw\<lparr>fw_loggers := lm, fw_appenders := n\<rparr>))
      | _ \<Rightarrow> Inr fw)"

fun run_calls :: "log_env \<Rightarrow> bool \<Rightarrow> u64 \<Rightarrow> (config_cb \<times> config_value \<times> config_value) list \<Rightarrow> framework \<Rightarrow> framework result" where
  "run_calls lenv has_d now [] fw = Inr fw"
| "run_calls lenv has_d now (c # cs) fw = rbind (run_call lenv has_d now c fw) (run_calls lenv has_d now cs)"

definition framework_load :: "yaml_lib \<Rightarrow> (string \<Rightarrow> config_value from_str) \<Rightarrow> log_env \<Rightarrow> bool \<Rightarrow> u64 \<Rightarrow> yaml \<Rightarrow> framework \<Rightarrow> framework result" where
  "framework_load lib from_s lenv has_d now root fw =
     (let (calls, cf) = LoadFromYaml value_eq lib from_s root (fw_config fw) in
      rbind (run_calls lenv has_d now calls fw) (\<lambda>fw. Inr (fw\<lparr>fw_config := cf\<rparr>)))"

inductive framework_reachable :: "yaml_lib \<Rightarrow> (string \<Rightarrow> config_value from_str) \<Rightarrow> framework \<Rightarrow> bool" for lib from_s where
  initialised: "framework_reachable lib from_s (static_init lm)"
| loaded: "framework_reachable lib from_s fw \<Longrightarrow> framework_load lib from_s lenv has_d now root fw = Inr fw' \<Longrightarrow>
    framework_reachable lib from_s fw'"

text \<open>The server takes its read timeout from the configuration when it is constructed.\<close>

definition configured_server :: "framework \<Rightarrow> nat option \<Rightarrow> nat option \<Rightarrow> tcp_server option" where
  "configured_server fw io_worker accept_worker =
     (case Config_Lookup (fw_config fw) ''unsigned long'' ''tcp_server.read_timeout'' of
        Some var \<Rightarrow> (case cv_val var of V_U64 v \<Rightarrow> Some (TcpServer io_worker accept_worker v) | _ \<Rightarrow> None)
      | None \<Rightarrow> None)"

section \<open>The connect timeout\<close>

abbreviation connect_var :: string where
  "connect_var \<equiv> ''tcp.connect.timeout''"

text \<open>The timeout after the listeners have been called.\<close>

fun timeout_after :: "(config_cb \<times> config_value \<times> config_value) list \<Rightarrow> u64 \<Rightarrow> u64" where
  "timeout_after [] t = t"
| "timeout_after ((Connect_Timeout_Changed, _, V_Int v) # cs) t = timeout_after cs (of_int v)"
| "timeout_after (c # cs) t = timeout_after cs t"

definition follows :: "(config_value, config_cb) config \<Rightarrow> u64 \<Rightarrow> bool" where
  "follows cf t \<longleftrightarrow> (\<exists>var v key. LookupBase cf connect_var = Some var \<and> cv_type var = ''int'' \<and> cv_val var = V_Int v \<and> t = of_int v \<and>
     cv_cbs var = [(key, Connect_Timeout_Changed)]) \<and>
   (\<forall>name var. name \<noteq> connect_var \<longrightarrow> LookupBase cf name = Some var \<longrightarrow> Connect_Timeout_Changed \<notin> snd ` set (cv_cbs var))"

text \<open>Converting to the type \<open>int\<close> gives an \<open>int\<close>.\<close>

definition int_typed :: "(string \<Rightarrow> config_value from_str) \<Rightarrow> bool" where
  "int_typed from_s \<longleftrightarrow> (\<forall>s x. from_s ''int'' s = Some x \<longrightarrow> (\<exists>v. x = V_Int v))"

lemma int_typedD: "int_typed from_s \<Longrightarrow> from_s ''int'' s = Some x \<Longrightarrow> \<exists>v. x = V_Int v"
  by (simp add: int_typed_def)

lemma timeout_after_append [simp]: "timeout_after (cs @ ds) t = timeout_after ds (timeout_after cs t)"
  by (induction cs t rule: timeout_after.induct) simp_all

lemma timeout_after_others: "Connect_Timeout_Changed \<notin> fst ` set cs \<Longrightarrow> timeout_after cs t = t"
  by (induction cs t rule: timeout_after.induct) auto

lemma run_calls_timeout: "run_calls lenv has_d now cs fw = Inr fw' \<Longrightarrow> fw_connect_timeout fw' = timeout_after cs (fw_connect_timeout fw)"
proof (induction cs arbitrary: fw)
  case (Cons c cs)
  then obtain fw1 where 1: "run_call lenv has_d now c fw = Inr fw1" "run_calls lenv has_d now cs fw1 = Inr fw'" by (auto simp: result_simps)
  have "fw_connect_timeout fw1 = timeout_after [c] (fw_connect_timeout fw)"
    using 1(1) by (cases c; cases "fst c"; cases "fst (snd c)"; cases "snd (snd c)") (auto simp: run_call_def result_simps)
  then show ?case using Cons.IH [OF 1(2)] timeout_after_append [of "[c]" cs] by simp
qed simp

lemma follows_put_other:
  assumes "follows cf t" "name \<noteq> connect_var" "LookupBase cf name = Some var" "cv_cbs var' = cv_cbs var"
  shows "follows (put_var cf name var') t"
  using assms by (auto simp: follows_def LookupBase_put_var)

lemma follows_load_member:
  assumes "int_typed from_s" "follows (snd st) (timeout_after (fst st) t)"
  shows "follows (snd (load_member value_eq lib from_s m st)) (timeout_after (fst (load_member value_eq lib from_s m st)) t)"
proof -
  obtain k n calls cf where m: "m = (k, n)" "st = (calls, cf)" by (cases m, cases st)
  let ?k = "map tolower k" and ?s = "case n of Scalar s \<Rightarrow> s | _ \<Rightarrow> y_emit lib n"
  show ?thesis
  proof (cases "k = [] \<or> LookupBase cf ?k = None")
    case True
    then show ?thesis using assms(2) m by (auto simp: load_member_def)
  next
    case False
    then obtain var where v: "LookupBase cf ?k = Some var" by auto
    obtain b calls' var' where f: "FromString value_eq from_s var ?s = (b, calls', var')" by (cases "FromString value_eq from_s var ?s")
    have l: "load_member value_eq lib from_s m st = (calls @ calls', put_var cf ?k var')"
      using False v f m by (simp add: load_member_def Let_def)
    have cbs: "cv_cbs var' = cv_cbs var" "fst ` set calls' \<subseteq> snd ` set (cv_cbs var)"
      using f by (force simp: FromString_def SetValue_def split: option.splits if_splits)+
    show ?thesis
    proof (cases "?k = connect_var")
      case True
      with v assms(2) m obtain x key where x: "cv_type var = ''int''" "cv_val var = V_Int x" "timeout_after calls t = of_int x"
        "cv_cbs var = [(key, Connect_Timeout_Changed)]" by (auto simp: follows_def)
      have "\<exists>y. cv_val var' = V_Int y \<and> cv_type var' = ''int'' \<and> timeout_after calls' (of_int x) = of_int y"
        using f x int_typedD [OF assms(1)] by (fastforce simp: FromString_def SetValue_def split: option.splits if_splits)
      then show ?thesis using True v assms(2) m l x cbs by (auto simp: follows_def LookupBase_put_var)
    next
      case False
      then have "Connect_Timeout_Changed \<notin> fst ` set calls'" using assms(2) v m cbs(2) by (auto simp: follows_def)
      then have "timeout_after calls' u = u" for u by (rule timeout_after_others)
      then show ?thesis using follows_put_other [OF _ False v cbs(1)] assms(2) m l by simp
    qed
  qed
qed

lemma follows_load:
  assumes "int_typed from_s" "follows cf t" "LoadFromYaml value_eq lib from_s root cf = (calls, cf')"
  shows "follows cf' (timeout_after calls t)"
proof -
  have "follows (snd (fold (load_member value_eq lib from_s) ms st)) (timeout_after (fst (fold (load_member value_eq lib from_s) ms st)) t)"
    if "follows (snd st) (timeout_after (fst st) t)" for ms and st :: "(config_cb \<times> config_value \<times> config_value) list \<times> (config_value, config_cb) config"
    using that
  proof (induction ms arbitrary: st)
    case (Cons m ms)
    show ?case using Cons.IH [OF follows_load_member [OF assms(1) Cons.prems]] by simp
  qed simp
  from this [of "([], cf)" "ListAllMember '''' root []"] assms(2, 3) show ?thesis by (simp add: LoadFromYaml_def)
qed

lemma static_names_valid:
  "name_valid ''fiber.stack_size''" "name_valid ''tcp.connect.timeout''" "name_valid ''tcp_server.read_timeout''"
  "name_valid ''daemon.restart_interval''" "name_valid ''logs''"
  by code_simp+

definition static_var :: "variable \<Rightarrow> (u64 \<times> config_cb) list \<Rightarrow> string \<times> (config_value, config_cb) config_var" where
  "static_var var cbs =
     (case var of (type, name, v, desc) \<Rightarrow> (name, (ConfigVar type name v desc)\<lparr>cv_cbs := cbs\<rparr>))"

lemmas variable_defs = static_var_def g_fiber_stack_size_def g_tcp_connect_timeout_def g_tcp_server_read_timeout_def
  g_daemon_restart_interval_def g_log_defines_def

lemma static_init_datas:
  "cf_datas (fw_config (static_init lm)) =
     [static_var g_fiber_stack_size [], static_var g_tcp_connect_timeout [(1, Connect_Timeout_Changed)],
      static_var g_tcp_server_read_timeout [], static_var g_daemon_restart_interval [], static_var g_log_defines [(1, Logs_Changed)]] \<and>
   fw_connect_timeout (static_init lm) = 5000"
proof -
  note defs = static_init_def LogIniter_def HookIniter_def register_def Lookup_or_create_def LookupBase_def listen_to_def put_var_def
    AddListener_def Config_def Let_def variable_defs
  show ?thesis by (simp add: defs static_names_valid ConfigVar_def)
qed

lemma static_init_follows: "follows (fw_config (static_init lm)) (fw_connect_timeout (static_init lm))"
  by (auto simp: follows_def LookupBase_def static_init_datas variable_defs ConfigVar_def split: if_splits)

lemma framework_follows:
  assumes "int_typed from_s" "framework_reachable lib from_s fw"
  shows "follows (fw_config fw) (fw_connect_timeout fw)"
  using assms(2)
proof (induction rule: framework_reachable.induct)
  case (initialised lm)
  show ?case by (rule static_init_follows)
next
  case (loaded fw lenv has_d now root fw')
  obtain calls cf where l: "LoadFromYaml value_eq lib from_s root (fw_config fw) = (calls, cf)" by fastforce
  with loaded.hyps(2) obtain fw1 where r: "run_calls lenv has_d now calls fw = Inr fw1" "fw' = fw1\<lparr>fw_config := cf\<rparr>"
    by (auto simp: framework_load_def result_simps)
  from follows_load [OF assms(1) loaded.IH l] run_calls_timeout [OF r(1)] r(2) show ?case by simp
qed

section \<open>Properties\<close>

text \<open>
  (C32) Whatever documents are loaded, the timeout of \<open>connect\<close> is the configured one: the variable of the hooks always has the value of
  \<open>tcp.connect.timeout\<close>, and a hooked \<open>connect\<close> that has to wait sets a timer of exactly that many milliseconds, or none for -1.
\<close>

theorem connect_timeout_configured:
  assumes "int_typed from_s" "framework_reachable lib from_s fw"
    "fd_lookup fm fd = Some ctx" "is_socket ctx" "\<not> user_nonblock ctx" "\<not> is_closed ctx"
    "hook_connect True fm fd (fw_connect_timeout fw) (- 1, EINPROGRESS) w soerr gerrno = Inr (n, e, tr)"
  shows "\<exists>var v. LookupBase (fw_config fw) ''tcp.connect.timeout'' = Some var \<and> cv_val var = V_Int v \<and>
    (\<forall>t. Add_Timer t \<in> set tr \<longleftrightarrow> t = of_int v \<and> t \<noteq> - 1)"
proof -
  from framework_follows [OF assms(1, 2)] obtain var v where v: "LookupBase (fw_config fw) connect_var = Some var" "cv_val var = V_Int v"
    "fw_connect_timeout fw = of_int v" by (auto simp: follows_def)
  have "0 \<le> fd" using assms(3) by (auto simp: fd_lookup_def split: if_splits)
  with assms(3-7) have "Add_Timer t \<in> set tr \<longleftrightarrow> t = of_int v \<and> t \<noteq> - 1" for t
    by (auto simp: hook_connect_def connect_with_timeout_def fd_Get_plain v(3) Let_def split: if_splits option.splits)
  with v show ?thesis by blast
qed

definition int_only :: "string \<Rightarrow> config_value from_str" where
  "int_only type s = (if type = ''int'' then Some (V_Int 250) else None)"

theorem connect_timeout_configured_witness:
  "\<exists>n e tr. hook_connect True sock_table 3 (fw_connect_timeout (static_init (\<lambda>_. None))) (- 1, EINPROGRESS)
       \<lparr>wt_rt = 0, wt_errno = 0, wt_cancelled = 0\<rparr> (Some 0) 0 = Inr (n, e, tr) \<and> Add_Timer 5000 \<in> set tr"
proof -
  let ?fw = "static_init (\<lambda>_. None)" and ?w = "\<lparr>wt_rt = 0, wt_errno = 0, wt_cancelled = 0\<rparr>"
  have t: "int_typed int_only" by (simp add: int_typed_def int_only_def)
  have s: "fd_lookup sock_table 3 = Some sock_ctx" by (simp add: fd_lookup_def sock_table_def FdManager_def)
  have c: "is_socket sock_ctx" "\<not> user_nonblock sock_ctx" "\<not> is_closed sock_ctx" by (simp_all add: sock_ctx_def)
  obtain n e tr where h: "hook_connect True sock_table 3 (fw_connect_timeout ?fw) (- 1, EINPROGRESS) ?w (Some 0) 0 = Inr (n, e, tr)"
    using s c by (auto simp: hook_connect_def connect_with_timeout_def fd_Get_plain Let_def EINPROGRESS_def)
  have "map_option cv_val (LookupBase (fw_config ?fw) ''tcp.connect.timeout'') = Some (V_Int 5000)"
    by (simp add: LookupBase_def static_init_datas variable_defs ConfigVar_def)
  then obtain var0 where v0: "LookupBase (fw_config ?fw) ''tcp.connect.timeout'' = Some var0" "cv_val var0 = V_Int 5000" by blast
  from connect_timeout_configured [OF t framework_reachable.initialised s c h] obtain var v where
    v: "LookupBase (fw_config ?fw) ''tcp.connect.timeout'' = Some var" "cv_val var = V_Int v"
    and a: "Add_Timer 5000 \<in> set tr \<longleftrightarrow> (5000 :: u64) = of_int v \<and> (5000 :: u64) \<noteq> - 1" by blast
  from v v0 have "v = 5000" by simp
  with a have "Add_Timer 5000 \<in> set tr" by simp
  with h show ?thesis by blast
qed

text \<open>
  The configured read timeout reaches the reads of every client: a server takes \<open>tcp_server.read_timeout\<close> from the configuration, sets
  it on each connection it accepts, and a hooked \<open>read\<close> on the new descriptor waits at most that long for data.
\<close>

theorem read_timeout_configured:
  assumes "configured_server fw (Some k) acc = Some sv" "sv' = sv\<lparr>ts_socks := as, ts_stop := False\<rparr>"
    "Config_Lookup (fw_config fw) ''unsigned long'' ''tcp_server.read_timeout'' = Some var" "cv_val var = V_U64 v" "v < 2 ^ 31 * 1000"
    "k < length (tw_workers tw)" "2 \<le> length (hw_fm (tw_net tw))"
    "Socket_accept (hooked_api env) (tw_net tw) (tw_socks tw ! a) = (Some c, w)" "fd_lookup (hw_fm (tw_net tw)) (sk_sock c) = None"
  shows "\<exists>tw'. StartAccept_round (hooked_api env) tw sv' a = Inr (True, tw') \<and>
    hook_read True (hw_fm (tw_net tw')) (sk_sock c) cs ws = Inr (do_io_retry v READ cs ws [])"
proof -
  have sv: "ts_io_worker sv' = Some k" "\<not> ts_stop sv'" "ts_recv_timeout sv' = v"
    using assms(1-4) by (auto simp: configured_server_def TcpServer_def)
  from accept_round [OF sv(2, 1) assms(6, 8)] obtain tw' where r: "StartAccept_round (hooked_api env) tw sv' a = Inr (True, tw')"
    "tw_net tw' = SetRecvTimeout (hooked_api env) w c (sint v)" by (auto simp: sv(3))
  from accept_managed [OF assms(8)] obtain ctx where ctx: "fd_lookup (hw_fm w) (sk_sock c) = Some ctx" "is_socket ctx" "\<not> is_closed ctx"
    "world_accept env (tw_net tw) (sk_sock (tw_socks tw ! a)) = (sk_sock c, w)" by blast
  have fd: "0 \<le> sk_sock c" using ctx(1) by (auto simp: fd_lookup_def split: if_splits)
  from world_accept_ctx [OF ctx(4) _ assms(7, 9)] fd ctx(1) have "ctx = fst (FdCtx (ne_fstat env) (ne_getfl env) (sk_sock c))" by simp
  then have nb: "\<not> user_nonblock ctx" by (simp add: FdCtx_def FdCtx_Init_def Let_def)
  note small = small_timeout [OF assms(5)]
  have "of_int (sint v) = v" by simp
  with timeout_stored(1) [OF ctx(1), of "sint v" env] small
  have "fd_lookup (hw_fm (tw_net tw')) (sk_sock c) = Some (SetTimeout ctx SO_RCVTIMEO v)" by (simp add: r(2))
  then have "hook_read True (hw_fm (tw_net tw')) (sk_sock c) cs ws = Inr (do_io_retry v READ cs ws [])"
    using fd ctx(2, 3) nb by (simp add: hook_read_def do_io_def fd_Get_plain SetTimeout_def GetTimeout_def)
  with r(1) show ?thesis by blast
qed

definition read_world :: "hook_world tcp_world" where
  "read_world = accept_world\<lparr>tw_net := \<lparr>hw_open = [0, 1, 2], hw_fm = FdManager\<rparr>\<rparr>"

theorem read_timeout_configured_witness:
  "\<exists>sv c tw'. configured_server (static_init (\<lambda>_. None)) (Some 0) None = Some sv \<and>
     StartAccept_round (hooked_api plain_env) read_world (sv\<lparr>ts_socks := [0], ts_stop := False\<rparr>) 0 = Inr (True, tw') \<and>
     fst (Socket_accept (hooked_api plain_env) (tw_net read_world) (tw_socks read_world ! 0)) = Some c \<and>
     hook_read True (hw_fm (tw_net tw')) (sk_sock c) [(5, 0)] [] = Inr (do_io_retry 120000 READ [(5, 0)] [] [])"
proof -
  let ?fw = "static_init (\<lambda>_. None)"
  let ?acc = "Socket_accept (hooked_api plain_env) (tw_net read_world) (tw_socks read_world ! 0)"
  obtain var where var: "Config_Lookup (fw_config ?fw) ''unsigned long'' ''tcp_server.read_timeout'' = Some var" "cv_val var = V_U64 120000"
    by (simp add: Config_Lookup_def static_init_datas variable_defs ConfigVar_def tcp_server_read_timeout_def)
  then obtain sv where sv: "configured_server ?fw (Some 0) None = Some sv" by (simp add: configured_server_def)
  have "case ?acc of (None, _) \<Rightarrow> False | (Some c, _) \<Rightarrow> fd_lookup (hw_fm (tw_net read_world)) (sk_sock c) = None" by code_simp
  then obtain c w where c: "?acc = (Some c, w)" "fd_lookup (hw_fm (tw_net read_world)) (sk_sock c) = None"
    by (auto split: prod.splits option.splits)
  have l: "0 < length (tw_workers read_world)" "2 \<le> length (hw_fm (tw_net read_world))"
    by (simp_all add: read_world_def accept_world_def FdManager_def)
  have "(120000 :: u64) < 2 ^ 31 * 1000" by simp
  from read_timeout_configured [OF sv refl var this l c, of "[0]" "[(5, 0)]" "[]"] obtain tw' where
    r: "StartAccept_round (hooked_api plain_env) read_world (sv\<lparr>ts_socks := [0], ts_stop := False\<rparr>) 0 = Inr (True, tw')"
      "hook_read True (hw_fm (tw_net tw')) (sk_sock c) [(5, 0)] [] = Inr (do_io_retry 120000 READ [(5, 0)] [] [])" by blast
  have "fst ?acc = Some c" by (simp add: c(1))
  with sv r show ?thesis by blast
qed

end
